(* ===== verification/Nbuss_Prelude.thy ===== *)
theory Nbuss_Prelude
  imports Main "HOL-Library.Word"
begin

text \<open>
  Shared vocabulary of the development: the basic machine types, the ways in which a call of
  the C++ library can end, the standard containers the library uses (\<^verbatim>\<open>std::map::operator[]\<close>
  and \<^verbatim>\<open>std::deque\<close>), the contract of a FIFO queue as a locale, and reachability with
  invariants for the step relations of the concurrent components.
\<close>

unbundle bit_operations_syntax

named_theorems nbuss_simps \<open>equations that evaluate the operations of the model\<close>
named_theorems nbuss_frame \<open>fields an operation does not write\<close>

section \<open>Machine types and outcomes\<close>

type_synonym fd = int
type_synonym errno = int
type_synonym byte = "8 word"
type_synonym u16 = "16 word"
type_synonym u32 = "32 word"

text \<open>
  Exceptions carry the message of the \<^verbatim>\<open>throw\<close> expression. A call ends normally or abruptly:
  by an exception, by the end of the program (\<^verbatim>\<open>std::terminate\<close>, a failed assertion), by undefined
  behaviour (a dereferenced null pointer, say), or by never returning because it waits on a condition
  variable that nobody signals.
\<close>

datatype exn = Runtime_error string | Invalid_argument string | System_error string

datatype abrupt = Throw exn | Abort string | UB string | Blocked

type_synonym 'a outcome = "abrupt + 'a"

section \<open>Containers\<close>

text \<open>\<^verbatim>\<open>std::map::operator[]\<close>: reads the value and inserts a default one when the key is absent.\<close>

definition map_at :: "('k \<rightharpoonup> 'v) \<Rightarrow> 'k \<Rightarrow> 'v \<Rightarrow> 'v \<times> ('k \<rightharpoonup> 'v)" where
  "map_at m k d = (case m k of Some v \<Rightarrow> (v, m) | None \<Rightarrow> (d, m(k \<mapsto> d)))"

lemma map_at_Some [simp]: "m k = Some v \<Longrightarrow> map_at m k d = (v, m)"
  by (simp add: map_at_def)

lemma map_at_None [simp]: "m k = None \<Longrightarrow> map_at m k d = (d, m(k \<mapsto> d))"
  by (simp add: map_at_def)

lemma map_at_fst: "fst (map_at m k d) = (case m k of Some v \<Rightarrow> v | None \<Rightarrow> d)"
  by (simp add: map_at_def split: option.splits)

lemma map_at_stored: "snd (map_at m k d) k = Some (fst (map_at m k d))"
  by (simp add: map_at_def split: option.splits)

lemma map_at_other: "k' \<noteq> k \<Longrightarrow> snd (map_at m k d) k' = m k'"
  by (simp add: map_at_def split: option.splits)

text \<open>A conversion to \<^verbatim>\<open>int\<close>, 32 bits wide.\<close>

definition to_int :: "int \<Rightarrow> int" where
  "to_int x = sint (word_of_int x :: 32 word)"

lemma to_int_id: "k < 2 ^ 31 \<Longrightarrow> to_int (int k) = int k"
  unfolding to_int_def by (subst signed_of_int) (simp add: signed_take_bit_int_eq_self)

text \<open>
  \<^verbatim>\<open>std::deque\<close>, with the front of the deque as the head of the list. The library pushes new
  elements at the front and takes them from the back.
\<close>

definition push_front :: "'a \<Rightarrow> 'a list \<Rightarrow> 'a list" where
  "push_front x q = x # q"

definition push_back :: "'a \<Rightarrow> 'a list \<Rightarrow> 'a list" where
  "push_back x q = q @ [x]"

definition take_back :: "'a list \<Rightarrow> ('a \<times> 'a list) option" where
  "take_back q = (if q = [] then None else Some (last q, butlast q))"

lemma take_back_snoc [simp]: "take_back (q @ [x]) = Some (x, q)"
  by (simp add: take_back_def)

lemma take_back_Nil [simp]: "take_back [] = None"
  by (simp add: take_back_def)

lemma take_back_SomeD: "take_back q = Some (x, q') \<Longrightarrow> q = q' @ [x]"
  by (auto simp: take_back_def split: if_splits)

lemma length_take_back: "take_back q = Some (x, q') \<Longrightarrow> length q = Suc (length q')"
  by (auto dest: take_back_SomeD)

section \<open>The contract of a FIFO queue\<close>

text \<open>
  \<open>items q\<close> lists the queue from its oldest element. \<open>enq\<close> adds a newest element and
  \<open>deq\<close> removes the oldest one.
\<close>

locale fifo =
  fixes enq :: "'a \<Rightarrow> 'q \<Rightarrow> 'q"
    and deq :: "'q \<Rightarrow> ('a \<times> 'q) option"
    and items :: "'q \<Rightarrow> 'a list"
  assumes items_enq: "items (enq x q) = items q @ [x]"
    and deq_None: "deq q = None \<longleftrightarrow> items q = []"
    and items_deq: "deq q = Some (x, q') \<Longrightarrow> items q = x # items q'"
begin

lemma items_enq_all: "items (fold enq xs q) = items q @ xs"
  by (induction xs arbitrary: q) (simp_all add: items_enq)

lemma deq_oldest:
  assumes "items q = x # xs"
  shows "\<exists>q'. deq q = Some (x, q') \<and> items q' = xs"
proof -
  from assms have "deq q \<noteq> None" by (simp add: deq_None)
  then obtain y q' where d: "deq q = Some (y, q')" by (cases "deq q") auto
  with assms show ?thesis by (auto dest: items_deq)
qed

lemma deq_after_enq:
  assumes "items q = []"
  shows "\<exists>q'. deq (enq x q) = Some (x, q') \<and> items q' = []"
  using assms deq_oldest [of "enq x q" x "[]"] by (simp add: items_enq)

end

text \<open>A queue whose oldest element can be put back at the head, as after a failed write.\<close>

locale fifo_requeue = fifo +
  fixes requeue :: "'a \<Rightarrow> 'b \<Rightarrow> 'b"
  assumes items_requeue: "items (requeue x q) = x # items q"
begin

lemma requeue_undoes_deq:
  "deq q = Some (x, q') \<Longrightarrow> items (requeue x q') = items q"
  by (simp add: items_requeue items_deq)

end

interpretation deque: fifo_requeue push_front take_back rev push_back
  by unfold_locales (auto simp: push_front_def push_back_def dest: take_back_SomeD
      simp: take_back_def split: if_splits)

section \<open>Reachable states and invariants\<close>

inductive reachable :: "('s \<Rightarrow> bool) \<Rightarrow> ('s \<Rightarrow> 's \<Rightarrow> bool) \<Rightarrow> 's \<Rightarrow> bool"
  for init :: "'s \<Rightarrow> bool" and step :: "'s \<Rightarrow> 's \<Rightarrow> bool" where
  reach_init: "init s \<Longrightarrow> reachable init step s"
| reach_step: "reachable init step s \<Longrightarrow> step s t \<Longrightarrow> reachable init step t"

locale inductive_invariant =
  fixes init :: "'s \<Rightarrow> bool" and step :: "'s \<Rightarrow> 's \<Rightarrow> bool" and inv :: "'s \<Rightarrow> bool"
  assumes inv_init: "init s \<Longrightarrow> inv s"
    and inv_step: "inv s \<Longrightarrow> step s t \<Longrightarrow> inv t"
begin

lemma reachable_inv: "reachable init step s \<Longrightarrow> inv s"
  by (induction rule: reachable.induct) (auto intro: inv_init inv_step)

lemma steps_inv: "step\<^sup>*\<^sup>* s t \<Longrightarrow> inv s \<Longrightarrow> inv t"
  by (induction rule: rtranclp_induct) (auto intro: inv_step)

end

section \<open>Lists\<close>

lemma take_append_drop_take:
  "i \<le> length xs \<Longrightarrow> take i xs @ take j (drop i xs) = take (i + j) xs"
  by (simp add: take_add)

lemma concat_singletons [simp]: "concat (map (\<lambda>x. [x]) xs) = xs"
  by (induction xs) simp_all

lemma concat_rev_snoc: "concat (rev (q @ [x])) = x @ concat (rev q)"
  by simp

end
