(* ===== verification/Crc16.thy ===== *)
theory Crc16
  imports Nbuss_Prelude
begin

text \<open>
  Model of \<^verbatim>\<open>libnbuss/Crc16.h\<close> and \<^verbatim>\<open>libnbuss/Crc16.cpp\<close>: the table of 256 entries built by
  \<^verbatim>\<open>init_crc16_tab\<close> and the four checksum routines that use it. The lemmas relate the table
  driven routines to the bit-serial shift register they speed up, and show which transmission
  errors the checksum detects.
\<close>

section \<open>Definitions\<close>

definition CRC_POLY_16 :: u16 where "CRC_POLY_16 = 0xA001"
definition CRC_START_16 :: u16 where "CRC_START_16 = 0x0000"
definition CRC_START_MODBUS :: u16 where "CRC_START_MODBUS = 0xFFFF"

record Crc16 =
  crc_tab16_init :: bool
  crc_tab16 :: "u16 list"

text \<open>The inner loop of \<^verbatim>\<open>init_crc16_tab\<close>, with the number of rounds still to run.\<close>

fun crc_rounds :: "nat \<Rightarrow> u16 \<Rightarrow> u16 \<Rightarrow> u16" where
  "crc_rounds 0 crc c = crc"
| "crc_rounds (Suc j) crc c =
     crc_rounds j
       (if (crc XOR c) AND 0x0001 \<noteq> 0 then drop_bit 1 crc XOR CRC_POLY_16 else drop_bit 1 crc)
       (drop_bit 1 c)"

function init_loop :: "nat \<Rightarrow> u16 list \<Rightarrow> u16 list" where
  "init_loop i tab =
     (if i < 256 then init_loop (Suc i) (tab[i := crc_rounds 8 0 (of_nat i)]) else tab)"
  by pat_completeness auto
termination
  by (relation "measure (\<lambda>(i, tab). 256 - i)") auto

declare init_loop.simps [simp del]

definition init_crc16_tab :: "Crc16 \<Rightarrow> Crc16" where
  "init_crc16_tab c = c\<lparr>crc_tab16 := init_loop 0 (crc_tab16 c), crc_tab16_init := True\<rparr>"

text \<open>The constructor: \<open>mem\<close> is what the uninitialised array holds.\<close>

definition Crc16_new :: "u16 list \<Rightarrow> Crc16" where
  "Crc16_new mem = init_crc16_tab \<lparr>crc_tab16_init = False, crc_tab16 = mem\<rparr>"

definition crc_step :: "u16 list \<Rightarrow> u16 \<Rightarrow> byte \<Rightarrow> u16" where
  "crc_step tab crc c = drop_bit 8 crc XOR tab ! unat ((crc XOR ucast c) AND 0x00FF)"

text \<open>
  The \<^verbatim>\<open>for\<close> loop of the three block routines: \<open>n\<close> bytes are still to be read. Reading past
  the end of the buffer is undefined behaviour, the value \<open>None\<close>.
\<close>

fun crc_loop :: "u16 list \<Rightarrow> u16 \<Rightarrow> byte list \<Rightarrow> nat \<Rightarrow> u16 option" where
  "crc_loop tab crc ptr 0 = Some crc"
| "crc_loop tab crc [] (Suc n) = None"
| "crc_loop tab crc (b # ptr) (Suc n) = crc_loop tab (crc_step tab crc b) ptr n"

definition update_crc_16 :: "Crc16 \<Rightarrow> u16 \<Rightarrow> byte list option \<Rightarrow> nat \<Rightarrow> u16 option" where
  "update_crc_16 c crc input_str num_bytes =
     (case input_str of None \<Rightarrow> Some crc | Some ptr \<Rightarrow> crc_loop (crc_tab16 c) crc ptr num_bytes)"

definition crc_16 :: "Crc16 \<Rightarrow> byte list option \<Rightarrow> nat \<Rightarrow> u16 option" where
  "crc_16 c input_str num_bytes =
     (case input_str of None \<Rightarrow> Some CRC_START_16
      | Some ptr \<Rightarrow> crc_loop (crc_tab16 c) CRC_START_16 ptr num_bytes)"

definition crc_modbus :: "Crc16 \<Rightarrow> byte list option \<Rightarrow> nat \<Rightarrow> u16 option" where
  "crc_modbus c input_str num_bytes =
     (case input_str of None \<Rightarrow> Some CRC_START_MODBUS
      | Some ptr \<Rightarrow> crc_loop (crc_tab16 c) CRC_START_MODBUS ptr num_bytes)"

definition update_crc_16_byte :: "Crc16 \<Rightarrow> u16 \<Rightarrow> byte \<Rightarrow> u16" where
  "update_crc_16_byte c crc b = crc_step (crc_tab16 c) crc b"

text \<open>The reference: a shift register fed with one bit at a time, least significant bit first.\<close>

definition lfsr :: "u16 \<Rightarrow> u16" where
  "lfsr x = (if bit x 0 then drop_bit 1 x XOR CRC_POLY_16 else drop_bit 1 x)"

definition serial_bit :: "bool \<Rightarrow> u16 \<Rightarrow> u16" where
  "serial_bit b crc = (if bit crc 0 \<noteq> b then drop_bit 1 crc XOR CRC_POLY_16 else drop_bit 1 crc)"

definition byte_bits :: "byte \<Rightarrow> bool list" where
  "byte_bits b = map (bit b) [0..<8]"

definition serial_crc :: "u16 \<Rightarrow> byte list \<Rightarrow> u16" where
  "serial_crc crc bs = fold serial_bit (concat (map byte_bits bs)) crc"

section \<open>The shift register\<close>

lemma bit_lfsr: "bit (lfsr x) n \<longleftrightarrow> (bit x (Suc n) \<noteq> (bit x 0 \<and> bit CRC_POLY_16 n))"
  by (auto simp: lfsr_def bit_simps)

lemma lfsr_xor: "lfsr (x XOR y) = lfsr x XOR lfsr y"
  by (rule bit_eqI) (auto simp: bit_lfsr bit_simps)

lemma lfsr_pow_xor: "(lfsr ^^ n) (x XOR y) = (lfsr ^^ n) x XOR (lfsr ^^ n) y"
  by (induction n) (simp_all add: lfsr_xor)

lemma bit_poly_top: "bit CRC_POLY_16 15"
  by (simp add: CRC_POLY_16_def)

lemma lfsr_zero_iff [simp]: "lfsr x = 0 \<longleftrightarrow> x = 0"
proof
  assume z: "lfsr x = 0"
  have top: "\<not> bit x 16" by (simp add: bit_word.rep_eq)
  have b0: "\<not> bit x 0"
  proof
    assume "bit x 0"
    then have "bit (lfsr x) 15" using top bit_poly_top by (simp add: bit_lfsr)
    with z show False by simp
  qed
  show "x = 0"
  proof (rule bit_eqI)
    fix n
    show "bit x n = bit 0 n"
    proof (cases n)
      case 0 with b0 show ?thesis by simp
    next
      case (Suc m)
      from z have "\<not> bit (lfsr x) m" by simp
      with Suc b0 show ?thesis by (simp add: bit_lfsr)
    qed
  qed
qed (simp add: lfsr_def)

lemma lfsr_pow_zero_iff: "(lfsr ^^ n) x = 0 \<longleftrightarrow> x = 0"
  by (induction n) simp_all

lemma xor_eq_zero_iff: "x XOR y = 0 \<longleftrightarrow> x = (y :: 'a::len word)"
  by (metis xor.assoc xor.left_neutral xor_self_eq)

lemma xor_left_cancel: "c XOR x = c XOR y \<longleftrightarrow> x = (y :: 'a::len word)"
  by (metis xor.assoc xor.left_neutral xor_self_eq)

lemma xor_right_cancel: "x XOR c = y XOR c \<longleftrightarrow> x = (y :: 'a::len word)"
  by (simp only: xor.commute [of _ c] xor_left_cancel)

lemma lfsr_pow_inj: "(lfsr ^^ n) x = (lfsr ^^ n) y \<longleftrightarrow> x = y"
  using lfsr_pow_zero_iff [of n "x XOR y"] by (simp add: lfsr_pow_xor xor_eq_zero_iff)

lemma bit_lfsr_pow_high:
  assumes "\<And>k. k < n \<Longrightarrow> \<not> bit x k"
  shows "(lfsr ^^ n) x = drop_bit n x"
  using assms
proof (induction n)
  case 0
  then show ?case by simp
next
  case (Suc n)
  then have "(lfsr ^^ n) x = drop_bit n x" by simp
  moreover have "\<not> bit (drop_bit n x) 0" using Suc.prems [of n] by (simp add: bit_simps)
  ultimately show ?case by (simp add: lfsr_def [of "drop_bit n x"])
qed

text \<open>Feeding one bit is a step of the register on the state with that bit added.\<close>

lemma serial_bit_lfsr: "serial_bit b crc = lfsr (crc XOR of_bool b)"
proof (rule bit_eqI)
  fix n
  show "bit (serial_bit b crc) n = bit (lfsr (crc XOR of_bool b)) n"
    by (cases b) (auto simp: serial_bit_def bit_lfsr bit_simps)
qed

lemma lfsr_pow_push:
  assumes "k \<le> n" "n < 16"
  shows "(lfsr ^^ k) (push_bit n 1) = push_bit (n - k) (1 :: u16)"
proof -
  have "(lfsr ^^ k) (push_bit n 1) = drop_bit k (push_bit n (1 :: u16))"
    by (rule bit_lfsr_pow_high) (use assms in \<open>auto simp: bit_simps\<close>)
  also have "\<dots> = push_bit (n - k) 1"
    using assms by (auto intro!: bit_eqI simp: bit_simps)
  finally show ?thesis .
qed

lemma fold_serial_lfsr:
  assumes "length bits \<le> 16"
  shows "fold serial_bit bits crc = (lfsr ^^ length bits)
    (crc XOR horner_sum of_bool 2 bits)"
  using assms
proof (induction bits rule: rev_induct)
  case Nil
  then show ?case by simp
next
  case (snoc b bits)
  let ?n = "length bits"
  have hs: "horner_sum of_bool 2 (bits @ [b]) =
      (horner_sum of_bool 2 bits XOR push_bit ?n (of_bool b) :: u16)"
    by (rule bit_eqI)
      (auto simp: bit_horner_sum_bit_word_iff bit_simps nth_append less_Suc_eq)
  have "(lfsr ^^ ?n) (push_bit ?n (of_bool b)) = (of_bool b :: u16)"
    using lfsr_pow_push [of ?n ?n] snoc.prems lfsr_pow_zero_iff [of ?n 0] by (cases b) auto
  then have "(lfsr ^^ ?n) (crc XOR horner_sum of_bool 2 (bits @ [b])) =
      (lfsr ^^ ?n) (crc XOR horner_sum of_bool 2 bits) XOR of_bool b"
    by (simp only: hs lfsr_pow_xor xor.assoc)
  with snoc show ?case by (simp add: serial_bit_lfsr)
qed

section \<open>The table\<close>

text \<open>The two registers of the inner loop, \<open>crc\<close> and \<open>c\<close>, act as one: only their sum matters.\<close>

lemma and_one_neq_zero: "x AND 1 \<noteq> 0 \<longleftrightarrow> bit x 0" for x :: u16
  by (simp add: and_one_eq mod_2_eq_odd bit_0)

lemma crc_rounds_lfsr:
  assumes "drop_bit n c = 0"
  shows "crc_rounds n crc c = (lfsr ^^ n) (crc XOR c)"
  using assms
proof (induction n arbitrary: crc c)
  case 0
  then show ?case by simp
next
  case (Suc n)
  let ?crc = "if (crc XOR c) AND 1 \<noteq> 0 then drop_bit 1 crc XOR CRC_POLY_16 else drop_bit 1 crc"
  have "lfsr (crc XOR c) = ?crc XOR drop_bit 1 c"
    using and_one_neq_zero [of "crc XOR c"]
    by (auto simp: lfsr_def drop_bit_xor xor.assoc xor.commute xor.left_commute)
  moreover have "drop_bit n (drop_bit 1 c) = 0" using Suc.prems by (simp add: ac_simps)
  ultimately show ?case using Suc.IH [of "drop_bit 1 c" ?crc]
    by (simp only: crc_rounds.simps funpow_Suc_right o_apply)
qed

lemma length_init_loop [simp]: "length (init_loop i tab) = length tab"
proof (induction i tab rule: init_loop.induct)
  case (1 i tab)
  then show ?case by (cases "i < 256") (simp_all add: init_loop.simps [of i tab])
qed

lemma nth_init_loop:
  assumes "k < length tab"
  shows "init_loop i tab ! k =
    (if i \<le> k \<and> k < 256 then crc_rounds 8 0 (of_nat k) else tab ! k)"
  using assms
proof (induction i tab rule: init_loop.induct)
  case (1 i tab)
  show ?case
  proof (cases "i < 256")
    case True
    then have "init_loop i tab = init_loop (Suc i) (tab[i := crc_rounds 8 0 (of_nat i)])"
      by (simp add: init_loop.simps [of i tab])
    with "1.IH" [OF True] "1.prems" True show ?thesis
      by (auto simp: nth_list_update le_Suc_eq not_less_eq_eq)
  next
    case False
    then show ?thesis by (auto simp: init_loop.simps [of i tab])
  qed
qed

definition crc_table :: "u16 list" where
  "crc_table = map (\<lambda>i. crc_rounds 8 0 (of_nat i)) [0..<256]"

lemma init_loop_table: "length tab = 256 \<Longrightarrow> init_loop 0 tab = crc_table"
  by (rule nth_equalityI) (auto simp: nth_init_loop crc_table_def)

lemma Crc16_new_table: "length mem = 256 \<Longrightarrow> crc_tab16 (Crc16_new mem) = crc_table"
  by (simp add: Crc16_new_def init_crc16_tab_def init_loop_table)

lemma unat_less_256: "drop_bit 8 x = (0 :: u16) \<longleftrightarrow> unat x < 256"
proof -
  have "drop_bit 8 x = 0 \<longleftrightarrow> unat (drop_bit 8 x) = 0" by (simp only: unat_eq_zero)
  also have "\<dots> \<longleftrightarrow> unat x < 256" 
    by (simp only: unat_drop_bit_eq) (simp add: drop_bit_eq_div div_eq_0_iff)
  finally show ?thesis .
qed

lemma crc_table_nth:
  assumes "drop_bit 8 x = (0 :: u16)"
  shows "crc_table ! unat x = (lfsr ^^ 8) x"
  using assms by (simp add: crc_table_def crc_rounds_lfsr unat_less_256 [symmetric])

lemma low_byte_mask: "(0x00FF :: u16) = mask 8"
  by (simp add: mask_eq_exp_minus_1)

lemma low_byte_split: "x = push_bit 8 (drop_bit 8 x) XOR (x AND 0x00FF)" for x :: u16
  by (rule bit_eqI) (auto simp: low_byte_mask bit_push_bit_iff bit_simps simp del: push_bit_numeral)

lemma crc_step_lfsr: "crc_step crc_table crc b = (lfsr ^^ 8) (crc XOR ucast b)"
proof -
  let ?x = "crc XOR ucast b :: u16"
  have b: "drop_bit 8 (ucast b :: u16) = 0"
    by (rule bit_eqI) (auto simp: bit_simps dest: bit_imp_le_length)
  have lo: "drop_bit 8 (?x AND 0x00FF) = 0"
    by (rule bit_eqI) (auto simp: low_byte_mask bit_simps)
  have hi: "(lfsr ^^ 8) (push_bit 8 (drop_bit 8 ?x)) = drop_bit 8 crc"
  proof -
    have "(lfsr ^^ 8) (push_bit 8 (drop_bit 8 ?x)) = drop_bit 8 (push_bit 8 (drop_bit 8 ?x))"
      by (rule bit_lfsr_pow_high) (auto simp: bit_simps)
    also have "\<dots> = drop_bit 8 ?x"
      by (rule bit_eqI) (auto simp: bit_simps dest: bit_imp_le_length)
    also have "\<dots> = drop_bit 8 crc" by (simp add: drop_bit_xor b)
    finally show ?thesis .
  qed
  have "(lfsr ^^ 8) ?x = drop_bit 8 crc XOR crc_table ! unat (?x AND 0x00FF)"
    by (subst low_byte_split) (simp only: lfsr_pow_xor hi crc_table_nth [OF lo])
  then show ?thesis by (simp add: crc_step_def)
qed

lemma byte_bit_bound: "bit b n \<Longrightarrow> n < 8" for b :: byte
  using bit_imp_le_length [of b n] by simp

lemma horner_byte_bits: "horner_sum of_bool 2 (byte_bits b) = (ucast b :: u16)"
proof (rule bit_eqI)
  fix n
  show "bit (horner_sum of_bool 2 (byte_bits b) :: u16) n = bit (ucast b :: u16) n"
    using byte_bit_bound [of b n]
    by (auto simp: bit_horner_sum_bit_word_iff byte_bits_def bit_simps)
qed

lemma length_byte_bits [simp]: "length (byte_bits b) = 8"
  by (simp add: byte_bits_def)

text \<open>One table look-up does the work of eight steps of the bit-serial register.\<close>

lemma crc_step_serial: "crc_step crc_table crc b = fold serial_bit (byte_bits b) crc"
  by (simp add: crc_step_lfsr fold_serial_lfsr horner_byte_bits del: funpow.simps)

section \<open>The block routines\<close>

lemma crc_loop_fold:
  "crc_loop tab crc ptr n =
     (if n \<le> length ptr then Some (fold (\<lambda>b c. crc_step tab c b) (take n ptr) crc) else None)"
  by (induction tab crc ptr n rule: crc_loop.induct) auto

lemma fold_crc_step_serial:
  "fold (\<lambda>b c. crc_step crc_table c b) bs crc = serial_crc crc bs"
  by (induction bs arbitrary: crc) (simp_all add: serial_crc_def crc_step_serial)

lemma serial_crc_append: "serial_crc crc (xs @ ys) = serial_crc (serial_crc crc xs) ys"
  by (simp add: serial_crc_def)

lemma serial_crc_Cons: "serial_crc crc (b # bs) = serial_crc ((lfsr ^^ 8) (crc XOR ucast b)) bs"
  by (simp add: serial_crc_def crc_step_lfsr [symmetric] crc_step_serial)

lemma serial_crc_inj: "serial_crc c bs = serial_crc c' bs \<longleftrightarrow> c = c'"
proof (induction bs arbitrary: c c')
  case Nil
  then show ?case by (simp add: serial_crc_def)
next
  case (Cons b bs)
  then show ?case
    by (simp add: serial_crc_Cons lfsr_pow_inj xor_right_cancel del: funpow.simps)
qed

text \<open>
  On the wire a message is the sequence of its bits, each byte with its least significant bit first. Up to 16 bits
  act as one word that is added to the register, so the register cannot confuse two different ones.
\<close>

definition message_bits :: "byte list \<Rightarrow> bool list" where
  "message_bits bs = concat (map byte_bits bs)"

lemma fold_serial_inj: "fold serial_bit bits c = fold serial_bit bits c' \<longleftrightarrow> c = c'"
proof (induction bits arbitrary: c c')
  case (Cons b bits)
  then show ?case using lfsr_pow_inj [of 1] by (simp add: serial_bit_lfsr xor_right_cancel)
qed simp

lemma horner_bits_inj:
  assumes "length u = length v" and "length u \<le> 16"
    and "horner_sum of_bool 2 u = (horner_sum of_bool 2 v :: u16)"
  shows "u = v"
proof (rule nth_equalityI [OF assms(1)])
  fix i assume i: "i < length u"
  from assms(3) have "bit (horner_sum of_bool 2 u :: u16) i = bit (horner_sum of_bool 2 v :: u16) i" by simp
  with i assms(1,2) show "u ! i = v ! i" by (simp add: bit_horner_sum_bit_word_iff)
qed

lemma serial_crc_burst:
  assumes "message_bits p = xs @ u @ ys" and "message_bits q = xs @ v @ ys"
    and "length u = length v" and "length u \<le> 16" and "serial_crc c p = serial_crc c q"
  shows "u = v"
proof -
  let ?c = "fold serial_bit xs c"
  from assms(5) have "fold serial_bit u ?c = fold serial_bit v ?c"
    unfolding serial_crc_def message_bits_def [symmetric] assms(1,2) by (simp add: fold_serial_inj)
  then have "horner_sum of_bool 2 u = (horner_sum of_bool 2 v :: u16)"
    using assms(3,4) by (simp add: fold_serial_lfsr lfsr_pow_inj xor_left_cancel)
  with assms(3,4) show ?thesis by (rule horner_bits_inj)
qed

lemma crc_routines_serial:
  assumes "length mem = 256"
  shows "update_crc_16 (Crc16_new mem) crc (Some p) n =
      (if n \<le> length p then Some (serial_crc crc (take n p)) else None)"
    and "crc_16 (Crc16_new mem) (Some p) n =
      (if n \<le> length p then Some (serial_crc CRC_START_16 (take n p)) else None)"
    and "crc_modbus (Crc16_new mem) (Some p) n =
      (if n \<le> length p then Some (serial_crc CRC_START_MODBUS (take n p)) else None)"
  using assms
  by (simp_all add: update_crc_16_def crc_16_def crc_modbus_def Crc16_new_table crc_loop_fold
      fold_crc_step_serial)

section \<open>Properties\<close>

text \<open>
  C31. The table driven \<^verbatim>\<open>crc_16\<close> of an object built by the constructor, whatever its memory held
  before, computes for a buffer of at least \<open>n\<close> bytes the same checksum as the bit-serial shift
  register over the first \<open>n\<close> bytes; a read past the end of the buffer is undefined.
\<close>

theorem crc_16_bit_serial:
  assumes "length mem = 256"
  shows "crc_16 (Crc16_new mem) (Some p) n =
    (if n \<le> length p then Some (serial_crc CRC_START_16 (take n p)) else None)"
  using crc_routines_serial(2) [OF assms] .

theorem crc_16_bit_serial_witness:
  "length (replicate 256 (7 :: u16)) = 256 \<and>
   crc_16 (Crc16_new (replicate 256 7)) (Some [0x31]) 1 = Some 0xD4C1"
proof -
  have "serial_crc CRC_START_16 [0x31] = 0xD4C1"
    by code_simp
  then show ?thesis using crc_16_bit_serial [of "replicate 256 7" "[0x31]" 1] by simp
qed

text \<open>The block update over a list of pieces, and the byte update over a list of bytes.\<close>

lemma update_pieces_serial:
  assumes "length mem = 256"
  shows "foldl (\<lambda>c p. Option.bind c (\<lambda>crc. update_crc_16 (Crc16_new mem) crc (Some p) (length p))) (Some crc) ps
    = Some (serial_crc crc (concat ps))"
proof (induction ps arbitrary: crc)
  case Nil
  show ?case by (simp add: serial_crc_def)
next
  case (Cons p ps)
  with assms show ?case by (simp add: crc_routines_serial serial_crc_append)
qed

lemma update_bytes_serial:
  assumes "length mem = 256"
  shows "foldl (update_crc_16_byte (Crc16_new mem)) crc bs = serial_crc crc bs"
  using assms fold_crc_step_serial [of bs crc]
  by (simp add: foldl_conv_fold update_crc_16_byte_def Crc16_new_table)

text \<open>
  C33. A checksum may be computed in pieces: however a message is cut, updating the start value with
  one piece after the other by the block variant of \<^verbatim>\<open>update_crc_16\<close>, or with one byte after the other by the byte
  variant, gives the \<^verbatim>\<open>crc_16\<close> of the whole message.
\<close>

theorem crc_16_stream:
  assumes "length mem = 256"
  shows "foldl (\<lambda>c p. Option.bind c (\<lambda>crc. update_crc_16 (Crc16_new mem) crc (Some p) (length p))) (Some CRC_START_16) ps
      = crc_16 (Crc16_new mem) (Some (concat ps)) (length (concat ps))
    \<and> Some (foldl (update_crc_16_byte (Crc16_new mem)) CRC_START_16 (concat ps))
      = crc_16 (Crc16_new mem) (Some (concat ps)) (length (concat ps))"
  unfolding update_pieces_serial [OF assms] update_bytes_serial [OF assms] crc_routines_serial(2) [OF assms] by simp

theorem crc_16_stream_witness:
  "update_crc_16 (Crc16_new (replicate 256 7)) CRC_START_16 (Some [0x31]) 1 = Some 0xD4C1
   \<and> update_crc_16 (Crc16_new (replicate 256 7)) 0xD4C1 (Some [0x32, 0x33]) 2
     = crc_16 (Crc16_new (replicate 256 7)) (Some [0x31, 0x32, 0x33]) 3"
proof -
  have m: "length (replicate 256 (7 :: u16)) = 256" by simp
  have "serial_crc CRC_START_16 [0x31] = 0xD4C1" by code_simp
  then have "update_crc_16 (Crc16_new (replicate 256 7)) CRC_START_16 (Some [0x31]) 1 = Some 0xD4C1"
    by (simp add: crc_routines_serial [OF m])
  with crc_16_stream [OF m, of "[[0x31], [0x32, 0x33]]"] show ?thesis by (simp add: numeral_eq_Suc)
qed

text \<open>
  C32. Error detection: two messages whose bits, in the order of the wire, differ only within a window of at
  most 16 bits, at any position and not aligned to bytes, never have the same \<^verbatim>\<open>crc_16\<close>: every burst error of at
  most 16 bits is detected.
\<close>

theorem crc_16_detects_burst:
  assumes "length mem = 256" and "message_bits p = xs @ u @ ys" and "message_bits q = xs @ v @ ys"
    and "length u = length v" and "length u \<le> 16" and "u \<noteq> v"
  shows "crc_16 (Crc16_new mem) (Some p) (length p) \<noteq> crc_16 (Crc16_new mem) (Some q) (length q)"
  using serial_crc_burst [OF assms(2-5)] assms(6) by (auto simp: crc_routines_serial(2) [OF assms(1)])

text \<open>Sixteen bits that begin in the middle of the first byte and end in the middle of the third.\<close>

theorem crc_16_detects_burst_witness:
  "crc_16 (Crc16_new (replicate 256 0)) (Some [0x19, 0x22, 0x73]) 3 \<noteq>
     crc_16 (Crc16_new (replicate 256 0)) (Some [0x89, 0x44, 0x71]) 3"
proof -
  let ?xs = "[True, False, False, True]" and ?ys = "[True, True, True, False]"
  let ?u = "[True, False, False, False, False, True, False, False, False, True, False, False, True, True, False, False]"
  let ?v = "[False, False, False, True, False, False, True, False, False, False, True, False, True, False, False, False]"
  have m: "length (replicate 256 (0 :: u16)) = 256" by simp
  have p: "message_bits [0x19, 0x22, 0x73] = ?xs @ ?u @ ?ys" by code_simp
  have q: "message_bits [0x89, 0x44, 0x71] = ?xs @ ?v @ ?ys" by code_simp
  have "length ?u = length ?v" "length ?u \<le> 16" "?u \<noteq> ?v" by simp_all
  from crc_16_detects_burst [OF m p q this] show ?thesis by (simp add: numeral_3_eq_3)
qed

end
