(* ===== verification/FiniteStateMachine.thy ===== *)
theory FiniteStateMachine
  imports Nbuss_Prelude
begin

text \<open>
  Model of \<^verbatim>\<open>libnbuss/FiniteStateMachine.h\<close>. The actions of the C++ class are closures that capture the
  machine; here a row holds a name of the action, and the function \<open>run\<close> says what calling it does to
  the machine. The static method \<^verbatim>\<open>call\<close> is not modelled: it passes an argument to a function object
  that takes none and does not compile when it is used.
\<close>

section \<open>Definitions\<close>

record ('s, 'e, 'a) fsm =
  fsm_state :: 's
  fsm_data :: "('s \<times> 'e \<times> 'a) list"

definition FSM_new :: "'s \<Rightarrow> ('s, 'e, 'a) fsm" where
  "FSM_new initialState = \<lparr>fsm_state = initialState, fsm_data = []\<rparr>"

text \<open>The action for rows that only accept their event.\<close>

definition noop :: "('s, 'e, 'a, 'z) fsm_scheme \<Rightarrow> abrupt option \<times> ('s, 'e, 'a, 'z) fsm_scheme" where
  "noop m = (None, m)"

definition setData :: "('s \<times> 'e \<times> 'a) list \<Rightarrow> ('s, 'e, 'a, 'z) fsm_scheme \<Rightarrow> ('s, 'e, 'a, 'z) fsm_scheme" where
  "setData rows m = m\<lparr>fsm_data := rows\<rparr>"

definition setState :: "'s \<Rightarrow> ('s, 'e, 'a, 'z) fsm_scheme \<Rightarrow> ('s, 'e, 'a, 'z) fsm_scheme" where
  "setState st m = m\<lparr>fsm_state := st\<rparr>"

text \<open>The loop over the rows; the first match is executed.\<close>

fun scan_rows ::
  "('a \<Rightarrow> ('s, 'e, 'a, 'z) fsm_scheme \<Rightarrow> abrupt option \<times> ('s, 'e, 'a, 'z) fsm_scheme)
    \<Rightarrow> 'e \<Rightarrow> ('s \<times> 'e \<times> 'a) list \<Rightarrow> ('s, 'e, 'a, 'z) fsm_scheme
    \<Rightarrow> abrupt option \<times> ('s, 'e, 'a, 'z) fsm_scheme" where
  "scan_rows run ev [] m = (Some (Throw (Runtime_error ''invalid (state, event)'')), m)"
| "scan_rows run ev ((st, ev', act) # rows) m =
     (if fsm_state m = st \<and> ev' = ev then run act m else scan_rows run ev rows m)"

definition incomingEvent ::
  "('a \<Rightarrow> ('s, 'e, 'a, 'z) fsm_scheme \<Rightarrow> abrupt option \<times> ('s, 'e, 'a, 'z) fsm_scheme)
    \<Rightarrow> 'e \<Rightarrow> ('s, 'e, 'a, 'z) fsm_scheme \<Rightarrow> abrupt option \<times> ('s, 'e, 'a, 'z) fsm_scheme" where
  "incomingEvent run ev m = scan_rows run ev (fsm_data m) m"

text \<open>A program that feeds events until one is refused.\<close>

fun feed ::
  "('a \<Rightarrow> ('s, 'e, 'a, 'z) fsm_scheme \<Rightarrow> abrupt option \<times> ('s, 'e, 'a, 'z) fsm_scheme)
    \<Rightarrow> 'e list \<Rightarrow> ('s, 'e, 'a, 'z) fsm_scheme \<Rightarrow> abrupt option \<times> ('s, 'e, 'a, 'z) fsm_scheme" where
  "feed run [] m = (None, m)"
| "feed run (ev # evs) m =
     (case incomingEvent run ev m of (Some a, m') \<Rightarrow> (Some a, m') | (None, m') \<Rightarrow> feed run evs m')"

section \<open>The automaton a table stands for\<close>

text \<open>A table whose actions only set the state: the partial transition function and its iteration.\<close>

definition delta :: "('s \<times> 'e \<times> 's) list \<Rightarrow> 's \<Rightarrow> 'e \<Rightarrow> 's option" where
  "delta rows st ev = map_of (map (\<lambda>(st, ev, st'). ((st, ev), st')) rows) (st, ev)"

fun delta_star :: "('s \<times> 'e \<times> 's) list \<Rightarrow> 's \<Rightarrow> 'e list \<Rightarrow> 's option" where
  "delta_star rows st [] = Some st"
| "delta_star rows st (ev # evs) =
     (case delta rows st ev of None \<Rightarrow> None | Some st' \<Rightarrow> delta_star rows st' evs)"

definition goto :: "'s \<Rightarrow> ('s, 'e, 's, 'z) fsm_scheme \<Rightarrow> abrupt option \<times> ('s, 'e, 's, 'z) fsm_scheme" where
  "goto st m = (None, setState st m)"

lemma scan_rows_find:
  "scan_rows run ev rows m =
     (case find (\<lambda>(st, ev', act). st = fsm_state m \<and> ev' = ev) rows of
        None \<Rightarrow> (Some (Throw (Runtime_error ''invalid (state, event)'')), m)
      | Some (st, ev', act) \<Rightarrow> run act m)"
  by (induction run ev rows m rule: scan_rows.induct) auto

lemma scan_rows_goto:
  "scan_rows goto ev rows m = (case delta rows (fsm_state m) ev of
      None \<Rightarrow> (Some (Throw (Runtime_error ''invalid (state, event)'')), m)
    | Some st \<Rightarrow> (None, setState st m))"
proof (induction rows)
  case (Cons row rows)
  obtain st ev' st' where "row = (st, ev', st')" by (cases row)
  with Cons show ?case by (auto simp: delta_def goto_def)
qed (simp add: delta_def)

section \<open>Properties\<close>

text \<open>
  \<^verbatim>\<open>incomingEvent\<close> executes the action of the first row for the current state and the event, and only
  that one; when there is none it throws and the machine does not change.
\<close>

lemma incomingEvent_first_match:
  "incomingEvent run ev m =
     (case find (\<lambda>(st, ev', act). st = fsm_state m \<and> ev' = ev) (fsm_data m) of
        None \<Rightarrow> (Some (Throw (Runtime_error ''invalid (state, event)'')), m)
      | Some (st, ev', act) \<Rightarrow> run act m)"
  by (simp add: incomingEvent_def scan_rows_find)

text \<open>
  A row with \<^verbatim>\<open>noop\<close> before all other rows of its state and event makes the machine accept the event and ignore it.
\<close>

lemma incomingEvent_noop:
  assumes "\<And>m. run act m = noop m"
  shows "incomingEvent run ev (setData ((fsm_state m, ev, act) # rows) m) = (None, setData ((fsm_state m, ev, act) # rows) m)"
  using assms by (simp add: incomingEvent_def setData_def noop_def)

text \<open>
  C38. A machine whose actions set the state implements the automaton of its table: a sequence of events is
  accepted without an exception exactly when the automaton has a run for it, and ends in the same
  state.
\<close>

theorem feed_implements_automaton:
  "feed goto evs m = (None, m') \<longleftrightarrow>
     (\<exists>st. delta_star (fsm_data m) (fsm_state m) evs = Some st \<and> m' = setState st m)"
proof (induction evs arbitrary: m)
  case Nil
  show ?case by (auto simp: setState_def)
next
  case (Cons ev evs)
  show ?case
  proof (cases "delta (fsm_data m) (fsm_state m) ev")
    case None
    then show ?thesis by (simp add: incomingEvent_def scan_rows_goto)
  next
    case (Some st)
    with Cons.IH [of "setState st m"] show ?thesis
      by (simp add: incomingEvent_def scan_rows_goto setState_def)
  qed
qed

end
