(* ===== verification/Logger.thy ===== *)
theory Logger
  imports Nbuss_Prelude
begin

text \<open>
  Model of \<^verbatim>\<open>libnbuss/Logger.cpp\<close>. The logging library is not part of the repository: the calls that set it up are
  a parameter, a record of functions over its state. The flag is the static variable of the file.
\<close>

section \<open>Definitions\<close>

record file_log =
  file_name :: string
  rotation_size :: nat
  max_size :: nat
  time_based_rotation :: "nat \<times> nat \<times> nat"
  log_format :: string
  auto_flush :: bool

record 'l boost_log =
  register_simple_formatter_factory :: "string \<Rightarrow> 'l \<Rightarrow> 'l"
  add_console_log :: "string \<Rightarrow> bool \<Rightarrow> 'l \<Rightarrow> 'l"
  add_file_log :: "file_log \<Rightarrow> 'l \<Rightarrow> 'l"
  add_common_attributes :: "'l \<Rightarrow> 'l"
  set_filter_info :: "'l \<Rightarrow> 'l"

definition COMMON_FMT :: string where
  "COMMON_FMT = ''[%TimeStamp%][%Severity%]:  %Message%''"

text \<open>\<open>debug\<close> says whether the file was compiled with \<^verbatim>\<open>_DEBUG\<close>.\<close>

definition init_log :: "'l boost_log \<Rightarrow> bool \<Rightarrow> int \<times> 'l \<Rightarrow> int \<times> 'l" where
  "init_log B debug s = (case s of (is_logger_initialized, l) \<Rightarrow>
     if is_logger_initialized \<noteq> 0 then s
     else let l1 = register_simple_formatter_factory B ''Severity'' l;
              l2 = add_console_log B COMMON_FMT True l1;
              l3 = add_file_log B \<lparr>file_name = ''sample_%3N.log'', rotation_size = 1 * 1024 * 1024,
                max_size = 20 * 1024 * 1024, time_based_rotation = (0, 0, 0), log_format = COMMON_FMT,
                auto_flush = True\<rparr> l2;
              l4 = add_common_attributes B l3
          in (1, if debug then l4 else set_filter_info B l4))"

section \<open>Lemmas\<close>

text \<open>However often \<^verbatim>\<open>init_log\<close> is called, the sinks are installed once.\<close>

lemma init_log_once: "(init_log B debug ^^ Suc n) s = init_log B debug s"
proof (induction n)
  case (Suc n)
  have "init_log B debug (init_log B debug s) = init_log B debug s"
    by (cases s) (simp add: init_log_def Let_def)
  with Suc show ?case by simp
qed simp

end
