(* ===== verification/Posix_Interface.thy ===== *)
theory Posix_Interface
  imports Nbuss_Prelude
begin

text \<open>
  The operating system as the library sees it. The kernel and the C library are not part of the
  repository, so they are a parameter of the model: a record \<open>kernel\<close> with one function per
  system call, over an abstract type \<open>'w\<close> of kernel states. What the library relies on is stated
  in three locales, with the documented behaviour of \<^verbatim>\<open>write(2)\<close>, \<^verbatim>\<open>read(2)\<close> and \<^verbatim>\<open>close(2)\<close>.
  A small kernel with bounded send buffers is defined at the end; it satisfies all the laws.
\<close>

section \<open>Constants of the Linux headers\<close>

definition EAGAIN :: errno where "EAGAIN = 11"
definition EWOULDBLOCK :: errno where "EWOULDBLOCK = EAGAIN"
definition EINTR :: errno where "EINTR = 4"
definition EBADF :: errno where "EBADF = 9"

definition EPOLLIN :: u32 where "EPOLLIN = 0x001"
definition EPOLLPRI :: u32 where "EPOLLPRI = 0x002"
definition EPOLLOUT :: u32 where "EPOLLOUT = 0x004"
definition EPOLLERR :: u32 where "EPOLLERR = 0x008"
definition EPOLLHUP :: u32 where "EPOLLHUP = 0x010"
definition EPOLLRDHUP :: u32 where "EPOLLRDHUP = 0x2000"
definition EPOLLET :: u32 where "EPOLLET = 0x80000000"

definition O_NONBLOCK :: int where "O_NONBLOCK = 0x800"

text \<open>Levels and names of socket options.\<close>

definition SOL_SOCKET :: int where "SOL_SOCKET = 1"
definition SO_SNDBUF :: int where "SO_SNDBUF = 7"
definition SO_RCVBUF :: int where "SO_RCVBUF = 8"
definition IPPROTO_TCP :: int where "IPPROTO_TCP = 6"
definition TCP_CORK :: int where "TCP_CORK = 3"

lemmas errno_defs = EAGAIN_def EWOULDBLOCK_def EINTR_def EBADF_def
lemmas epoll_defs = EPOLLIN_def EPOLLPRI_def EPOLLOUT_def EPOLLERR_def EPOLLHUP_def
  EPOLLRDHUP_def EPOLLET_def

datatype epoll_op = EPOLL_CTL_ADD | EPOLL_CTL_DEL

text \<open>Addresses: a Unix path as it stands in \<^verbatim>\<open>sun_path\<close>, an IPv4 address and port in the bytes of a
  \<^verbatim>\<open>sockaddr_in\<close>, or one entry of the list that \<^verbatim>\<open>getaddrinfo\<close> returns.\<close>

datatype sockaddr = Sockaddr_un "char list" | Sockaddr_in nat "byte list" | Sockaddr_info nat

section \<open>System calls\<close>

text \<open>
  A call takes its arguments and the kernel state and gives its result, the error number it would
  store, what it copies out if it copies something out, and the next kernel state.
\<close>

record 'w kernel =
  sys_read :: "fd \<Rightarrow> nat \<Rightarrow> 'w \<Rightarrow> (int \<times> errno \<times> byte list) \<times> 'w"
  sys_write :: "fd \<Rightarrow> byte list \<Rightarrow> 'w \<Rightarrow> (int \<times> errno) \<times> 'w"
  sys_close :: "fd \<Rightarrow> 'w \<Rightarrow> (int \<times> errno) \<times> 'w"
  sys_pipe :: "'w \<Rightarrow> (int \<times> errno \<times> (fd \<times> fd)) \<times> 'w"
  sys_listen :: "fd \<Rightarrow> nat \<Rightarrow> 'w \<Rightarrow> (int \<times> errno) \<times> 'w"
  sys_accept4 :: "fd \<Rightarrow> 'w \<Rightarrow> (int \<times> errno) \<times> 'w"
  sys_epoll_create1 :: "'w \<Rightarrow> (int \<times> errno) \<times> 'w"
  sys_epoll_ctl :: "fd \<Rightarrow> epoll_op \<Rightarrow> fd \<Rightarrow> u32 \<Rightarrow> 'w \<Rightarrow> (int \<times> errno) \<times> 'w"
  sys_getfl :: "fd \<Rightarrow> 'w \<Rightarrow> (int \<times> errno) \<times> 'w"
  sys_setfl :: "fd \<Rightarrow> int \<Rightarrow> 'w \<Rightarrow> (int \<times> errno) \<times> 'w"
  sys_setsockopt :: "fd \<Rightarrow> int \<Rightarrow> int \<Rightarrow> int \<Rightarrow> 'w \<Rightarrow> (int \<times> errno) \<times> 'w"
  sys_getsockopt :: "fd \<Rightarrow> int \<Rightarrow> int \<Rightarrow> 'w \<Rightarrow> (int \<times> errno \<times> int) \<times> 'w"
  sys_socket :: "string \<Rightarrow> bool \<Rightarrow> 'w \<Rightarrow> (int \<times> errno) \<times> 'w"
  sys_bind :: "fd \<Rightarrow> sockaddr \<Rightarrow> 'w \<Rightarrow> (int \<times> errno) \<times> 'w"
  sys_connect :: "fd \<Rightarrow> sockaddr \<Rightarrow> 'w \<Rightarrow> (int \<times> errno) \<times> 'w"
  sys_unlink :: "string \<Rightarrow> 'w \<Rightarrow> (int \<times> errno) \<times> 'w"
  sys_getaddrinfo :: "string \<Rightarrow> string \<Rightarrow> 'w \<Rightarrow> (int \<times> errno \<times> nat list) \<times> 'w"
  sys_gethostbyname :: "string \<Rightarrow> 'w \<Rightarrow> byte list option \<times> 'w"

text \<open>
  The part of a thread's view every component shares: the kernel state and the thread's
  \<^verbatim>\<open>errno\<close>, which a call writes only when it fails.
\<close>

record 'w os =
  kern :: 'w
  errno :: errno

definition syscall ::
  "('w \<Rightarrow> (int \<times> errno) \<times> 'w) \<Rightarrow> ('w, 'z) os_scheme \<Rightarrow> int \<times> ('w, 'z) os_scheme" where
  "syscall f s = (case f (kern s) of ((c, e), w) \<Rightarrow>
     (c, s\<lparr>kern := w, errno := (if c = -1 then e else errno s)\<rparr>))"

definition syscall_out ::
  "('w \<Rightarrow> (int \<times> errno \<times> 'a) \<times> 'w) \<Rightarrow> ('w, 'z) os_scheme \<Rightarrow> int \<times> 'a \<times> ('w, 'z) os_scheme" where
  "syscall_out f s = (case f (kern s) of ((c, e, x), w) \<Rightarrow>
     (c, x, s\<lparr>kern := w, errno := (if c = -1 then e else errno s)\<rparr>))"

text \<open>
  The same in terms of projections: a system call changes nothing of a component but these two
  fields, which the record simplifier sees from this form.
\<close>

lemma syscall_eq:
  "syscall f s = (fst (fst (f (kern s))),
     s\<lparr>kern := snd (f (kern s)),
       errno := (if fst (fst (f (kern s))) = -1 then snd (fst (f (kern s))) else errno s)\<rparr>)"
  by (simp add: syscall_def split: prod.splits)

lemma syscall_out_eq:
  "syscall_out f s = (fst (fst (f (kern s))), snd (snd (fst (f (kern s)))),
     s\<lparr>kern := snd (f (kern s)),
       errno := (if fst (fst (f (kern s))) = -1 then fst (snd (fst (f (kern s)))) else errno s)\<rparr>)"
  by (simp add: syscall_out_def split: prod.splits)

lemma syscall_fst: "fst (syscall f s) = fst (fst (f (kern s)))"
  by (simp add: syscall_eq)

lemma syscall_kern: "kern (snd (syscall f s)) = snd (f (kern s))"
  by (simp add: syscall_eq)

lemmas syscall_eqs [nbuss_simps] = syscall_eq syscall_out_eq

section \<open>Documented behaviour\<close>

text \<open>
  \<^verbatim>\<open>write(2)\<close>: it returns \<open>-1\<close>, or the number of bytes taken, at most the number offered. The bytes
  taken are the first ones of the buffer, they are appended to the stream of that descriptor, and
  no other stream changes. \<open>sent w f\<close> is the stream of bytes the kernel has accepted on \<open>f\<close>.
\<close>

locale write_syscall =
  fixes K :: "'w kernel" and sent :: "'w \<Rightarrow> fd \<Rightarrow> byte list"
  assumes write_range: "sys_write K f d w = ((c, e), w') \<Longrightarrow> -1 \<le> c \<and> c \<le> int (length d)"
    and write_sent: "sys_write K f d w = ((c, e), w') \<Longrightarrow>
      sent w' g = (if g = f then sent w f @ take (nat c) d else sent w g)"
begin

abbreviation written :: "fd \<Rightarrow> byte list \<Rightarrow> 'w \<Rightarrow> int" where
  "written f d w \<equiv> fst (fst (sys_write K f d w))"

lemma written_range: "-1 \<le> written f d w" "written f d w \<le> int (length d)"
  using write_range [of f d w] by (cases "sys_write K f d w"; auto)+

lemma sent_write: "sent (snd (sys_write K f d w)) g =
    (if g = f then sent w f @ take (nat (written f d w)) d else sent w g)"
  using write_sent [of f d w] by (cases "sys_write K f d w") auto

end

text \<open>
  \<^verbatim>\<open>read(2)\<close> on a non-blocking descriptor: it returns \<open>-1\<close>, or the number of bytes copied out, at most
  the number asked for. The bytes copied are the next ones of the input stream. \<open>pending w f\<close> is what
  is still to be read on \<open>f\<close>.
\<close>

locale read_syscall =
  fixes K :: "'w kernel" and pending :: "'w \<Rightarrow> fd \<Rightarrow> byte list"
  assumes read_range: "sys_read K f n w = ((c, e, d), w') \<Longrightarrow> -1 \<le> c \<and> c \<le> int n"
    and read_data: "sys_read K f n w = ((c, e, d), w') \<Longrightarrow> 0 \<le> c \<Longrightarrow> length d = nat c"
    and read_pending: "sys_read K f n w = ((c, e, d), w') \<Longrightarrow>
      pending w g = (if g = f then (if 0 \<le> c then d else []) @ pending w' f else pending w' g)"
begin

abbreviation got :: "fd \<Rightarrow> nat \<Rightarrow> 'w \<Rightarrow> int" where
  "got f n w \<equiv> fst (fst (sys_read K f n w))"

abbreviation got_data :: "fd \<Rightarrow> nat \<Rightarrow> 'w \<Rightarrow> byte list" where
  "got_data f n w \<equiv> snd (snd (fst (sys_read K f n w)))"

lemma got_range: "-1 \<le> got f n w" "got f n w \<le> int n"
  using read_range [of f n w] by (cases "sys_read K f n w"; auto)+

lemma length_got_data: "0 \<le> got f n w \<Longrightarrow> length (got_data f n w) = nat (got f n w)"
  using read_data [of f n w] by (cases "sys_read K f n w") auto

lemma pending_read: "pending w g = (if g = f
    then (if 0 \<le> got f n w then got_data f n w else []) @ pending (snd (sys_read K f n w)) f
    else pending (snd (sys_read K f n w)) g)"
  using read_pending [of f n w] by (cases "sys_read K f n w") auto

end

text \<open>
  \<^verbatim>\<open>read(2)\<close> on a connection that has not failed: it returns what is there, up to the size of the buffer,
  and the only error is \<^verbatim>\<open>EAGAIN\<close>.
\<close>

locale available_read = read_syscall K pending
  for K :: "'w kernel" and pending :: "'w \<Rightarrow> fd \<Rightarrow> byte list" +
  assumes available: "sys_read K f n w = ((c, e, d), w') \<Longrightarrow> pending w f \<noteq> [] \<Longrightarrow>
      c = int (min n (length (pending w f)))"
    and would_block: "sys_read K f n w = ((c, e, d), w') \<Longrightarrow> c = -1 \<Longrightarrow> e = EAGAIN"
begin

lemma got_available: "pending w f \<noteq> [] \<Longrightarrow> got f n w = int (min n (length (pending w f)))"
  using available [of f n w] by (cases "sys_read K f n w") auto

lemma got_would_block: "got f n w = -1 \<Longrightarrow> fst (snd (fst (sys_read K f n w))) = EAGAIN"
  using would_block [of f n w] by (cases "sys_read K f n w") auto

end

text \<open>
  \<^verbatim>\<open>close(2)\<close> on Linux releases the descriptor whatever it returns, and no other. \<open>opened w\<close> is the set
  of the descriptors the process has open.
\<close>

locale close_syscall =
  fixes K :: "'w kernel" and opened :: "'w \<Rightarrow> fd set"
  assumes close_opened: "sys_close K f w = ((c, e), w') \<Longrightarrow> opened w' = opened w - {f}"
begin

lemma opened_close: "opened (snd (sys_close K f w)) = opened w - {f}"
  using close_opened [of f w] by (cases "sys_close K f w") auto

end

text \<open>
  The calls that make or use descriptors in \<^verbatim>\<open>listen\<close>: a call opens no descriptor but the one it
  returns, and only numbers that are not negative are descriptors.
\<close>

locale fd_syscalls = close_syscall +
  assumes opened_nonneg: "f \<in> opened w \<Longrightarrow> 0 \<le> f"
    and accept_opened: "sys_accept4 K f w = ((c, e), w') \<Longrightarrow> opened w' \<subseteq> insert c (opened w)"
    and epoll_create_opened: "sys_epoll_create1 K w = ((c, e), w') \<Longrightarrow> opened w' \<subseteq> insert c (opened w)"
    and epoll_ctl_opened: "sys_epoll_ctl K ep op f ev w = ((c, e), w') \<Longrightarrow> opened w' = opened w"
    and listen_opened: "sys_listen K f n w = ((c, e), w') \<Longrightarrow> opened w' = opened w"
begin

lemma opened_accept: "opened (snd (sys_accept4 K f w)) \<subseteq> insert (fst (fst (sys_accept4 K f w))) (opened w)"
  using accept_opened [of f w] by (cases "sys_accept4 K f w") auto

lemma opened_accept_failed:
  "fst (fst (sys_accept4 K f w)) = -1 \<Longrightarrow> opened (snd (sys_accept4 K f w)) \<subseteq> opened w"
  using opened_accept [of f w] opened_nonneg [of "-1" "snd (sys_accept4 K f w)"] by auto

lemma opened_epoll_create:
  "opened (snd (sys_epoll_create1 K w)) \<subseteq> insert (fst (fst (sys_epoll_create1 K w))) (opened w)"
  using epoll_create_opened [of w] by (cases "sys_epoll_create1 K w") auto

lemma opened_same [simp]:
  "opened (snd (sys_epoll_ctl K ep op f ev w)) = opened w"
  "opened (snd (sys_listen K f n w)) = opened w"
  using epoll_ctl_opened [of ep op f ev w] listen_opened [of f n w]
  by (cases "sys_epoll_ctl K ep op f ev w", cases "sys_listen K f n w", auto)+

end

text \<open>The three contracts together, for components that use all of them.\<close>

locale posix_kernel = write_syscall K sent + read_syscall K pending + close_syscall K opened
  for K :: "'w kernel" and sent :: "'w \<Rightarrow> fd \<Rightarrow> byte list"
    and pending :: "'w \<Rightarrow> fd \<Rightarrow> byte list" and opened :: "'w \<Rightarrow> fd set" +
  assumes write_keeps_pending: "sys_write K f d w = (r, w') \<Longrightarrow> pending w' = pending w"
    and read_keeps_sent: "sys_read K f n w = (q, w') \<Longrightarrow> sent w' = sent w"

text \<open>Closing a descriptor takes nothing back that was sent on it.\<close>

locale posix_streams = posix_kernel +
  assumes close_keeps_sent: "sys_close K f w = (r, w') \<Longrightarrow> sent w' = sent w"
begin

lemma sent_close: "sent (snd (sys_close K f w)) = sent w"
  using close_keeps_sent [of f w] by (cases "sys_close K f w") auto

lemma sent_read: "sent (snd (sys_read K f n w)) = sent w"
  using read_keeps_sent [of f n w] by (cases "sys_read K f n w") auto

end

section \<open>A reference kernel\<close>

text \<open>
  Stream sockets with bounded send buffers: \<open>room\<close> is the space left in the send buffer of a
  descriptor, \<open>out\<close> what was accepted on it, \<open>inp\<close> what the peer has sent, \<open>broken\<close> the sockets the
  peer has reset. \<open>conns\<close> counts the connections waiting to be accepted and \<open>busy\<close> the
  \<^verbatim>\<open>bind\<close> calls that will fail because the address is still in use.
\<close>

record sim =
  room :: "fd \<Rightarrow> nat"
  out :: "fd \<Rightarrow> byte list"
  inp :: "fd \<Rightarrow> byte list"
  broken :: "fd set"
  open_fds :: "fd set"
  next_fd :: fd
  conns :: nat
  busy :: nat
  flags :: "fd \<Rightarrow> int"

definition sim_write :: "fd \<Rightarrow> byte list \<Rightarrow> sim \<Rightarrow> (int \<times> errno) \<times> sim" where
  "sim_write f d w =
     (if f \<notin> open_fds w then ((-1, EBADF), w)
      else if f \<in> broken w then ((-1, 104), w)
      else if d \<noteq> [] \<and> room w f = 0 then ((-1, EAGAIN), w)
      else (let n = min (room w f) (length d) in
        ((int n, 0), w\<lparr>room := (room w)(f := room w f - n),
                       out := (out w)(f := out w f @ take n d)\<rparr>)))"

definition sim_read :: "fd \<Rightarrow> nat \<Rightarrow> sim \<Rightarrow> (int \<times> errno \<times> byte list) \<times> sim" where
  "sim_read f n w =
     (if f \<notin> open_fds w then ((-1, EBADF, []), w)
      else if inp w f = [] \<and> f \<in> broken w then ((-1, 104, []), w)
      else if inp w f = [] then ((-1, EAGAIN, []), w)
      else ((int (min n (length (inp w f))), 0, take n (inp w f)),
            w\<lparr>inp := (inp w)(f := drop n (inp w f))\<rparr>))"

definition sim_close :: "fd \<Rightarrow> sim \<Rightarrow> (int \<times> errno) \<times> sim" where
  "sim_close f w =
     ((if f \<in> open_fds w then 0 else -1, EBADF), w\<lparr>open_fds := open_fds w - {f}\<rparr>)"

definition sim_alloc :: "sim \<Rightarrow> (int \<times> errno) \<times> sim" where
  "sim_alloc w = (if next_fd w < 0 then ((-1, 24), w)
     else ((next_fd w, 0), w\<lparr>open_fds := insert (next_fd w) (open_fds w), next_fd := next_fd w + 1\<rparr>))"

definition sim_socket :: "string \<Rightarrow> bool \<Rightarrow> sim \<Rightarrow> (int \<times> errno) \<times> sim" where
  "sim_socket pf nb w =
     (if next_fd w < 0 \<or> next_fd w \<in> open_fds w then ((-1, 24), w)
      else (fst (sim_alloc w), (snd (sim_alloc w))\<lparr>flags := (flags w)(next_fd w := if nb then O_NONBLOCK else 0)\<rparr>))"

definition sim_kernel :: "sim kernel" where
  "sim_kernel = \<lparr>
     sys_read = sim_read, sys_write = sim_write, sys_close = sim_close,
     sys_pipe = (\<lambda>w. ((0, 0, (next_fd w, next_fd w + 1)),
       w\<lparr>open_fds := insert (next_fd w) (insert (next_fd w + 1) (open_fds w)),
         next_fd := next_fd w + 2\<rparr>)),
     sys_listen = (\<lambda>f n w. ((if f \<in> open_fds w then 0 else -1, EBADF), w)),
     sys_accept4 = (\<lambda>f w. case conns w of 0 \<Rightarrow> ((-1, EAGAIN), w)
        | Suc n \<Rightarrow> sim_alloc (w\<lparr>conns := n\<rparr>)),
     sys_epoll_create1 = sim_alloc,
     sys_epoll_ctl = (\<lambda>ep op f ev w. ((if f \<in> open_fds w then 0 else -1, EBADF), w)),
     sys_getfl = (\<lambda>f w. ((if f \<in> open_fds w then flags w f else -1, EBADF), w)),
     sys_setfl = (\<lambda>f x w. ((if f \<in> open_fds w then 0 else -1, EBADF),
        w\<lparr>flags := (flags w)(f := x)\<rparr>)),
     sys_setsockopt = (\<lambda>f lv opt v w. ((if f \<in> open_fds w then 0 else -1, EBADF), w)),
     sys_getsockopt = (\<lambda>f lv opt w. ((if f \<in> open_fds w then 0 else -1, EBADF, 0), w)),
     sys_socket = sim_socket,
     sys_bind = (\<lambda>f a w. case busy w of 0 \<Rightarrow> ((0, 0), w) | Suc n \<Rightarrow> ((-1, 98), w\<lparr>busy := n\<rparr>)),
     sys_connect = (\<lambda>f a w. ((if f \<in> open_fds w then 0 else -1, EBADF), w)),
     sys_unlink = (\<lambda>p w. ((0, 0), w)),
     sys_getaddrinfo = (\<lambda>a p w. ((0, 0, [0, 1]), w)),
     sys_gethostbyname = (\<lambda>h w. (Some [127, 0, 0, 1, 0, 0, 0, 0], w))\<rparr>"

definition sim0 :: sim where
  "sim0 = \<lparr>room = (\<lambda>_. 4), out = (\<lambda>_. []), inp = (\<lambda>_. []), broken = {}, open_fds = {3, 4, 5},
     next_fd = 6, conns = 1, busy = 0, flags = (\<lambda>_. 0)\<rparr>"

lemma sim_calls:
  "sys_read sim_kernel = sim_read"
  "sys_write sim_kernel = sim_write"
  "sys_close sim_kernel = sim_close"
  "sys_pipe sim_kernel = (\<lambda>w. ((0, 0, (next_fd w, next_fd w + 1)), w\<lparr>open_fds := insert (next_fd w) (insert (next_fd w + 1) (open_fds w)), next_fd := next_fd w + 2\<rparr>))"
  "sys_listen sim_kernel = (\<lambda>f n w. ((if f \<in> open_fds w then 0 else -1, EBADF), w))"
  "sys_accept4 sim_kernel = (\<lambda>f w. case conns w of 0 \<Rightarrow> ((-1, EAGAIN), w) | Suc n \<Rightarrow> sim_alloc (w\<lparr>conns := n\<rparr>))"
  "sys_epoll_create1 sim_kernel = sim_alloc"
  "sys_epoll_ctl sim_kernel = (\<lambda>ep op f ev w. ((if f \<in> open_fds w then 0 else -1, EBADF), w))"
  "sys_getfl sim_kernel = (\<lambda>f w. ((if f \<in> open_fds w then flags w f else -1, EBADF), w))"
  "sys_setfl sim_kernel = (\<lambda>f x w. ((if f \<in> open_fds w then 0 else -1, EBADF), w\<lparr>flags := (flags w)(f := x)\<rparr>))"
  "sys_setsockopt sim_kernel = (\<lambda>f lv opt v w. ((if f \<in> open_fds w then 0 else -1, EBADF), w))"
  "sys_getsockopt sim_kernel = (\<lambda>f lv opt w. ((if f \<in> open_fds w then 0 else -1, EBADF, 0), w))"
  "sys_socket sim_kernel = sim_socket"
  "sys_bind sim_kernel = (\<lambda>f a w. case busy w of 0 \<Rightarrow> ((0, 0), w) | Suc n \<Rightarrow> ((-1, 98), w\<lparr>busy := n\<rparr>))"
  "sys_connect sim_kernel = (\<lambda>f a w. ((if f \<in> open_fds w then 0 else -1, EBADF), w))"
  "sys_unlink sim_kernel = (\<lambda>p w. ((0, 0), w))"
  "sys_getaddrinfo sim_kernel = (\<lambda>a p w. ((0, 0, [0, 1]), w))"
  "sys_gethostbyname sim_kernel = (\<lambda>h w. (Some [127, 0, 0, 1, 0, 0, 0, 0], w))"
  by (simp_all add: sim_kernel_def)

lemmas sim_defs = sim_calls sim_write_def sim_read_def sim_close_def sim_alloc_def sim_socket_def
  sim0_def Let_def

interpretation sim: posix_streams sim_kernel out inp open_fds
  by unfold_locales
    (auto simp: sim_kernel_def sim_write_def sim_read_def sim_close_def Let_def min_def
      split: if_splits)

text \<open>A kernel that takes every write whole and whose reads fail only for lack of data.\<close>

definition echo_kernel :: "sim kernel" where
  "echo_kernel = sim_kernel\<lparr>sys_write := (\<lambda>f d w. ((int (length d), 0), w\<lparr>out := (out w)(f := out w f @ d)\<rparr>)),
     sys_read := (\<lambda>f n w. if inp w f = [] then ((-1, EAGAIN, []), w)
       else ((int (min n (length (inp w f))), 0, take n (inp w f)), w\<lparr>inp := (inp w)(f := drop n (inp w f))\<rparr>))\<rparr>"

interpretation echo: posix_streams echo_kernel out inp open_fds
  by unfold_locales
    (auto simp: echo_kernel_def sim_kernel_def sim_close_def min_def split: if_splits)

interpretation echo_avail: available_read echo_kernel inp
  by unfold_locales (auto simp: echo_kernel_def split: if_splits)

definition sim_open :: "sim \<Rightarrow> fd set" where
  "sim_open w = open_fds w \<inter> {0..}"

interpretation sim_fds: fd_syscalls sim_kernel sim_open
  by unfold_locales
    (auto simp: sim_kernel_def sim_close_def sim_alloc_def sim_open_def split: nat.splits if_splits)

lemmas sim_is_kernel =
  sim.write_syscall_axioms sim.read_syscall_axioms sim.close_syscall_axioms sim.posix_kernel_axioms

end
