(* ===== verification/Descriptors.thy ===== *)
theory Descriptors
  imports Posix_Interface
begin

text \<open>
  Models of \<^verbatim>\<open>libnbuss/FileDescriptor.h\<close> (a descriptor that closes itself) and
  \<^verbatim>\<open>libnbuss/UnixPipe.h\<close> (the pipe on which the listening thread is told to stop).
\<close>

section \<open>FileDescriptor\<close>

record file_descriptor =
  fd_name :: string
  fd_no :: fd

definition FileDescriptor_new :: "string \<Rightarrow> file_descriptor" where
  "FileDescriptor_new name = \<lparr>fd_name = name, fd_no = -1\<rparr>"

definition FileDescriptor_close ::
  "'w kernel \<Rightarrow> file_descriptor \<Rightarrow> ('w, 'z) os_scheme \<Rightarrow> int \<times> file_descriptor \<times> ('w, 'z) os_scheme"
where
  "FileDescriptor_close K d s =
     (if fd_no d \<ge> 0 then
        (let (res, s') = syscall (sys_close K (fd_no d)) s in
           (res, if res = -1 then d else d\<lparr>fd_no := -1\<rparr>, s'))
      else (-1, d, s))"

definition FileDescriptor_delete ::
  "'w kernel \<Rightarrow> file_descriptor \<Rightarrow> ('w, 'z) os_scheme \<Rightarrow> ('w, 'z) os_scheme" where
  "FileDescriptor_delete K d s = snd (snd (FileDescriptor_close K d s))"

section \<open>UnixPipe\<close>

record unix_pipe =
  pipe_rd :: fd
  pipe_wr :: fd

definition UnixPipe_new ::
  "'w kernel \<Rightarrow> ('w, 'z) os_scheme \<Rightarrow> unix_pipe \<times> ('w, 'z) os_scheme" where
  "UnixPipe_new K s =
     (let (c, (r, w), s') = syscall_out (sys_pipe K) s in
        (if c = -1 then \<lparr>pipe_rd = -1, pipe_wr = -1\<rparr> else \<lparr>pipe_rd = r, pipe_wr = w\<rparr>, s'))"

definition UnixPipe_delete ::
  "'w kernel \<Rightarrow> unix_pipe \<Rightarrow> ('w, 'z) os_scheme \<Rightarrow> ('w, 'z) os_scheme" where
  "UnixPipe_delete K p s =
     snd (syscall (sys_close K (pipe_wr p)) (snd (syscall (sys_close K (pipe_rd p)) s)))"

definition UnixPipe_write ::
  "'w kernel \<Rightarrow> unix_pipe \<Rightarrow> byte \<Rightarrow> ('w, 'z) os_scheme \<Rightarrow> int \<times> ('w, 'z) os_scheme" where
  "UnixPipe_write K p ch s = syscall (sys_write K (pipe_wr p) [ch]) s"

text \<open>\<open>junk\<close> is the value of the uninitialised \<^verbatim>\<open>char ch\<close>, which is what end of file leaves in it.\<close>

definition UnixPipe_read ::
  "'w kernel \<Rightarrow> byte \<Rightarrow> unix_pipe \<Rightarrow> ('w, 'z) os_scheme \<Rightarrow> int \<times> ('w, 'z) os_scheme" where
  "UnixPipe_read K junk p s =
     (let (c, d, s') = syscall_out (sys_read K (pipe_rd p) 1) s in
        (if c = -1 then c else sint (case d of [] \<Rightarrow> junk | ch # _ \<Rightarrow> ch), s'))"

section \<open>Lemmas\<close>

context close_syscall
begin

lemma FileDescriptor_close_opened:
  "opened (kern (snd (snd (FileDescriptor_close K d s)))) =
     (if fd_no d \<ge> 0 then opened (kern s) - {fd_no d} else opened (kern s))"
  by (simp add: FileDescriptor_close_def nbuss_simps opened_close)

lemma UnixPipe_delete_opened:
  "opened (kern (UnixPipe_delete K p s)) = opened (kern s) - {pipe_rd p, pipe_wr p}"
  by (auto simp: UnixPipe_delete_def nbuss_simps opened_close)

end

text \<open>Closing through a \<^verbatim>\<open>FileDescriptor\<close> twice is harmless: once it is closed it stays so.\<close>

lemma FileDescriptor_close_again:
  assumes "FileDescriptor_close K d s = (0, d', s')"
  shows "FileDescriptor_close K d' s' = (-1, d', s')"
  using assms by (auto simp: FileDescriptor_close_def Let_def split: if_splits prod.splits)

end
