(* ===== verification/IGenericServer.thy ===== *)
theory IGenericServer
  imports Descriptors
begin

text \<open>
  Model of the class \<^verbatim>\<open>IGenericServer\<close> (\<^verbatim>\<open>libnbuss/IGenericServer.h\<close>, \<^verbatim>\<open>libnbuss/IGenericServer.cpp\<close>),
  all of it but \<^verbatim>\<open>listen\<close>, which has a theory of its own. The object is the record \<open>server\<close>; it
  extends \<open>os\<close>, so that every method passes the kernel state and \<^verbatim>\<open>errno\<close> along. The methods are
  defined on \<open>server_scheme\<close>: the classes that hold a reference to a server extend the record, and
  the same definitions serve them. Each critical section of the source is one atomic function.
\<close>

section \<open>Data\<close>

datatype job_type_t = AVAILABLE_FOR_READ | CLOSE_SOCKET | AVAILABLE_FOR_WRITE | NEW_SOCKET
  | AVAILABLE_FOR_READ_AND_WRITE | SOCKET_IS_CLOSED

text \<open>The untyped pointer \<^verbatim>\<open>srv\<close> of an event points at an object of one of three classes.\<close>

datatype srv_class = Is_IGenericServer | Is_ThreadedServer2 | Is_WorkQueue

record listen_event =
  srv :: srv_class
  le_fd :: fd
  job :: job_type_t
  events :: u32

record 'w server = "'w os" +
  listen_sock :: file_descriptor
  epollfd :: file_descriptor
  incoming_conn_fd :: "fd set"
  stop_server :: bool
  is_listening :: bool
  commandPipe :: unix_pipe
  backlog :: nat
  activeConnections :: int
  socketList :: "fd list"
  is_socket_IO :: "fd \<rightharpoonup> bool"
  use_smart_close :: bool

section \<open>Construction and destruction\<close>

text \<open>
  When the body of the constructor throws, the members built before it are destroyed: the pipe is
  closed, the two \<^verbatim>\<open>FileDescriptor\<close>s hold no descriptor yet.
\<close>

definition IGenericServer_new ::
  "'w kernel \<Rightarrow> nat \<Rightarrow> bool \<Rightarrow> 'w os \<Rightarrow> (exn \<times> 'w os) + 'w server" where
  "IGenericServer_new K n smart s =
     (let (p, s1) = UnixPipe_new K s in
      if n = 0 then Inl (Invalid_argument ''backlog must be > 0'', UnixPipe_delete K p s1)
      else Inr \<lparr>kern = kern s1, errno = errno s1,
        listen_sock = FileDescriptor_new ''listen_sock'', epollfd = FileDescriptor_new ''epollfd'',
        incoming_conn_fd = {}, stop_server = False, is_listening = False, commandPipe = p,
        backlog = n, activeConnections = 0, socketList = [], is_socket_IO = Map.empty,
        use_smart_close = smart\<rparr>)"

definition IGenericServer_delete ::
  "'w kernel \<Rightarrow> ('w, 'z) server_scheme \<Rightarrow> ('w, 'z) server_scheme" where
  "IGenericServer_delete K s =
     FileDescriptor_delete K (listen_sock s)
       (FileDescriptor_delete K (epollfd s) (UnixPipe_delete K (commandPipe s) s))"

section \<open>The I/O marks of smart close\<close>

definition set_IO :: "fd \<Rightarrow> ('w, 'z) server_scheme \<Rightarrow> ('w, 'z) server_scheme" where
  "set_IO fd s =
     (if use_smart_close s then s\<lparr>is_socket_IO := (is_socket_IO s)(fd \<mapsto> True)\<rparr> else s)"

definition unset_IO :: "fd \<Rightarrow> ('w, 'z) server_scheme \<Rightarrow> ('w, 'z) server_scheme" where
  "unset_IO fd s =
     (if use_smart_close s then s\<lparr>is_socket_IO := (is_socket_IO s)(fd \<mapsto> False)\<rparr> else s)"

definition is_IO :: "fd \<Rightarrow> ('w, 'z) server_scheme \<Rightarrow> bool \<times> ('w, 'z) server_scheme" where
  "is_IO fd s =
     (if use_smart_close s then
        (let (result, m) = map_at (is_socket_IO s) fd False in (result, s\<lparr>is_socket_IO := m\<rparr>))
      else (True, s))"

section \<open>Reading\<close>

text \<open>
  The contents of a buffer of \<open>n\<close> zero bytes after \<^verbatim>\<open>read(2)\<close> stored \<open>d\<close> in it, resized to \<open>c\<close> bytes.
  A call that fails stores nothing.
\<close>

definition filled :: "nat \<Rightarrow> byte list \<Rightarrow> nat \<Rightarrow> byte list" where
  "filled n d c = take c (d @ replicate (n - length d) 0)"

text \<open>
  The size that the loop of \<^verbatim>\<open>read\<close> passes to \<^verbatim>\<open>read(2)\<close>: the capacity of the buffer is stored in an \<^verbatim>\<open>int\<close>, which the
  call converts to \<^verbatim>\<open>size_t\<close>.
\<close>

definition read_size :: "nat \<Rightarrow> nat" where
  "read_size n = nat (to_int (int n) mod 2 ^ 64)"

text \<open>
  The loop of \<^verbatim>\<open>read\<close>: it goes on for as long as data arrives, so it may not return (\<open>None\<close>). The
  caller's \<^verbatim>\<open>*_errno\<close> is the \<^verbatim>\<open>errno\<close> of the state it returns in.
\<close>

partial_function (option) read_loop ::
  "'w kernel \<Rightarrow> fd \<Rightarrow> nat \<Rightarrow> byte list list \<Rightarrow> ('w, 'z) server_scheme
    \<Rightarrow> (byte list list \<times> ('w, 'z) server_scheme) option" where
  "read_loop K fd n result s =
     (let (c, d, s1) = syscall_out (sys_read K fd (read_size n)) s in
      if c = -1 \<and> (errno s1 = EAGAIN \<or> errno s1 = EWOULDBLOCK) then Some (result, s1)
      else if c = -1 then Some (result @ [filled n [] n], s1)
      else if c = 0 then Some (result, s1)
      else read_loop K fd n (result @ [filled n d (nat c)]) s1)"

declare read_loop.simps [code]

definition IGenericServer_read ::
  "'w kernel \<Rightarrow> fd \<Rightarrow> nat \<Rightarrow> ('w, 'z) server_scheme
    \<Rightarrow> (byte list list \<times> ('w, 'z) server_scheme) option" where
  "IGenericServer_read K fd n s = read_loop K fd n [] (set_IO fd s)"

definition read_one_buffer ::
  "'w kernel \<Rightarrow> fd \<Rightarrow> nat \<Rightarrow> ('w, 'z) server_scheme \<Rightarrow> byte list \<times> ('w, 'z) server_scheme" where
  "read_one_buffer K fd n s =
     (let (c, d, s1) = syscall_out (sys_read K fd n) (set_IO fd s) in
      (if c \<ge> 0 then filled n d (nat c)
       else if c = -1 \<and> (errno s1 = EAGAIN \<or> errno s1 = EWOULDBLOCK) then filled n [] 0
       else if c = -1 then filled n [] 0
       else filled n [] n, s1))"

text \<open>
  \<^verbatim>\<open>read_one_buffer_t<N>\<close>, with \<open>sz\<close> for \<^verbatim>\<open>sizeof(N)\<close> and \<open>dec\<close> for the value an element's bytes
  represent; \<open>chunks sz k d\<close> are the first \<open>k\<close> elements of a buffer. The second component is what
  \<^verbatim>\<open>*bytes_read_p\<close> receives.
\<close>

fun chunks :: "nat \<Rightarrow> nat \<Rightarrow> byte list \<Rightarrow> byte list list" where
  "chunks sz 0 d = []"
| "chunks sz (Suc k) d = take sz d # chunks sz k (drop sz d)"

definition read_one_buffer_t ::
  "nat \<Rightarrow> (byte list \<Rightarrow> 'n) \<Rightarrow> 'w kernel \<Rightarrow> fd \<Rightarrow> nat \<Rightarrow> ('w, 'z) server_scheme
    \<Rightarrow> 'n list \<times> int \<times> ('w, 'z) server_scheme" where
  "read_one_buffer_t sz dec K fd n s =
     (let (c, d, s1) = syscall_out (sys_read K fd (n * sz)) (set_IO fd s);
          elements = (if c \<ge> 0 then nat c div sz
            else if c = -1 \<and> (errno s1 = EAGAIN \<or> errno s1 = EWOULDBLOCK) then 0
            else if c = -1 then 0 else n)
      in (map dec (chunks sz elements (filled (n * sz) d (n * sz))), c, s1))"

section \<open>Writing\<close>

text \<open>
  The loop of \<^verbatim>\<open>write\<close>: \<open>p\<close> is the part of the buffer not yet written and \<open>k\<close> the distance
  \<^verbatim>\<open>p - data\<close>. It returns the last result of \<^verbatim>\<open>write(2)\<close> and that distance.
\<close>

function write_loop ::
  "'w kernel \<Rightarrow> fd \<Rightarrow> byte list \<Rightarrow> nat \<Rightarrow> ('w, 'z) server_scheme
    \<Rightarrow> int \<times> nat \<times> ('w, 'z) server_scheme" where
  "write_loop K fd p k s =
     (let (c, s1) = syscall (sys_write K fd p) s in
      if c > 0 \<and> c < int (length p) then write_loop K fd (drop (nat c) p) (k + nat c) s1
      else (c, if c > 0 then k + nat c else k, s1))"
  by pat_completeness auto
termination
  by (relation "measure (\<lambda>(K, fd, p, k, s). length p)") auto

declare write_loop.simps [simp del]

text \<open>The second component is what \<^verbatim>\<open>*_errno\<close> receives when the pointer is not null.\<close>

definition IGenericServer_write ::
  "'w kernel \<Rightarrow> fd \<Rightarrow> byte list \<Rightarrow> ('w, 'z) server_scheme
    \<Rightarrow> int \<times> errno \<times> ('w, 'z) server_scheme" where
  "IGenericServer_write K fd data s =
     (if fd = -1 then (-1, -1, s)
      else (let (c, k, s1) = write_loop K fd data 0 (set_IO fd s) in
        if c = -1 \<and> (errno s1 = EAGAIN \<or> errno s1 = EWOULDBLOCK)
        then (if k > 0 then int k else -1, errno s1, s1)
        else if c = -1 then (-1, errno s1, s1)
        else (int k, errno s1, s1)))"

text \<open>\<^verbatim>\<open>write<T>\<close>: \<open>enc\<close> gives the bytes of one element.\<close>

definition IGenericServer_write_vector ::
  "('t \<Rightarrow> byte list) \<Rightarrow> 'w kernel \<Rightarrow> fd \<Rightarrow> 't list \<Rightarrow> ('w, 'z) server_scheme
    \<Rightarrow> int \<times> errno \<times> ('w, 'z) server_scheme" where
  "IGenericServer_write_vector enc K fd data s =
     IGenericServer_write K fd (concat (map enc data)) s"

section \<open>Descriptors\<close>

text \<open>C's logical negation, applied by the source to a flag.\<close>

definition logical_not :: "int \<Rightarrow> int" where
  "logical_not x = (if x = 0 then 1 else 0)"

definition set_fd_non_blocking ::
  "'w kernel \<Rightarrow> fd \<Rightarrow> bool \<Rightarrow> ('w, 'z) os_scheme \<Rightarrow> int \<times> ('w, 'z) os_scheme" where
  "set_fd_non_blocking K fd non_blocking s =
     (let (res, s1) = syscall (sys_getfl K fd) s in
      if res = -1 then (res, s1)
      else syscall (sys_setfl K fd
        (res AND (if non_blocking then O_NONBLOCK else logical_not O_NONBLOCK))) s1)"

definition close_all ::
  "'w kernel \<Rightarrow> fd list \<Rightarrow> ('w, 'z) server_scheme \<Rightarrow> ('w, 'z) server_scheme" where
  "close_all K fds s = fold (\<lambda>f s. snd (syscall (sys_close K f) s)) fds s"

text \<open>
  \<^verbatim>\<open>closeSockets\<close> has four parts: the first and the last are critical sections of two different mutexes, the two in
  the middle hold none, so that other threads can see the states between them.
\<close>

definition closeSockets_connections :: "'w kernel \<Rightarrow> ('w, 'z) server_scheme \<Rightarrow> ('w, 'z) server_scheme" where
  "closeSockets_connections K s =
     (close_all K (sorted_list_of_set (incoming_conn_fd s)) s)\<lparr>incoming_conn_fd := {}\<rparr>"

definition closeSockets_epollfd :: "'w kernel \<Rightarrow> ('w, 'z) server_scheme \<Rightarrow> ('w, 'z) server_scheme" where
  "closeSockets_epollfd K s = (let (r, ep, s1) = FileDescriptor_close K (epollfd s) s in s1\<lparr>epollfd := ep\<rparr>)"

definition closeSockets_listen_sock :: "'w kernel \<Rightarrow> ('w, 'z) server_scheme \<Rightarrow> ('w, 'z) server_scheme" where
  "closeSockets_listen_sock K s = (let (r, ls, s1) = FileDescriptor_close K (listen_sock s) s in s1\<lparr>listen_sock := ls\<rparr>)"

definition closeSockets_flag :: "('w, 'z) server_scheme \<Rightarrow> ('w, 'z) server_scheme" where
  "closeSockets_flag s = s\<lparr>is_listening := False\<rparr>"

definition closeSockets :: "'w kernel \<Rightarrow> ('w, 'z) server_scheme \<Rightarrow> ('w, 'z) server_scheme" where
  "closeSockets K s =
     closeSockets_flag (closeSockets_listen_sock K (closeSockets_epollfd K (closeSockets_connections K s)))"

lemmas closeSockets_defs = closeSockets_def closeSockets_connections_def closeSockets_epollfd_def
  closeSockets_listen_sock_def closeSockets_flag_def

text \<open>
  \<^verbatim>\<open>remove_from_epoll\<close>; \<open>has_errno\<close> says whether the caller passed a pointer for the error number.
  A refused descriptor is reported through that pointer without a test for null.
\<close>

definition remove_from_epoll ::
  "'w kernel \<Rightarrow> fd \<Rightarrow> bool \<Rightarrow> ('w, 'z) server_scheme \<Rightarrow> errno outcome \<times> ('w, 'z) server_scheme" where
  "remove_from_epoll K fd has_errno s =
     (if fd = -1 \<or> fd_no (epollfd s) = -1 \<or> fd = fd_no (epollfd s)
         \<or> fd = pipe_rd (commandPipe s) \<or> fd = fd_no (listen_sock s)
      then (if has_errno then Inr (-1) else Inl (UB ''null _errno''), s)
      else (let (res, s1) = syscall (sys_epoll_ctl K (fd_no (epollfd s)) EPOLL_CTL_DEL fd 0) s
            in (Inr (errno s1), s1)))"

definition IGenericServer_close ::
  "'w kernel \<Rightarrow> fd \<Rightarrow> ('w, 'z) server_scheme \<Rightarrow> ('w, 'z) server_scheme" where
  "IGenericServer_close K fd s =
     (if fd \<ge> 0 then
        (let (res, s1) = syscall (sys_close K fd) s;
             s2 = s1\<lparr>incoming_conn_fd := incoming_conn_fd s1 - {fd}\<rparr>
         in s2\<lparr>activeConnections := activeConnections s2 - 1\<rparr>)
      else s)"

definition get_active_connections :: "('w, 'z) server_scheme \<Rightarrow> int" where
  "get_active_connections s = activeConnections s"

text \<open>
  The two reference parameters of \<^verbatim>\<open>get_buffers_size\<close> are returned; one that was not reached keeps the
  caller's value.
\<close>

definition get_buffers_size ::
  "'w kernel \<Rightarrow> fd \<Rightarrow> int \<Rightarrow> int \<Rightarrow> ('w, 'z) os_scheme \<Rightarrow> int \<times> int \<times> int \<times> ('w, 'z) os_scheme" where
  "get_buffers_size K fd snd0 rcv0 s =
     (let (res, v, s1) = syscall_out (sys_getsockopt K fd SOL_SOCKET SO_SNDBUF) s in
      if res = -1 then (-1, snd0, rcv0, s1)
      else (let (res2, v2, s2) = syscall_out (sys_getsockopt K fd SOL_SOCKET SO_RCVBUF) s1 in
            if res2 = -1 then (-1, v, rcv0, s2) else (0, v, v2, s2)))"

definition set_send_buffer_size ::
  "'w kernel \<Rightarrow> fd \<Rightarrow> int \<Rightarrow> ('w, 'z) os_scheme \<Rightarrow> int \<times> ('w, 'z) os_scheme" where
  "set_send_buffer_size K fd n s =
     (let (res, s1) = syscall (sys_setsockopt K fd SOL_SOCKET SO_SNDBUF n) s in
      (if res = -1 then -1 else 0, s1))"

section \<open>Waiting and termination\<close>

text \<open>
  \<^verbatim>\<open>wait_for_server_ready\<close> returns once \<^verbatim>\<open>is_listening\<close> is set. \<^verbatim>\<open>terminate\<close> waits in its middle; its two
  halves are the code before and after the wait, and the flag says whether it waits at all.
\<close>

definition wait_for_server_ready :: "('w, 'z) server_scheme \<Rightarrow> unit outcome" where
  "wait_for_server_ready s = (if is_listening s then Inr () else Inl Blocked)"

definition terminate_begin ::
  "'w kernel \<Rightarrow> ('w, 'z) server_scheme \<Rightarrow> bool \<times> ('w, 'z) server_scheme" where
  "terminate_begin K s =
     (if \<not> is_listening s then (False, s)
      else (True, snd (UnixPipe_write K (commandPipe s) 0x2E (s\<lparr>stop_server := True\<rparr>))))"

definition terminate_end :: "('w, 'z) server_scheme \<Rightarrow> ('w, 'z) server_scheme" where
  "terminate_end s = s\<lparr>stop_server := False, is_listening := False\<rparr>"

section \<open>Frames\<close>

text \<open>What the methods leave alone. The reading and writing methods touch only the marks of smart
  close, if the server uses it, the kernel and \<^verbatim>\<open>errno\<close>.\<close>

definition io_frame :: "('w, 'z) server_scheme \<Rightarrow> ('w, 'z) server_scheme \<Rightarrow> bool" where
  "io_frame s t \<longleftrightarrow>
     listen_sock t = listen_sock s \<and> epollfd t = epollfd s
     \<and> incoming_conn_fd t = incoming_conn_fd s \<and> stop_server t = stop_server s
     \<and> is_listening t = is_listening s \<and> commandPipe t = commandPipe s
     \<and> backlog t = backlog s \<and> activeConnections t = activeConnections s
     \<and> socketList t = socketList s \<and> use_smart_close t = use_smart_close s
     \<and> (\<not> use_smart_close s \<longrightarrow> is_socket_IO t = is_socket_IO s)
     \<and> server.more t = server.more s"

lemma io_frame_refl [simp, intro]: "io_frame s s"
  by (simp add: io_frame_def)

lemma io_frame_trans [trans]: "io_frame s t \<Longrightarrow> io_frame t u \<Longrightarrow> io_frame s u"
  by (simp add: io_frame_def)

lemma io_frame_syscall [simp]: "io_frame s (snd (syscall f s))"
  by (simp add: io_frame_def nbuss_simps)

lemma io_frame_syscall_out [simp]: "io_frame s (snd (snd (syscall_out f s)))"
  by (simp add: io_frame_def nbuss_simps)

lemma io_frame_set_IO [simp]: "io_frame s (set_IO fd s)"
  by (simp add: io_frame_def set_IO_def)

lemma set_IO_os [simp]: "kern (set_IO fd s) = kern s" "errno (set_IO fd s) = errno s"
  by (simp_all add: set_IO_def)

lemma write_loop_frame: "io_frame s (snd (snd (write_loop K fd p k s)))"
proof (induction K fd p k s rule: write_loop.induct)
  case (1 K fd p k s)
  obtain c s1 where c: "syscall (sys_write K fd p) s = (c, s1)" by (cases "syscall (sys_write K fd p) s")
  have f: "io_frame s s1" using io_frame_syscall [of s "sys_write K fd p"] c by simp
  show ?case
  proof (cases "c > 0 \<and> c < int (length p)")
    case True
    with "1.IH" [OF c [symmetric] refl True] f c show ?thesis
      by (auto simp: write_loop.simps [of K fd p k s] intro: io_frame_trans)
  next
    case False
    with f c show ?thesis by (auto simp: write_loop.simps [of K fd p k s])
  qed
qed

lemma IGenericServer_write_frame: "io_frame s (snd (snd (IGenericServer_write K fd data s)))"
  using io_frame_trans [OF io_frame_set_IO write_loop_frame [of "set_IO fd s" K fd data 0]]
  by (auto simp: IGenericServer_write_def split: prod.splits)

lemma server_more_write [simp]:
  "IGenericServer_write K fd data s = (r, e, s') \<Longrightarrow> server.more s' = server.more s"
  using IGenericServer_write_frame [of s K fd data] by (simp add: io_frame_def)

lemma read_loop_frame:
  assumes "read_loop K fd n result s = Some r"
  shows "io_frame s (snd r)"
proof (rule read_loop.raw_induct [where P = "\<lambda>K fd n result s r. io_frame s (snd r)", OF _ assms])
  fix rec and K' :: "'a kernel" and fd' n' res t r'
  assume ih: "\<And>K fd n res t r. rec K fd n res t = Some r \<Longrightarrow> io_frame t (snd r)"
    and body: "(let (c, d, s1) = syscall_out (sys_read K' fd' (read_size n')) t
      in if c = -1 \<and> (errno s1 = EAGAIN \<or> errno s1 = EWOULDBLOCK) then Some (res, s1)
      else if c = -1 then Some (res @ [filled n' [] n'], s1)
      else if c = 0 then Some (res, s1)
      else rec K' fd' n' (res @ [filled n' d (nat c)]) s1) = Some r'"
  obtain c d s1 where sys: "syscall_out (sys_read K' fd' (read_size n')) t = (c, d, s1)"
    by (cases "syscall_out (sys_read K' fd' (read_size n')) t")
  have f: "io_frame t s1" using io_frame_syscall_out [of t "sys_read K' fd' (read_size n')"] sys by simp
  from body sys have "snd r' = s1 \<or> rec K' fd' n' (res @ [filled n' d (nat c)]) s1 = Some r'"
    by (auto split: if_splits)
  with f ih show "io_frame t (snd r')" by (metis io_frame_trans)
qed

lemma IGenericServer_read_frame:
  "IGenericServer_read K fd n s = Some (bs, s') \<Longrightarrow> io_frame s s'"
  unfolding IGenericServer_read_def
  using read_loop_frame [of K fd n "[]" "set_IO fd s"] io_frame_trans [OF io_frame_set_IO] by fastforce

lemma IGenericServer_read_more:
  "IGenericServer_read K fd n s = Some (bs, s') \<Longrightarrow> server.more s' = server.more s"
  using IGenericServer_read_frame [of K fd n s] by (simp add: io_frame_def)

section \<open>What a write sends\<close>

context write_syscall
begin

lemma write_loop_sent:
  assumes "write_loop K fd p k s = (c, k', s')"
  shows "k \<le> k' \<and> k' \<le> k + length p \<and> -1 \<le> c \<and> (c > 0 \<longrightarrow> k' = k + length p)
    \<and> sent (kern s') fd = sent (kern s) fd @ take (k' - k) p
    \<and> (\<forall>g. g \<noteq> fd \<longrightarrow> sent (kern s') g = sent (kern s) g)"
  using assms
proof (induction "length p" arbitrary: p k s rule: less_induct)
  case less
  let ?c = "written fd p (kern s)"
  obtain s1 where sys: "syscall (sys_write K fd p) s = (?c, s1)"
    and k1: "kern s1 = snd (sys_write K fd p (kern s))" by (simp add: nbuss_simps)
  show ?case
  proof (cases "?c > 0 \<and> ?c < int (length p)")
    case True
    with less.prems sys have rest: "write_loop K fd (drop (nat ?c) p) (k + nat ?c) s1 = (c, k', s')"
      by (simp add: write_loop.simps [of K fd p k s])
    have "length (drop (nat ?c) p) < length p" using True by auto
    note ih = less.hyps [OF this rest]
    have i: "nat ?c \<le> length p" and k: "nat ?c + (k' - (k + nat ?c)) = k' - k"
      using True ih by auto
    have "take (nat ?c) p @ take (k' - (k + nat ?c)) (drop (nat ?c) p) = take (k' - k) p"
      by (simp only: take_append_drop_take [OF i] k)
    with ih True show ?thesis by (auto simp: k1 sent_write)
  next
    case False
    with less.prems sys have "c = ?c" "k' = (if ?c > 0 then k + nat ?c else k)" "s' = s1"
      by (auto simp: write_loop.simps [of K fd p k s])
    with False written_range [of fd p "kern s"] show ?thesis
      by (auto simp: k1 sent_write)
  qed
qed

text \<open>
  The contract a user of \<^verbatim>\<open>write\<close> can rely on: a prefix of the data was accepted; a result that is
  not \<open>-1\<close> is its length, and \<open>-1\<close> with \<^verbatim>\<open>EAGAIN\<close> means that it is empty.
\<close>

lemma IGenericServer_write_sent:
  assumes "IGenericServer_write K fd data s = (r, e, s')"
  shows "\<exists>k \<le> length data. sent (kern s') fd = sent (kern s) fd @ take k data
    \<and> (\<forall>g. g \<noteq> fd \<longrightarrow> sent (kern s') g = sent (kern s) g)
    \<and> (r = int k \<or> r = -1) \<and> (r = -1 \<and> e = EAGAIN \<longrightarrow> k = 0)"
proof (cases "fd = -1")
  case True
  with assms show ?thesis by (auto simp: IGenericServer_write_def intro!: exI [of _ 0])
next
  case False
  obtain c k s1 where l: "write_loop K fd data 0 (set_IO fd s) = (c, k, s1)"
    by (cases "write_loop K fd data 0 (set_IO fd s)")
  from write_loop_sent [OF l] assms False l show ?thesis
    by (auto simp: IGenericServer_write_def errno_defs split: if_splits intro!: exI [of _ k])
qed

end

section \<open>What a read returns\<close>

lemma filled_full: "length d = c \<Longrightarrow> filled n d c = d"
  by (simp add: filled_def)

lemma filled_zero: "filled n [] n = replicate n 0"
  by (simp add: filled_def)

text \<open>Sizes that fit an \<^verbatim>\<open>int\<close> are passed unchanged.\<close>

lemma read_size_id [simp]: "n < 2 ^ 31 \<Longrightarrow> read_size n = n"
  by (simp add: read_size_def to_int_id)

lemma read_loop_small:
  assumes "n < 2 ^ 31"
  shows "read_loop K fd n result s =
     (let (c, d, s1) = syscall_out (sys_read K fd n) s in
      if c = -1 \<and> (errno s1 = EAGAIN \<or> errno s1 = EWOULDBLOCK) then Some (result, s1)
      else if c = -1 then Some (result @ [filled n [] n], s1)
      else if c = 0 then Some (result, s1)
      else read_loop K fd n (result @ [filled n d (nat c)]) s1)"
  unfolding read_loop.simps [of K fd n result s] read_size_id [OF assms] ..

text \<open>
  The call of \<^verbatim>\<open>read(2)\<close> that ends the loop, made in the kernel state \<open>w\<close>: it delivered nothing, and a hard error
  leaves a buffer of zeros.
\<close>

definition last_read ::
  "'w kernel \<Rightarrow> fd \<Rightarrow> nat \<Rightarrow> 'w \<Rightarrow> byte list list \<Rightarrow> ('w, 'z) server_scheme \<Rightarrow> bool" where
  "last_read K fd n w tail s' = (case sys_read K fd n w of ((c, e, d), w') \<Rightarrow>
     kern s' = w' \<and> c \<le> 0 \<and> tail = (if c = -1 \<and> e \<noteq> EAGAIN then [replicate n 0] else [])
     \<and> (c = -1 \<longrightarrow> errno s' = e))"

context read_syscall
begin

abbreviation err :: "fd \<Rightarrow> nat \<Rightarrow> 'w \<Rightarrow> errno" where
  "err f n w \<equiv> fst (snd (fst (sys_read K f n w)))"

text \<open>
  The loop always returns. What it appends is the input in order, cut into non-empty buffers of at
  most \<open>n\<close> bytes, followed by a buffer of zeros when \<^verbatim>\<open>read(2)\<close> fails with anything but \<^verbatim>\<open>EAGAIN\<close>.
\<close>

lemma read_loop_total:
  assumes small: "n < 2 ^ 31"
  shows "\<exists>good tail s'. read_loop K fd n result s = Some (result @ good @ tail, s')
     \<and> pending (kern s) fd = concat good @ pending (kern s') fd
     \<and> (\<forall>g. g \<noteq> fd \<longrightarrow> pending (kern s') g = pending (kern s) g)
     \<and> (\<forall>b \<in> set good. b \<noteq> [] \<and> length b \<le> n)
     \<and> (\<exists>w. last_read K fd n w tail s')
     \<and> io_frame s s'"
proof (induction "length (pending (kern s) fd)" arbitrary: result s rule: less_induct)
  case less
  let ?c = "got fd n (kern s)" and ?d = "got_data fd n (kern s)"
  obtain s1 where sys: "syscall_out (sys_read K fd n) s = (?c, ?d, s1)"
    and k1: "kern s1 = snd (sys_read K fd n (kern s))" by (simp add: nbuss_simps)
  have fr: "io_frame s s1" using io_frame_syscall_out [of s "sys_read K fd n"] sys by simp
  note pend = pending_read [of "kern s" _ fd n, folded k1]
  show ?case
  proof (cases "?c > 0")
    case False
    with got_range(1) [of fd n "kern s"] have c: "?c = -1 \<or> ?c = 0" by linarith
    define tail where "tail = (if ?c = -1 \<and> err fd n (kern s) \<noteq> EAGAIN then [replicate n (0 :: byte)] else [])"
    have e: "?c = -1 \<Longrightarrow> errno s1 = err fd n (kern s)" using sys by (auto simp: syscall_out_eq)
    from c length_got_data [of fd n "kern s"] have "0 \<le> ?c \<Longrightarrow> ?d = []" by auto
    with pend have same: "pending (kern s1) g = pending (kern s) g" for g by (simp split: if_splits)
    have "read_loop K fd n result s = Some (result @ [] @ tail, s1)"
      using c e sys by (auto simp: read_loop_small [OF small, of K fd result s] tail_def filled_zero EWOULDBLOCK_def)
    moreover have "last_read K fd n (kern s) tail s1"
      using c k1 e by (cases "sys_read K fd n (kern s)") (auto simp: last_read_def tail_def)
    ultimately show ?thesis using same fr by (intro exI [of _ "[]"] exI [of _ tail] exI [of _ s1]) auto
  next
    case True
    have d: "length ?d = nat ?c" using True length_got_data [of fd n "kern s"] by simp
    have p: "pending (kern s) fd = ?d @ pending (kern s1) fd"
      using True pend [of fd] by simp
    from True d p have "length (pending (kern s1) fd) < length (pending (kern s) fd)" by simp
    from less [OF this, of "result @ [?d]"]
    obtain good tail s' where ih: "read_loop K fd n (result @ [?d]) s1 =
        Some ((result @ [?d]) @ good @ tail, s')"
      "pending (kern s1) fd = concat good @ pending (kern s') fd"
      "\<forall>g. g \<noteq> fd \<longrightarrow> pending (kern s') g = pending (kern s1) g"
      "\<forall>b \<in> set good. b \<noteq> [] \<and> length b \<le> n"
      "\<exists>w. last_read K fd n w tail s'" "io_frame s1 s'"
      by blast
    have "read_loop K fd n result s = Some (result @ (?d # good) @ tail, s')"
      using ih(1) True sys d by (simp add: read_loop_small [OF small, of K fd result s] filled_full)
    moreover have "pending (kern s) fd = concat (?d # good) @ pending (kern s') fd"
      using p ih(2) by simp
    moreover have "\<forall>g. g \<noteq> fd \<longrightarrow> pending (kern s') g = pending (kern s) g"
      using ih(3) pend by auto
    moreover have "\<forall>b \<in> set (?d # good). b \<noteq> [] \<and> length b \<le> n"
      using ih(4) d True got_range(2) [of fd n "kern s"] by auto
    moreover have "io_frame s s'" using fr ih(6) by (rule io_frame_trans)
    ultimately show ?thesis using ih(5) by blast
  qed
qed

end

context available_read
begin

lemma last_read_all:
  assumes "0 < n" and "last_read K fd n w tail s'"
  shows "pending (kern s') fd = [] \<and> tail = []"
proof -
  obtain c e d w' where sys: "sys_read K fd n w = ((c, e, d), w')" by (metis surj_pair)
  with assms have l: "kern s' = w'" "c \<le> 0" "tail = (if c = -1 \<and> e \<noteq> EAGAIN then [replicate n 0] else [])"
    by (simp_all add: last_read_def)
  from available [OF sys] l(2) assms(1) have "pending w fd = []" by (cases "pending w fd") auto
  with read_pending [OF sys, of fd] would_block [OF sys] l show ?thesis by auto
qed

end

section \<open>Closing\<close>

lemma FileDescriptor_close_frame: "io_frame s (snd (snd (FileDescriptor_close K d s)))"
  by (simp add: FileDescriptor_close_def io_frame_def nbuss_simps)

lemmas FileDescriptor_close_fields [simp] = FileDescriptor_close_frame [unfolded io_frame_def,
  THEN conjunct1] FileDescriptor_close_frame [unfolded io_frame_def, THEN conjunct2]

lemma close_all_fields:
  "io_frame s (close_all K fds s)"
  by (induction fds arbitrary: s)
    (auto simp: close_all_def intro: io_frame_trans [OF io_frame_syscall])

context close_syscall
begin

lemma close_all_opened: "opened (kern (close_all K fds s)) = opened (kern s) - set fds"
  by (induction fds arbitrary: s) (auto simp: close_all_def nbuss_simps opened_close)

lemma closeSockets_opened:
  assumes "finite (incoming_conn_fd s)"
  shows "opened (kern (closeSockets K s)) = opened (kern s) - incoming_conn_fd s
    - (if fd_no (epollfd s) \<ge> 0 then {fd_no (epollfd s)} else {})
    - (if fd_no (listen_sock s) \<ge> 0 then {fd_no (listen_sock s)} else {})"
proof -
  let ?s1 = "close_all K (sorted_list_of_set (incoming_conn_fd s)) s"
  have "opened (kern ?s1) = opened (kern s) - incoming_conn_fd s"
    using assms by (simp add: close_all_opened)
  moreover have "listen_sock ?s1 = listen_sock s" "epollfd ?s1 = epollfd s"
    using close_all_fields [of s K] by (simp_all add: io_frame_def)
  ultimately show ?thesis
    by (simp add: closeSockets_defs case_prod_beta Let_def FileDescriptor_close_opened)
qed

lemma IGenericServer_close_opened:
  "opened (kern (IGenericServer_close K fd s)) =
     (if fd \<ge> 0 then opened (kern s) - {fd} else opened (kern s))"
  by (simp add: IGenericServer_close_def nbuss_simps opened_close)

end

lemma closeSockets_fields [simp]:
  "incoming_conn_fd (closeSockets K s) = {}" "is_listening (closeSockets K s) = False"
  "activeConnections (closeSockets K s) = activeConnections s"
  "stop_server (closeSockets K s) = stop_server s" "server.more (closeSockets K s) = server.more s"
  using close_all_fields [of s K "sorted_list_of_set (incoming_conn_fd s)"]
  by (simp_all add: closeSockets_defs case_prod_beta Let_def io_frame_def)

lemma IGenericServer_close_fields:
  "incoming_conn_fd (IGenericServer_close K fd s) =
     (if fd \<ge> 0 then incoming_conn_fd s - {fd} else incoming_conn_fd s)"
  "activeConnections (IGenericServer_close K fd s) =
     (if fd \<ge> 0 then activeConnections s - 1 else activeConnections s)"
  "is_socket_IO (IGenericServer_close K fd s) = is_socket_IO s"
  "server.more (IGenericServer_close K fd s) = server.more s"
  by (simp_all add: IGenericServer_close_def nbuss_simps)

text \<open>The counter agrees with the set of open connections.\<close>

definition conn_inv :: "('w, 'z) server_scheme \<Rightarrow> bool" where
  "conn_inv s \<longleftrightarrow> finite (incoming_conn_fd s)
     \<and> activeConnections s = int (card (incoming_conn_fd s))
     \<and> (\<forall>f \<in> incoming_conn_fd s. f \<ge> 0)"

lemma conn_inv_io: "io_frame s t \<Longrightarrow> conn_inv s \<Longrightarrow> conn_inv t"
  by (simp add: io_frame_def conn_inv_def)

lemma conn_inv_close:
  assumes "conn_inv s" and "fd \<in> incoming_conn_fd s"
  shows "conn_inv (IGenericServer_close K fd s)"
proof -
  have "Suc (card (incoming_conn_fd s - {fd})) = card (incoming_conn_fd s)"
    using assms by (intro card_Suc_Diff1) (simp_all add: conn_inv_def)
  with assms show ?thesis by (auto simp: conn_inv_def IGenericServer_close_fields)
qed

section \<open>Properties\<close>

text \<open>
  C7. \<^verbatim>\<open>IGenericServer::write\<close> sends a prefix of its data and nothing else, on that descriptor only; a
  result other than \<open>-1\<close> is the number of bytes sent, and \<open>-1\<close> with \<^verbatim>\<open>EAGAIN\<close> means that none was.
\<close>

theorem IGenericServer_write_prefix:
  assumes "write_syscall K sent" and "IGenericServer_write K fd data s = (r, e, s')"
  shows "\<exists>k \<le> length data. sent (kern s') fd = sent (kern s) fd @ take k data
    \<and> (\<forall>g. g \<noteq> fd \<longrightarrow> sent (kern s') g = sent (kern s) g)
    \<and> (r = int k \<or> r = -1) \<and> (r = -1 \<and> e = EAGAIN \<longrightarrow> k = 0)"
  using assms by (rule write_syscall.IGenericServer_write_sent)

text \<open>A server over the reference kernel, for the examples.\<close>

definition demo_server :: "sim server" where
  "demo_server = \<lparr>kern = sim0, errno = 0,
     listen_sock = \<lparr>fd_name = ''listen_sock'', fd_no = 3\<rparr>,
     epollfd = \<lparr>fd_name = ''epollfd'', fd_no = 4\<rparr>, incoming_conn_fd = {5}, stop_server = False,
     is_listening = True, commandPipe = \<lparr>pipe_rd = 1, pipe_wr = 2\<rparr>, backlog = 10,
     activeConnections = 1, socketList = [], is_socket_IO = Map.empty, use_smart_close = True\<rparr>"

lemmas demo_eval = demo_server_def sim_defs errno_defs nbuss_simps

definition demo_written :: "sim server" where
  "demo_written = demo_server\<lparr>errno := EAGAIN, is_socket_IO := [5 \<mapsto> True],
     kern := sim0\<lparr>room := (room sim0)(5 := 0), out := (out sim0)(5 := [1, 2, 3, 4])\<rparr>\<rparr>"

lemma demo_write:
  "IGenericServer_write sim_kernel 5 [1, 2, 3, 4, 5, 6] demo_server = (4, EAGAIN, demo_written)"
  by (simp add: IGenericServer_write_def write_loop.simps demo_eval demo_written_def set_IO_def
      fun_eq_iff)

theorem IGenericServer_write_prefix_witness:
  "write_syscall sim_kernel out
   \<and> IGenericServer_write sim_kernel 5 [1, 2, 3, 4, 5, 6] demo_server = (4, EAGAIN, demo_written)
   \<and> (\<exists>k \<le> length [1, 2, 3, 4, 5, 6 :: byte].
     out (kern demo_written) 5 = out (kern demo_server) 5 @ take k [1, 2, 3, 4, 5, 6])"
  using sim_is_kernel(1) demo_write IGenericServer_write_prefix [OF sim_is_kernel(1) demo_write]
  by blast

text \<open>
  A failure that is not \<^verbatim>\<open>EAGAIN\<close> after a partial write makes \<^verbatim>\<open>IGenericServer::write\<close> return \<open>-1\<close>
  although the kernel has accepted the first part of the data: the caller cannot tell how much.
\<close>

lemma IGenericServer_write_error_after_partial:
  assumes "fd \<noteq> -1"
    and "sys_write K fd data (kern s) = ((c, e1), w1)" and "0 < c" and "c < int (length data)"
    and "sys_write K fd (drop (nat c) data) w1 = ((-1, e), w2)" and "e \<noteq> EAGAIN"
  shows "\<exists>s'. IGenericServer_write K fd data s = (-1, e, s') \<and> kern s' = w2"
  using assms
  by (simp add: IGenericServer_write_def write_loop.simps [of K fd data]
      write_loop.simps [of K fd "drop (nat c) data"] syscall_def EWOULDBLOCK_def)

definition reset_kernel :: "sim kernel" where
  "reset_kernel = sim_kernel\<lparr>sys_write := (\<lambda>f d w.
     if room w f = 0 then ((-1, 104), w) else sim_write f d w)\<rparr>"

lemma IGenericServer_write_error_after_partial_witness:
  "\<exists>s'. IGenericServer_write reset_kernel 5 [1, 2, 3, 4, 5, 6] demo_server = (-1, 104, s')
     \<and> kern s' = kern demo_written"
proof -
  have "sys_write reset_kernel 5 [1, 2, 3, 4, 5, 6] (kern demo_server) = ((4, 0), kern demo_written)"
    by (simp add: reset_kernel_def demo_eval demo_written_def)
  moreover have "sys_write reset_kernel 5 (drop (nat 4) [1, 2, 3, 4, 5, 6]) (kern demo_written) =
      ((-1, 104), kern demo_written)"
    by (simp add: reset_kernel_def demo_eval demo_written_def)
  ultimately show ?thesis
    using IGenericServer_write_error_after_partial [of 5 reset_kernel "[1, 2, 3, 4, 5, 6]" demo_server
        4 0 "kern demo_written" 104 "kern demo_written"]
    by (simp add: EAGAIN_def)
qed

text \<open>
  C6. \<^verbatim>\<open>IGenericServer::read\<close> with a buffer size that fits an \<^verbatim>\<open>int\<close> returns for every kernel whose input is finite. Its
  buffers are the input of the socket, in order: non-empty buffers of at most \<^verbatim>\<open>buffer_size\<close> bytes whose concatenation
  is exactly what left the socket, and the loop is left only by a \<^verbatim>\<open>read(2)\<close> that delivered nothing: \<^verbatim>\<open>EAGAIN\<close>, the end of
  the input, or a hard error, after which there is one more buffer, of \<^verbatim>\<open>buffer_size\<close> zero bytes. So, on a connection
  where \<^verbatim>\<open>read(2)\<close> delivers what is there and fails with \<^verbatim>\<open>EAGAIN\<close> only, all the input is returned and nothing else.
\<close>

theorem IGenericServer_read_total:
  assumes "read_syscall K pending" and "n < 2 ^ 31"
  shows "\<exists>good tail s' w. IGenericServer_read K fd n s = Some (good @ tail, s')
     \<and> pending (kern s) fd = concat good @ pending (kern s') fd
     \<and> (\<forall>g. g \<noteq> fd \<longrightarrow> pending (kern s') g = pending (kern s) g)
     \<and> (\<forall>b \<in> set good. b \<noteq> [] \<and> length b \<le> n)
     \<and> last_read K fd n w tail s'
     \<and> (available_read K pending \<and> 0 < n \<longrightarrow> concat good = pending (kern s) fd \<and> tail = [])"
proof -
  from read_syscall.read_loop_total [OF assms, of fd "[]" "set_IO fd s"] obtain good tail s' w where
    r: "IGenericServer_read K fd n s = Some (good @ tail, s')"
      "pending (kern s) fd = concat good @ pending (kern s') fd"
      "\<forall>g. g \<noteq> fd \<longrightarrow> pending (kern s') g = pending (kern s) g"
      "\<forall>b \<in> set good. b \<noteq> [] \<and> length b \<le> n" "last_read K fd n w tail s'"
    unfolding IGenericServer_read_def append_Nil set_IO_os by blast
  have "pending (kern s') fd = [] \<and> tail = []" if "available_read K pending" "0 < n"
    by (rule available_read.last_read_all [OF that r(5)])
  with r show ?thesis by (intro exI [of _ good] exI [of _ tail] exI [of _ s'] exI [of _ w]) auto
qed

theorem IGenericServer_read_total_witness:
  "read_syscall echo_kernel inp \<and> available_read echo_kernel inp
   \<and> (\<exists>good s'. IGenericServer_read echo_kernel 5 2
        (demo_server\<lparr>kern := sim0\<lparr>inp := (\<lambda>_. [7, 8, 9])\<rparr>\<rparr>) = Some (good, s') \<and> concat good = [7, 8, 9])"
proof -
  let ?s = "demo_server\<lparr>kern := sim0\<lparr>inp := (\<lambda>_. [7, 8, 9])\<rparr>\<rparr>"
  have n: "inp (kern ?s) 5 = [7, 8, 9]" "(2::nat) < 2 ^ 31" "0 < (2::nat)" by simp_all
  note a = echo_avail.available_read_axioms available_read.axioms(1) [OF echo_avail.available_read_axioms]
  from IGenericServer_read_total [OF a(2) n(2), of 5 ?s] a(1) n(1,3) obtain good s' where
    "IGenericServer_read echo_kernel 5 2 ?s = Some (good, s')" "concat good = [7, 8, 9]" by auto
  with a show ?thesis by blast
qed

text \<open>
  When the first \<^verbatim>\<open>read(2)\<close> fails with an error other than \<^verbatim>\<open>EAGAIN\<close>, \<^verbatim>\<open>IGenericServer::read\<close> returns
  one buffer of \<^verbatim>\<open>buffer_size\<close> zero bytes that nobody sent, where the would-block case returns none.
\<close>

lemma IGenericServer_read_error_buffer:
  assumes "sys_read K fd n (kern s) = ((-1, e, d), w)" and "n < 2 ^ 31"
  shows "IGenericServer_read K fd n s =
    Some (if e = EAGAIN then [] else [replicate n 0], (set_IO fd s)\<lparr>kern := w, errno := e\<rparr>)"
  using assms
  by (simp add: IGenericServer_read_def read_loop_small [of n K fd] syscall_out_def filled_zero
      EWOULDBLOCK_def)

lemma IGenericServer_read_error_buffer_witness:
  "sys_read sim_kernel 5 3 (sim0\<lparr>broken := {5}\<rparr>) = ((-1, 104, []), sim0\<lparr>broken := {5}\<rparr>)
   \<and> fst (the (IGenericServer_read sim_kernel 5 3 (demo_server\<lparr>kern := sim0\<lparr>broken := {5}\<rparr>\<rparr>))) =
       [[0, 0, 0]]"
proof -
  have h: "sys_read sim_kernel 5 3 (kern (demo_server\<lparr>kern := sim0\<lparr>broken := {5}\<rparr>\<rparr>)) =
      ((-1, 104, []), sim0\<lparr>broken := {5}\<rparr>)"
    by (simp add: sim_defs)
  then show ?thesis
    using IGenericServer_read_error_buffer [OF h] by (simp add: EAGAIN_def numeral_3_eq_3)
qed

text \<open>
  A buffer size that does not fit an \<^verbatim>\<open>int\<close> is not the size that \<^verbatim>\<open>read(2)\<close> gets. With buffers of 4 GiB it asks for
  nothing, takes the answer for the end of the input, and returns no buffer whatever there is to read.
\<close>

lemma read_size_wraps: "read_size (2 ^ 32) = 0"
proof -
  have "(word_of_int (2 ^ 32) :: 32 word) = 0" by (simp add: of_int_eq_0_iff)
  then have "to_int (int (2 ^ 32)) = 0" by (simp only: to_int_def of_nat_power of_nat_numeral) simp
  then show ?thesis unfolding read_size_def by (simp only: mod_0 nat_0)
qed

lemma IGenericServer_read_wrapped:
  assumes "sys_read K fd 0 (kern s) = ((0, e, d), w)"
  shows "IGenericServer_read K fd (2 ^ 32) s = Some ([], (set_IO fd s)\<lparr>kern := w\<rparr>)"
proof -
  have "read_size n = 0 \<Longrightarrow> IGenericServer_read K fd n s = Some ([], (set_IO fd s)\<lparr>kern := w\<rparr>)" for n
    using assms unfolding IGenericServer_read_def
    by (subst read_loop.simps) (simp add: syscall_out_def)
  from this [OF read_size_wraps] show ?thesis .
qed

text \<open>
  \<^verbatim>\<open>set_fd_non_blocking\<close> stores the old flags masked with the flag it should set: asked for
  non-blocking mode on a descriptor that is in blocking mode, it leaves it in blocking mode; and in
  either direction it drops every other status flag of the descriptor.
\<close>

lemma set_fd_non_blocking_cannot_set:
  assumes "sys_getfl K fd (kern s) = ((fl, e), w)" and "fl \<noteq> -1" and "fl AND O_NONBLOCK = 0"
  shows "set_fd_non_blocking K fd nb s = syscall (sys_setfl K fd 0) (s\<lparr>kern := w\<rparr>)"
  using assms
  by (simp add: set_fd_non_blocking_def syscall_def logical_not_def O_NONBLOCK_def)

lemma set_fd_non_blocking_cannot_set_witness:
  "sys_getfl sim_kernel 5 (kern demo_server) = ((0, EBADF), sim0) \<and> (0 :: int) AND O_NONBLOCK = 0
   \<and> flags (kern (snd (set_fd_non_blocking sim_kernel 5 True demo_server))) 5 = 0"
proof -
  have h: "sys_getfl sim_kernel 5 (kern demo_server) = ((0, EBADF), sim0)"
    by (simp add: demo_eval)
  have "set_fd_non_blocking sim_kernel 5 True demo_server =
      syscall (sys_setfl sim_kernel 5 0) (demo_server\<lparr>kern := sim0\<rparr>)"
    by (rule set_fd_non_blocking_cannot_set [OF h]) simp_all
  with h show ?thesis by (simp add: nbuss_simps sim_calls sim0_def)
qed

text \<open>
  The connection counter: closing a connection of the server keeps \<^verbatim>\<open>activeConnections\<close> equal to the
  number of connections in \<^verbatim>\<open>incoming_conn_fd\<close>, and closes that descriptor and no other.
\<close>

lemma IGenericServer_close_counts:
  assumes "close_syscall K opened" and "conn_inv s" and "fd \<in> incoming_conn_fd s"
  shows "conn_inv (IGenericServer_close K fd s)
    \<and> incoming_conn_fd (IGenericServer_close K fd s) = incoming_conn_fd s - {fd}
    \<and> opened (kern (IGenericServer_close K fd s)) = opened (kern s) - {fd}"
proof -
  have "fd \<ge> 0" using assms(2,3) by (simp add: conn_inv_def)
  with conn_inv_close [OF assms(2,3)] close_syscall.IGenericServer_close_opened [OF assms(1), of fd s]
  show ?thesis by (simp add: IGenericServer_close_fields)
qed

lemma demo_conn_inv: "conn_inv demo_server"
  by (simp add: conn_inv_def demo_server_def)

lemma IGenericServer_close_counts_witness:
  "close_syscall sim_kernel open_fds \<and> conn_inv demo_server \<and> 5 \<in> incoming_conn_fd demo_server
   \<and> conn_inv (IGenericServer_close sim_kernel 5 demo_server)
   \<and> open_fds (kern (IGenericServer_close sim_kernel 5 demo_server)) = {3, 4}"
proof -
  have m: "5 \<in> incoming_conn_fd demo_server" by (simp add: demo_server_def)
  have "open_fds (kern demo_server) - {5} = {3, 4}" by (auto simp: demo_server_def sim0_def)
  with IGenericServer_close_counts [OF sim_is_kernel(3) demo_conn_inv m] sim_is_kernel(3)
    demo_conn_inv m show ?thesis by simp
qed

text \<open>
  Closing the same descriptor twice is not detected: the counter goes down a second time, so from a
  consistent state with one connection it becomes negative.
\<close>

lemma IGenericServer_double_close:
  assumes "conn_inv s" and "incoming_conn_fd s = {fd}"
  shows "get_active_connections (IGenericServer_close K fd (IGenericServer_close K fd s)) = -1"
  using assms by (simp add: conn_inv_def get_active_connections_def IGenericServer_close_fields)

lemma IGenericServer_double_close_witness:
  "get_active_connections
     (IGenericServer_close sim_kernel 5 (IGenericServer_close sim_kernel 5 demo_server)) = -1"
proof -
  have "incoming_conn_fd demo_server = {5}" by (simp add: demo_server_def)
  from IGenericServer_double_close [OF demo_conn_inv this] show ?thesis .
qed

text \<open>
  \<^verbatim>\<open>remove_from_epoll\<close> without an error pointer dereferences the null pointer exactly when the descriptor
  is refused, for instance always once the server has closed its epoll descriptor.
\<close>

lemma remove_from_epoll_null:
  "fst (remove_from_epoll K fd False s) = Inl (UB ''null _errno'') \<longleftrightarrow>
     fd = -1 \<or> fd_no (epollfd s) = -1 \<or> fd = fd_no (epollfd s)
     \<or> fd = pipe_rd (commandPipe s) \<or> fd = fd_no (listen_sock s)"
  by (simp add: remove_from_epoll_def case_prod_beta Let_def)

end
