(* ===== verification/Listen.thy ===== *)
theory Listen
  imports IGenericServer
begin

text \<open>
  Model of \<^verbatim>\<open>IGenericServer::listen\<close>: the set-up of the epoll instance, the dispatch of one event, the loop
  over the events of one wake-up, the outer loop, and the clean-up that runs when the function is
  left by a return or an exception. The callback is a parameter: it gets the event and the whole
  state, since the callbacks of the library and of its users call back into the server, and it may
  end abruptly. \<^verbatim>\<open>epoll_wait\<close> blocks, and other threads run meanwhile; the parameter \<open>wait\<close> stands for
  the call together with what they do to the shared state before it returns.
\<close>

section \<open>Definitions\<close>

definition MAX_EVENTS :: nat where "MAX_EVENTS = 32"

record epoll_event =
  ev_fd :: fd
  ev_events :: u32

abbreviation has :: "u32 \<Rightarrow> u32 \<Rightarrow> bool" where
  "has evs flag \<equiv> evs AND flag \<noteq> 0"

type_synonym ('w, 'z) callback =
  "listen_event \<Rightarrow> ('w, 'z) server_scheme \<Rightarrow> abrupt option \<times> ('w, 'z) server_scheme"

definition interpret_event :: "u32 \<Rightarrow> string" where
  "interpret_event event =
     (if has event EPOLLIN then ''EPOLLIN '' else '''')
   @ (if has event EPOLLOUT then ''EPOLLOUT '' else '''')
   @ (if has event EPOLLRDHUP then ''EPOLLRDHUP '' else '''')
   @ (if has event EPOLLHUP then ''EPOLLHUP '' else '''')
   @ (if has event EPOLLERR then ''EPOLLERR '' else '''')
   @ (if has event EPOLLPRI then ''EPOLLPRI '' else '''')"

text \<open>The part of \<^verbatim>\<open>listen\<close> before its loop. The first test stands before the clean-up is armed.\<close>

definition listen_setup ::
  "'w kernel \<Rightarrow> ('w, 'z) server_scheme \<Rightarrow> exn option \<times> ('w, 'z) server_scheme" where
  "listen_setup K s0 =
     (let s = s0\<lparr>incoming_conn_fd := {}\<rparr>;
          (r1, s1) = syscall (sys_listen K (fd_no (listen_sock s)) (backlog s)) s in
      if r1 = -1 then
        (Some (Runtime_error ''[IGenericServer] error returned by listen syscall''), s1)
      else let (ep, s2) = syscall (sys_epoll_create1 K) s1;
               s3 = s2\<lparr>epollfd := (epollfd s2)\<lparr>fd_no := ep\<rparr>\<rparr> in
      if ep = -1 then (Some (Runtime_error ''epoll_create1 error''), s3)
      else let (r4, s4) = syscall (sys_epoll_ctl K ep EPOLL_CTL_ADD
                 (pipe_rd (commandPipe s3)) EPOLLIN) s3 in
      if r4 = -1 then (Some (Runtime_error ''epoll_ctl error''), s4)
      else let (r5, s5) = syscall (sys_epoll_ctl K ep EPOLL_CTL_ADD
                 (fd_no (listen_sock s4)) EPOLLIN) s4 in
      if r5 = -1 then (Some (Runtime_error ''epoll_ctl error''), s5)
      else (None, s5\<lparr>is_listening := True\<rparr>))"

text \<open>An event on the listening socket: accept one connection and register it.\<close>

definition accept_event ::
  "'w kernel \<Rightarrow> ('w, 'z) callback \<Rightarrow> epoll_event \<Rightarrow> ('w, 'z) server_scheme
    \<Rightarrow> abrupt option \<times> ('w, 'z) server_scheme" where
  "accept_event K callback ev s =
     (let fd = ev_fd ev in
      if has (ev_events ev) EPOLLIN then
        (let (conn, s1) = syscall (sys_accept4 K (fd_no (listen_sock s))) s in
         if conn = -1 \<and> (errno s1 = EAGAIN \<or> errno s1 = EWOULDBLOCK) then (None, s1)
         else if conn = -1 then (Some (Throw (Runtime_error ''accept error'')), s1)
         else let s2 = s1\<lparr>incoming_conn_fd := insert conn (incoming_conn_fd s1)\<rparr>;
                  (r3, s3) = syscall (sys_epoll_ctl K (fd_no (epollfd s2)) EPOLL_CTL_ADD conn
                     (EPOLLIN OR EPOLLET OR EPOLLHUP OR EPOLLRDHUP OR EPOLLOUT)) s2 in
         if r3 = -1 then (Some (Throw (Runtime_error ''epoll_ctl error'')), s3)
         else let s4 = s3\<lparr>activeConnections := activeConnections s3 + 1\<rparr>;
                  s5 = unset_IO fd s4 in
         callback \<lparr>srv = Is_IGenericServer, le_fd = conn, job = NEW_SOCKET, events = 0\<rparr> s5)
      else (None, s))"

text \<open>An event on any other descriptor.\<close>

definition socket_event ::
  "'w kernel \<Rightarrow> ('w, 'z) callback \<Rightarrow> epoll_event \<Rightarrow> ('w, 'z) server_scheme
    \<Rightarrow> abrupt option \<times> ('w, 'z) server_scheme" where
  "socket_event K callback ev s =
     (let fd = ev_fd ev; evs = ev_events ev;
          send = (\<lambda>j. callback \<lparr>srv = Is_IGenericServer, le_fd = fd, job = j, events = evs\<rparr>) in
      if has evs EPOLLRDHUP \<or> has evs EPOLLHUP then
        (if use_smart_close s then
           (let (io, s1) = is_IO fd s in
            if \<not> io then send SOCKET_IS_CLOSED (IGenericServer_close K fd s1)
            else send CLOSE_SOCKET s1)
         else send CLOSE_SOCKET s)
      else if has evs EPOLLERR then send CLOSE_SOCKET s
      else if has evs EPOLLIN \<and> has evs EPOLLOUT then send AVAILABLE_FOR_READ_AND_WRITE s
      else if has evs EPOLLOUT then send AVAILABLE_FOR_WRITE s
      else if has evs EPOLLIN then send AVAILABLE_FOR_READ s
      else (None, s))"

definition handle_event ::
  "'w kernel \<Rightarrow> ('w, 'z) callback \<Rightarrow> epoll_event \<Rightarrow> ('w, 'z) server_scheme
    \<Rightarrow> abrupt option \<times> ('w, 'z) server_scheme" where
  "handle_event K callback ev s =
     (if ev_fd ev = fd_no (listen_sock s) then accept_event K callback ev s
      else socket_event K callback ev s)"

fun dispatch_events ::
  "'w kernel \<Rightarrow> ('w, 'z) callback \<Rightarrow> epoll_event list \<Rightarrow> ('w, 'z) server_scheme
    \<Rightarrow> abrupt option \<times> ('w, 'z) server_scheme" where
  "dispatch_events K callback [] s = (None, s)"
| "dispatch_events K callback (ev # evs) s =
     (case handle_event K callback ev s of
        (Some a, s') \<Rightarrow> (Some a, s')
      | (None, s') \<Rightarrow> dispatch_events K callback evs s')"

text \<open>
  The loop. \<open>wait\<close> gives the result of \<^verbatim>\<open>epoll_wait\<close> with the events it stored; its \<^verbatim>\<open>errno\<close> is that of the
  state. A loop that is never told to stop does not return.
\<close>

partial_function (option) listen_loop ::
  "'w kernel \<Rightarrow> ('w, 'z) callback
    \<Rightarrow> (('w, 'z) server_scheme \<Rightarrow> int \<times> epoll_event list \<times> ('w, 'z) server_scheme)
    \<Rightarrow> ('w, 'z) server_scheme \<Rightarrow> (abrupt option \<times> ('w, 'z) server_scheme) option" where
  "listen_loop K callback wait s =
     (if stop_server s then Some (None, s)
      else let (nfds, evs, s1) = wait s in
      if stop_server s1 then Some (None, s1)
      else if nfds = -1 \<and> errno s1 = EINTR then listen_loop K callback wait s1
      else if nfds = -1 then Some (Some (Throw (Runtime_error ''epoll_wait error'')), s1)
      else case dispatch_events K callback (take (nat nfds) evs) s1 of
             (Some a, s2) \<Rightarrow> Some (Some a, s2)
           | (None, s2) \<Rightarrow> listen_loop K callback wait s2)"

declare listen_loop.simps [code]

text \<open>
  \<^verbatim>\<open>RunOnReturn\<close>: its destructor runs the clean-up on a return and on an exception. After undefined
  behaviour nothing is promised, and a blocked thread does not leave the function.
\<close>

definition run_on_return ::
  "'w kernel \<Rightarrow> abrupt option \<times> ('w, 'z) server_scheme \<Rightarrow> abrupt option \<times> ('w, 'z) server_scheme" where
  "run_on_return K r = (case r of
      (None, s) \<Rightarrow> (None, closeSockets K s)
    | (Some (Throw e), s) \<Rightarrow> (Some (Throw e), closeSockets K s)
    | (Some a, s) \<Rightarrow> (Some a, s))"

definition IGenericServer_listen ::
  "'w kernel \<Rightarrow> ('w, 'z) callback
    \<Rightarrow> (('w, 'z) server_scheme \<Rightarrow> int \<times> epoll_event list \<times> ('w, 'z) server_scheme)
    \<Rightarrow> ('w, 'z) server_scheme \<Rightarrow> (abrupt option \<times> ('w, 'z) server_scheme) option" where
  "IGenericServer_listen K callback wait s =
     (if fd_no (listen_sock s) = -1
      then Some (Some (Throw (Runtime_error ''server socket is not open'')), s)
      else case listen_setup K s of
          (Some e, s1) \<Rightarrow> Some (run_on_return K (Some (Throw e), s1))
        | (None, s1) \<Rightarrow> map_option (run_on_return K) (listen_loop K callback wait s1))"

section \<open>Which job an event becomes\<close>

text \<open>
  The comment in the source, as a function: hang-ups and errors ask for the socket to be closed, the
  rest says for what the socket is available.
\<close>

definition job_of :: "u32 \<Rightarrow> job_type_t option" where
  "job_of evs =
     (if has evs EPOLLRDHUP \<or> has evs EPOLLHUP \<or> has evs EPOLLERR then Some CLOSE_SOCKET
      else if has evs EPOLLIN \<and> has evs EPOLLOUT then Some AVAILABLE_FOR_READ_AND_WRITE
      else if has evs EPOLLOUT then Some AVAILABLE_FOR_WRITE
      else if has evs EPOLLIN then Some AVAILABLE_FOR_READ else None)"

abbreviation hang_up :: "u32 \<Rightarrow> bool" where
  "hang_up evs \<equiv> has evs EPOLLRDHUP \<or> has evs EPOLLHUP"

text \<open>The server closes a socket by itself when the peer hangs up before any I/O.\<close>

definition smart_closes :: "epoll_event \<Rightarrow> ('w, 'z) server_scheme \<Rightarrow> bool" where
  "smart_closes ev s \<longleftrightarrow>
     hang_up (ev_events ev) \<and> use_smart_close s \<and> is_socket_IO s (ev_fd ev) \<noteq> Some True"

lemma is_IO_marked: "is_socket_IO s fd = Some True \<Longrightarrow> is_IO fd s = (True, s)"
  by (simp add: is_IO_def)

lemma is_IO_unmarked:
  "use_smart_close s \<Longrightarrow> is_socket_IO s fd \<noteq> Some True \<Longrightarrow>
     is_IO fd s = (False, s\<lparr>is_socket_IO := (is_socket_IO s)(fd \<mapsto> False)\<rparr>)"
  by (cases "is_socket_IO s fd") (auto simp: is_IO_def fun_upd_idem)

lemma is_IO_frame: "io_frame s (snd (is_IO fd s))"
  by (simp add: is_IO_def io_frame_def case_prod_beta)

lemma socket_event_job:
  assumes "\<not> smart_closes ev s"
  shows "socket_event K callback ev s = (case job_of (ev_events ev) of
      None \<Rightarrow> (None, s)
    | Some j \<Rightarrow> callback \<lparr>srv = Is_IGenericServer, le_fd = ev_fd ev, job = j,
        events = ev_events ev\<rparr> s)"
  using assms
  by (auto simp: socket_event_def job_of_def smart_closes_def is_IO_marked Let_def)

lemma socket_event_smart_close:
  assumes "smart_closes ev s"
  shows "socket_event K callback ev s =
    callback \<lparr>srv = Is_IGenericServer, le_fd = ev_fd ev, job = SOCKET_IS_CLOSED,
        events = ev_events ev\<rparr>
      (IGenericServer_close K (ev_fd ev)
        (s\<lparr>is_socket_IO := (is_socket_IO s)(ev_fd ev \<mapsto> False)\<rparr>))"
  using assms by (auto simp: socket_event_def smart_closes_def is_IO_unmarked Let_def)

section \<open>The connection counter during dispatch\<close>

text \<open>What the dispatch of one event needs to keep the counter right.\<close>

definition event_ok :: "'w kernel \<Rightarrow> epoll_event \<Rightarrow> ('w, 'z) server_scheme \<Rightarrow> bool" where
  "event_ok K ev s \<longleftrightarrow>
     (if ev_fd ev = fd_no (listen_sock s)
      then (let c = fst (fst (sys_accept4 K (fd_no (listen_sock s)) (kern s))) in
        c = -1 \<or> c \<ge> 0 \<and> c \<notin> incoming_conn_fd s)
      else ev_fd ev \<in> incoming_conn_fd s)"

text \<open>The state in which the callback hears of a new connection.\<close>

lemma accept_event_new:
  assumes "has (ev_events ev) EPOLLIN"
    and "sys_accept4 K (fd_no (listen_sock s)) (kern s) = ((conn, e), w)" and "conn \<noteq> -1"
    and "fst (fst (sys_epoll_ctl K (fd_no (epollfd s)) EPOLL_CTL_ADD conn
          (EPOLLIN OR EPOLLET OR EPOLLHUP OR EPOLLRDHUP OR EPOLLOUT) w)) \<noteq> -1"
  obtains t where "accept_event K callback ev s =
      callback \<lparr>srv = Is_IGenericServer, le_fd = conn, job = NEW_SOCKET, events = 0\<rparr> t"
    and "incoming_conn_fd t = insert conn (incoming_conn_fd s)"
    and "activeConnections t = activeConnections s + 1"
    and "is_socket_IO t = (if use_smart_close s then (is_socket_IO s)(ev_fd ev \<mapsto> False)
          else is_socket_IO s)"
    and "use_smart_close t = use_smart_close s" and "listen_sock t = listen_sock s"
    and "server.more t = server.more s"
proof -
  let ?w = "snd (sys_epoll_ctl K (fd_no (epollfd s)) EPOLL_CTL_ADD conn
          (EPOLLIN OR EPOLLET OR EPOLLHUP OR EPOLLRDHUP OR EPOLLOUT) w)"
  let ?t = "unset_IO (ev_fd ev) (s\<lparr>incoming_conn_fd := insert conn (incoming_conn_fd s), kern := ?w,
      activeConnections := activeConnections s + 1\<rparr>)"
  have "accept_event K callback ev s =
      callback \<lparr>srv = Is_IGenericServer, le_fd = conn, job = NEW_SOCKET, events = 0\<rparr> ?t"
    using assms by (simp add: accept_event_def Let_def syscall_eq)
  from that [OF this] show thesis by (simp add: unset_IO_def)
qed

lemma accept_event_none:
  assumes "fst (fst (sys_accept4 K (fd_no (listen_sock s)) (kern s))) = -1
      \<or> \<not> has (ev_events ev) EPOLLIN"
  shows "io_frame s (snd (accept_event K callback ev s))"
  using assms by (auto simp: accept_event_def Let_def syscall_eq io_frame_def)

text \<open>
  What a callback owes to the counter: when it returns, the counter is right, provided it was right before and the
  event is of a connection of the server or says that the server has closed it. A callback may close the connection
  of its event.
\<close>

locale counting_callback =
  fixes callback :: "('w, 'z) callback"
  assumes callback_counts: "conn_inv t \<Longrightarrow> job le = SOCKET_IS_CLOSED \<or> le_fd le \<in> incoming_conn_fd t \<Longrightarrow>
      callback le t = (None, t') \<Longrightarrow> conn_inv t'"
begin

lemma handle_event_conn_inv:
  assumes inv: "conn_inv s" and ok: "event_ok K ev s" and h: "handle_event K callback ev s = (None, s')"
  shows "conn_inv s'"
proof (cases "ev_fd ev = fd_no (listen_sock s)")
  case True
  obtain c e w where acc: "sys_accept4 K (fd_no (listen_sock s)) (kern s) = ((c, e), w)"
    by (metis surj_pair)
  show ?thesis
  proof (cases "has (ev_events ev) EPOLLIN \<and> c \<noteq> -1")
    case False
    with acc have "io_frame s (snd (accept_event K callback ev s))"
      by (intro accept_event_none) auto
    with True inv h show ?thesis by (auto simp: handle_event_def intro: conn_inv_io)
  next
    case t: True
    with ok True acc have c: "c \<ge> 0" "c \<notin> incoming_conn_fd s" by (auto simp: event_ok_def)
    have "fst (fst (sys_epoll_ctl K (fd_no (epollfd s)) EPOLL_CTL_ADD c
          (EPOLLIN OR EPOLLET OR EPOLLHUP OR EPOLLRDHUP OR EPOLLOUT) w)) \<noteq> -1"
      using t True acc h by (auto simp: handle_event_def accept_event_def Let_def syscall_eq)
    from t accept_event_new [OF _ acc _ this] obtain u where
      u: "accept_event K callback ev s =
        callback \<lparr>srv = Is_IGenericServer, le_fd = c, job = NEW_SOCKET, events = 0\<rparr> u"
      "incoming_conn_fd u = insert c (incoming_conn_fd s)"
      "activeConnections u = activeConnections s + 1" by metis
    have "conn_inv u" using inv c u(2,3) by (simp add: conn_inv_def)
    moreover from u(1) True h have "callback \<lparr>srv = Is_IGenericServer, le_fd = c, job = NEW_SOCKET, events = 0\<rparr> u = (None, s')"
      by (simp add: handle_event_def)
    ultimately show ?thesis using u(2) by (intro callback_counts [of u _ s']) simp_all
  qed
next
  case False
  show ?thesis
  proof (cases "smart_closes ev s")
    case True
    have closed: "conn_inv (IGenericServer_close K (ev_fd ev)
        (s\<lparr>is_socket_IO := (is_socket_IO s)(ev_fd ev \<mapsto> False)\<rparr>))"
      using inv ok False by (intro conn_inv_close) (simp_all add: conn_inv_def event_ok_def)
    from True False h have "callback \<lparr>srv = Is_IGenericServer, le_fd = ev_fd ev, job = SOCKET_IS_CLOSED,
        events = ev_events ev\<rparr> (IGenericServer_close K (ev_fd ev) (s\<lparr>is_socket_IO := (is_socket_IO s)(ev_fd ev \<mapsto> False)\<rparr>)) = (None, s')"
      by (simp add: handle_event_def socket_event_smart_close)
    from callback_counts [OF closed _ this] show ?thesis by simp
  next
    case no: False
    show ?thesis
    proof (cases "job_of (ev_events ev)")
      case None
      with no False inv h show ?thesis by (simp add: handle_event_def socket_event_job)
    next
      case (Some j)
      with no False h have "callback \<lparr>srv = Is_IGenericServer, le_fd = ev_fd ev, job = j, events = ev_events ev\<rparr> s = (None, s')"
        by (simp add: handle_event_def socket_event_job)
      from callback_counts [OF inv _ this] ok False show ?thesis by (simp add: event_ok_def)
    qed
  qed
qed

end

section \<open>Invariants and termination of the loop\<close>

text \<open>One wake-up of a server that is not told to stop, with the treatment of all its events.\<close>

inductive wake_up ::
  "'w kernel \<Rightarrow> ('w, 'z) callback \<Rightarrow> (('w, 'z) server_scheme \<Rightarrow> int \<times> epoll_event list \<times> ('w, 'z) server_scheme)
    \<Rightarrow> ('w, 'z) server_scheme \<Rightarrow> ('w, 'z) server_scheme \<Rightarrow> bool" for K callback wait where
  interrupted: "\<not> stop_server s \<Longrightarrow> wait s = (-1, evs, s1) \<Longrightarrow> \<not> stop_server s1 \<Longrightarrow> errno s1 = EINTR \<Longrightarrow>
    wake_up K callback wait s s1"
| handled: "\<not> stop_server s \<Longrightarrow> wait s = (nfds, evs, s1) \<Longrightarrow> \<not> stop_server s1 \<Longrightarrow> nfds \<noteq> -1 \<Longrightarrow>
    dispatch_events K callback (take (nat nfds) evs) s1 = (None, s2) \<Longrightarrow> wake_up K callback wait s s2"

lemma listen_loop_wake_up:
  assumes "wake_up K callback wait s t"
  shows "listen_loop K callback wait s = listen_loop K callback wait t"
  using assms by cases (simp_all add: listen_loop.simps [of K callback wait s])

lemma listen_loop_wake_ups:
  assumes "(wake_up K callback wait)\<^sup>*\<^sup>* s t"
  shows "listen_loop K callback wait s = listen_loop K callback wait t"
  using assms by (induction rule: rtranclp_induct) (simp_all add: listen_loop_wake_up)

lemma listen_loop_path:
  assumes "listen_loop K callback wait s = Some r" and "fst r = None"
  shows "\<exists>t. (wake_up K callback wait)\<^sup>*\<^sup>* s t
    \<and> (stop_server t \<and> snd r = t \<or> \<not> stop_server t \<and> stop_server (snd (snd (wait t))) \<and> snd r = snd (snd (wait t)))"
proof -
  let ?P = "\<lambda>K callback wait s r. fst r = None \<longrightarrow> (\<exists>t. (wake_up K callback wait)\<^sup>*\<^sup>* s t
    \<and> (stop_server t \<and> snd r = t \<or> \<not> stop_server t \<and> stop_server (snd (snd (wait t))) \<and> snd r = snd (snd (wait t))))"
  have "?P K callback wait s r"
  proof (rule listen_loop.raw_induct [where P = ?P, OF _ assms(1)], intro impI)
    fix rec K cb w s r
    assume ih: "\<And>K cb w s r. rec K cb w s = Some r \<Longrightarrow> ?P K cb w s r"
      and body: "(if stop_server s then Some (None, s)
        else let (nfds, evs, s1) = w s in
        if stop_server s1 then Some (None, s1)
        else if nfds = -1 \<and> errno s1 = EINTR then rec K cb w s1
        else if nfds = -1 then Some (Some (Throw (Runtime_error ''epoll_wait error'')), s1)
        else case dispatch_events K cb (take (nat nfds) evs) s1 of
             (Some a, s2) \<Rightarrow> Some (Some a, s2) | (None, s2) \<Rightarrow> rec K cb w s2) = Some r"
      and n: "fst r = None"
    obtain nfds evs s1 where w: "w s = (nfds, evs, s1)" by (cases "w s")
    obtain a s2 where d: "dispatch_events K cb (take (nat nfds) evs) s1 = (a, s2)"
      by (cases "dispatch_events K cb (take (nat nfds) evs) s1")
    consider (flag) "stop_server s" "r = (None, s)" | (woken) "\<not> stop_server s" "stop_server s1" "r = (None, s1)"
      | (round) u where "wake_up K cb w s u" "rec K cb w u = Some r"
      using body n interrupted [of s w evs s1 K cb] handled [of s w nfds evs s1 K cb s2]
      by (cases a) (auto simp: w d split: if_splits)
    then show "\<exists>t. (wake_up K cb w)\<^sup>*\<^sup>* s t
      \<and> (stop_server t \<and> snd r = t \<or> \<not> stop_server t \<and> stop_server (snd (snd (w t))) \<and> snd r = snd (snd (w t)))"
    proof cases
      case round
      from ih [OF round(2), rule_format, OF n] obtain t where t: "(wake_up K cb w)\<^sup>*\<^sup>* u t"
        "stop_server t \<and> snd r = t \<or> \<not> stop_server t \<and> stop_server (snd (snd (w t))) \<and> snd r = snd (snd (w t))" by blast
      from converse_rtranclp_into_rtranclp [of "wake_up K cb w", OF round(1) t(1)] t(2) show ?thesis by blast
    qed (use w in \<open>auto intro: exI [of _ s]\<close>)
  qed
  with assms(2) show ?thesis by simp
qed

lemma listen_loop_returns:
  "listen_loop K callback wait s = Some (None, u) \<longleftrightarrow> (\<exists>t. (wake_up K callback wait)\<^sup>*\<^sup>* s t
    \<and> (stop_server t \<and> u = t \<or> \<not> stop_server t \<and> stop_server (snd (snd (wait t))) \<and> u = snd (snd (wait t))))"
    (is "?l \<longleftrightarrow> ?r")
proof
  assume ?l from listen_loop_path [OF this] show ?r by simp
next
  assume ?r
  then obtain t where t: "(wake_up K callback wait)\<^sup>*\<^sup>* s t" "stop_server t \<and> u = t
      \<or> \<not> stop_server t \<and> stop_server (snd (snd (wait t))) \<and> u = snd (snd (wait t))" by blast
  from t(2) have "listen_loop K callback wait t = Some (None, u)"
    by (cases "wait t") (auto simp: listen_loop.simps [of K callback wait t])
  with listen_loop_wake_ups [OF t(1)] show ?l by simp
qed

lemma dispatch_events_inv:
  assumes "\<And>ev t. P t \<Longrightarrow> P (snd (handle_event K callback ev t))" and "P s"
  shows "P (snd (dispatch_events K callback evs s))"
  using assms(2)
proof (induction evs arbitrary: s)
  case (Cons ev evs)
  then have "P (snd (handle_event K callback ev s))" using assms(1) by blast
  with Cons.IH show ?case by (cases "handle_event K callback ev s") (auto split: option.split)
qed simp

text \<open>An invariant of \<^verbatim>\<open>epoll_wait\<close> and of the events' treatment holds where the loop is left.\<close>

lemma listen_loop_inv:
  assumes wait: "\<And>t. P t \<Longrightarrow> P (snd (snd (wait t)))"
    and handle: "\<And>ev t. P t \<Longrightarrow> P (snd (handle_event K callback ev t))"
    and "listen_loop K callback wait s = Some r" and "P s"
  shows "P (snd r)"
proof -
  have "K = K \<and> callback = callback \<and> wait = wait \<longrightarrow> P s \<longrightarrow> P (snd r)"
  proof (rule listen_loop.raw_induct [where P = "\<lambda>K' cb w s r.
      K' = K \<and> cb = callback \<and> w = wait \<longrightarrow> P s \<longrightarrow> P (snd r)", OF _ assms(3)], intro impI)
    fix rec K' cb w t r'
    assume ih: "\<And>K' cb w s r. rec K' cb w s = Some r \<Longrightarrow>
        K' = K \<and> cb = callback \<and> w = wait \<longrightarrow> P s \<longrightarrow> P (snd r)"
      and body: "(if stop_server t then Some (None, t)
        else let (nfds, evs, s1) = w t in
        if stop_server s1 then Some (None, s1)
        else if nfds = -1 \<and> errno s1 = EINTR then rec K' cb w s1
        else if nfds = -1 then Some (Some (Throw (Runtime_error ''epoll_wait error'')), s1)
        else case dispatch_events K' cb (take (nat nfds) evs) s1 of
             (Some a, s2) \<Rightarrow> Some (Some a, s2) | (None, s2) \<Rightarrow> rec K' cb w s2) = Some r'"
      and eqs: "K' = K \<and> cb = callback \<and> w = wait" and "P t"
    obtain nfds evs s1 where w: "wait t = (nfds, evs, s1)" by (cases "wait t")
    obtain a s2 where d: "dispatch_events K callback (take (nat nfds) evs) s1 = (a, s2)"
      by (cases "dispatch_events K callback (take (nat nfds) evs) s1")
    from wait [OF \<open>P t\<close>] w have s1: "P s1" by simp
    with handle have "P (snd (dispatch_events K callback (take (nat nfds) evs) s1))"
      by (rule dispatch_events_inv [of P])
    with d have s2: "P s2" by simp
    have rec: "P (snd r')" if "rec K callback wait u = Some r'" "P u" for u
      using ih [OF that(1)] that(2) by blast
    from eqs have e: "K' = K" "cb = callback" "w = wait" by auto
    note b = body [unfolded e w d Let_def prod.case]
    show "P (snd r')"
    proof (cases "stop_server t \<or> stop_server s1 \<or> nfds = -1")
      case True
      with b have "r' = (None, t) \<or> snd r' = s1 \<or> rec K callback wait s1 = Some r'"
        by (cases "stop_server t"; cases "stop_server s1"; cases "errno s1 = EINTR") auto
      with s1 \<open>P t\<close> rec show ?thesis by fastforce
    next
      case False
      with b have "snd r' = s2 \<or> rec K callback wait s2 = Some r'"
        by (cases a) auto
      with s2 rec show ?thesis by fastforce
    qed
  qed
  with assms(4) show ?thesis by blast
qed

lemma IGenericServer_listen_inv:
  assumes "\<And>t. P t \<Longrightarrow> P (snd (snd (wait t)))"
    and "\<And>ev t. P t \<Longrightarrow> P (snd (handle_event K callback ev t))"
    and "P (snd (listen_setup K s))" and "fd_no (listen_sock s) \<noteq> -1"
    and "IGenericServer_listen K callback wait s = Some (r, s')"
  shows "\<exists>t. P t \<and> (r, s') = run_on_return K (r, t)"
proof (cases "listen_setup K s")
  case (Pair e s1)
  show ?thesis
  proof (cases e)
    case None
    with assms(4,5) Pair obtain q where q: "listen_loop K callback wait s1 = Some q"
      "(r, s') = run_on_return K q" by (auto simp: IGenericServer_listen_def)
    have "P (snd q)" using listen_loop_inv [of P wait K callback, OF assms(1,2) q(1)] assms(3) Pair by simp
    moreover have "fst q = r" using q(2) by (auto simp: run_on_return_def split: prod.splits option.splits abrupt.splits)
    ultimately show ?thesis using q(2) by (metis prod.collapse)
  next
    case (Some x)
    with assms(3-5) Pair show ?thesis
      by (auto simp: IGenericServer_listen_def run_on_return_def intro!: exI [of _ s1])
  qed
qed

lemma listen_loop_terminates:
  fixes rank :: "('w, 'z) server_scheme \<Rightarrow> nat"
  assumes wait: "\<And>t. \<not> stop_server t \<Longrightarrow> \<not> stop_server (snd (snd (wait t))) \<Longrightarrow>
      rank (snd (snd (wait t))) < rank t"
    and handle: "\<And>ev t. rank (snd (handle_event K callback ev t)) \<le> rank t"
  shows "\<exists>r. listen_loop K callback wait s = Some r"
proof (induction "rank s" arbitrary: s rule: less_induct)
  case less
  obtain nfds evs s1 where w: "wait s = (nfds, evs, s1)" by (cases "wait s")
  let ?d = "dispatch_events K callback (take (nat nfds) evs) s1"
  have d: "rank (snd ?d) \<le> rank s1"
    by (rule dispatch_events_inv [where P = "\<lambda>t. rank t \<le> rank s1"])
      (auto intro: order_trans [OF handle])
  show ?case
  proof (cases "stop_server s \<or> stop_server s1")
    case True
    with w show ?thesis by (auto simp: listen_loop.simps [of K callback wait s])
  next
    case False
    with wait [of s] w have "rank s1 < rank s" by simp
    then obtain r1 r2 where "listen_loop K callback wait s1 = Some r1"
      "listen_loop K callback wait (snd ?d) = Some r2"
      using d less [of s1] less [of "snd ?d"] by force
    with False w show ?thesis
      by (cases ?d) (simp add: listen_loop.simps [of K callback wait s] split: option.split)
  qed
qed

section \<open>No descriptor is left open\<close>

lemma closeSockets_listen_sock:
  assumes "\<And>f w. 0 \<le> f \<Longrightarrow> fst (fst (sys_close K f w)) \<noteq> -1" and "-1 \<le> fd_no (listen_sock s)"
  shows "fd_no (listen_sock (closeSockets K s)) = -1"
proof -
  have "listen_sock (close_all K fds s) = listen_sock s" for fds
    using close_all_fields [of s K fds] by (simp add: io_frame_def)
  with assms show ?thesis
    by (simp add: closeSockets_defs case_prod_beta Let_def FileDescriptor_close_def syscall_eq)
qed

text \<open>
  Every open descriptor is one of \<open>base\<close> (those the process had before), a connection in
  \<^verbatim>\<open>incoming_conn_fd\<close>, or one of the two descriptors of the server.
\<close>

definition no_leak :: "('w \<Rightarrow> fd set) \<Rightarrow> fd set \<Rightarrow> ('w, 'z) server_scheme \<Rightarrow> bool" where
  "no_leak opened base s \<longleftrightarrow> finite (incoming_conn_fd s)
     \<and> opened (kern s) \<subseteq> base \<union> incoming_conn_fd s \<union> {fd_no (epollfd s), fd_no (listen_sock s)}"

context fd_syscalls
begin

lemma no_leak_setup:
  assumes "opened (kern s) \<subseteq> base \<union> {fd_no (listen_sock s)}"
  shows "no_leak opened base (snd (listen_setup K s))"
  using assms opened_epoll_create [of "snd (sys_listen K (fd_no (listen_sock s)) (backlog s) (kern s))"]
  by (auto simp: no_leak_def listen_setup_def Let_def syscall_eq)

lemma no_leak_handle:
  assumes cb: "\<And>le t. no_leak opened base t \<Longrightarrow> no_leak opened base (snd (callback le t))"
    and inv: "no_leak opened base s"
  shows "no_leak opened base (snd (handle_event K callback ev s))"
proof -
  let ?acc = "sys_accept4 K (fd_no (listen_sock s)) (kern s)"
  have acc: "no_leak opened base (snd (accept_event K callback ev s))"
  proof (cases "fst (fst ?acc) = -1")
    case True
    with inv opened_accept_failed [OF True] show ?thesis
      by (auto simp: accept_event_def Let_def syscall_eq no_leak_def)
  next
    case False
    have *: "opened (snd ?acc) \<subseteq> base \<union> insert (fst (fst ?acc)) (incoming_conn_fd s)
        \<union> {fd_no (epollfd s), fd_no (listen_sock s)}"
      using inv opened_accept [of "fd_no (listen_sock s)" "kern s"] by (auto simp: no_leak_def)
    show ?thesis
    proof (cases "has (ev_events ev) EPOLLIN")
      case True
      with False * inv show ?thesis
        by (simp add: accept_event_def Let_def syscall_eq unset_IO_def, intro conjI impI cb)
          (auto simp: no_leak_def)
    qed (use inv in \<open>simp add: accept_event_def\<close>)
  qed
  have "no_leak opened base (snd (socket_event K callback ev s))"
  proof (cases "smart_closes ev s")
    case True
    have "no_leak opened base (IGenericServer_close K (ev_fd ev)
        (s\<lparr>is_socket_IO := (is_socket_IO s)(ev_fd ev \<mapsto> False)\<rparr>))"
      using inv by (auto simp: no_leak_def IGenericServer_close_def nbuss_simps opened_close)
    with True cb show ?thesis by (simp add: socket_event_smart_close)
  qed (use cb inv in \<open>simp add: socket_event_job split: option.split\<close>)
  with acc show ?thesis by (simp add: handle_event_def)
qed

lemma no_leak_closeSockets:
  assumes "no_leak opened base s"
  shows "opened (kern (closeSockets K s)) \<subseteq> base"
  using assms opened_nonneg by (auto simp: no_leak_def closeSockets_opened split: if_splits)

end

section \<open>Properties\<close>

text \<open>
  The event table of \<^verbatim>\<open>listen\<close>, for descriptors other than the listening socket. A hang-up on a
  socket on which no I/O was done is closed by the server, which reports \<^verbatim>\<open>SOCKET_IS_CLOSED\<close>; any other
  hang-up or error is reported as \<^verbatim>\<open>CLOSE_SOCKET\<close>; without those, readable and writable give the three
  availability jobs; any other event calls nobody.
\<close>

lemma handle_event_jobs:
  assumes "ev_fd ev \<noteq> fd_no (listen_sock s)"
  shows "handle_event K callback ev s =
    (let tell = (\<lambda>j. callback \<lparr>srv = Is_IGenericServer, le_fd = ev_fd ev, job = j,
        events = ev_events ev\<rparr>) in
     if smart_closes ev s
     then tell SOCKET_IS_CLOSED (IGenericServer_close K (ev_fd ev)
            (s\<lparr>is_socket_IO := (is_socket_IO s)(ev_fd ev \<mapsto> False)\<rparr>))
     else case job_of (ev_events ev) of None \<Rightarrow> (None, s) | Some j \<Rightarrow> tell j s)"
  using assms
  by (simp add: handle_event_def socket_event_job socket_event_smart_close split: option.split)

definition log_callback :: "(sim, 'z) callback" where
  "log_callback le s = (None, s\<lparr>socketList := le_fd le # socketList s\<rparr>)"

lemma handle_event_jobs_witness:
  "5 \<noteq> fd_no (listen_sock demo_server)
   \<and> smart_closes \<lparr>ev_fd = 5, ev_events = EPOLLIN OR EPOLLRDHUP\<rparr> demo_server
   \<and> snd (handle_event sim_kernel log_callback \<lparr>ev_fd = 5, ev_events = EPOLLIN OR EPOLLRDHUP\<rparr> demo_server) =
      (IGenericServer_close sim_kernel 5 (demo_server\<lparr>is_socket_IO := [5 \<mapsto> False]\<rparr>))\<lparr>socketList := [5]\<rparr>"
proof -
  let ?ev = "\<lparr>ev_fd = 5, ev_events = EPOLLIN OR EPOLLRDHUP\<rparr>"
  have n: "5 \<noteq> fd_no (listen_sock demo_server)" by (simp add: demo_server_def)
  have s: "smart_closes ?ev demo_server" by (simp add: smart_closes_def demo_server_def epoll_defs)
  have "ev_fd ?ev \<noteq> fd_no (listen_sock demo_server)" using n by simp
  from handle_event_jobs [OF this, of sim_kernel log_callback] n s show ?thesis
    by (simp add: log_callback_def IGenericServer_close_def nbuss_simps) (simp add: demo_server_def)
qed

text \<open>
  C34. The counter of connections: when the dispatcher has treated an event and returns normally, the counter is again the
  number of the server's connections, whether the event is a new connection, activity, a hang-up that the server
  treats itself, or one for which the callback closes the connection. The event is of the listening socket, where
  the kernel gives a descriptor that is not in use, or of a connection of the server, and the callback keeps its
  part of the contract: it closes no other socket.
\<close>

theorem handle_event_counts:
  assumes "counting_callback callback" and "conn_inv s" and "event_ok K ev s"
    and "handle_event K callback ev s = (None, s')"
  shows "conn_inv s'"
  by (rule counting_callback.handle_event_conn_inv [OF assms])

text \<open>A callback that closes the socket when it is asked to.\<close>

definition closing_callback :: "'w kernel \<Rightarrow> ('w, 'z) callback" where
  "closing_callback K le s = (None, if job le = CLOSE_SOCKET then IGenericServer_close K (le_fd le) s else s)"

interpretation closing: counting_callback "closing_callback K" for K
  by unfold_locales (auto simp: closing_callback_def intro: conn_inv_close split: if_splits)

definition eager_kernel :: "sim kernel" where
  "eager_kernel = sim_kernel\<lparr>sys_epoll_ctl := (\<lambda>ep op f ev w. ((0, 0), w)),
     sys_close := (\<lambda>f w. ((0, 0), w\<lparr>open_fds := open_fds w - {f}\<rparr>))\<rparr>"

theorem handle_event_counts_witness:
  "\<exists>s'. handle_event eager_kernel (closing_callback eager_kernel) \<lparr>ev_fd = 5, ev_events = EPOLLERR\<rparr> demo_server = (None, s')
     \<and> conn_inv s' \<and> incoming_conn_fd s' = {} \<and> activeConnections s' = 0"
proof -
  let ?ev = "\<lparr>ev_fd = 5, ev_events = EPOLLERR\<rparr>"
  have ok: "event_ok eager_kernel ?ev demo_server" by (simp add: event_ok_def demo_server_def)
  have h: "handle_event eager_kernel (closing_callback eager_kernel) ?ev demo_server = (None, IGenericServer_close eager_kernel 5 demo_server)"
    by (simp add: handle_event_def socket_event_def closing_callback_def epoll_defs demo_server_def)
  from handle_event_counts [OF closing.counting_callback_axioms demo_conn_inv ok h] h show ?thesis
    by (simp add: IGenericServer_close_fields) (simp add: demo_server_def)
qed

text \<open>
  Accepting a connection resets the I/O mark of the listening socket, not that of the connection. So
  when the kernel reuses the number of a connection on which there was I/O, the new connection starts
  marked: a hang-up before any I/O is not closed by the server, whatever the kind of hang-up.
\<close>

lemma accept_keeps_stale_mark:
  assumes "has (ev_events ev) EPOLLIN" and "ev_fd ev = fd_no (listen_sock s)"
    and "sys_accept4 K (fd_no (listen_sock s)) (kern s) = ((conn, e), w)"
    and "conn \<noteq> -1" and "conn \<noteq> fd_no (listen_sock s)"
    and "fst (fst (sys_epoll_ctl K (fd_no (epollfd s)) EPOLL_CTL_ADD conn
          (EPOLLIN OR EPOLLET OR EPOLLHUP OR EPOLLRDHUP OR EPOLLOUT) w)) \<noteq> -1"
    and "is_socket_IO s conn = Some True"
  shows "\<exists>t. handle_event K callback ev s =
      callback \<lparr>srv = Is_IGenericServer, le_fd = conn, job = NEW_SOCKET, events = 0\<rparr> t
    \<and> conn \<in> incoming_conn_fd t \<and> \<not> smart_closes \<lparr>ev_fd = conn, ev_events = evs\<rparr> t"
proof -
  obtain t where t: "accept_event K callback ev s =
      callback \<lparr>srv = Is_IGenericServer, le_fd = conn, job = NEW_SOCKET, events = 0\<rparr> t"
    "incoming_conn_fd t = insert conn (incoming_conn_fd s)"
    "is_socket_IO t = (if use_smart_close s then (is_socket_IO s)(ev_fd ev \<mapsto> False)
          else is_socket_IO s)"
    using accept_event_new [OF assms(1,3,4,6), of callback] by metis
  with assms(2,5,7) show ?thesis
    by (intro exI [of _ t]) (auto simp: handle_event_def smart_closes_def)
qed

definition reused_server :: "sim server" where
  "reused_server = demo_server\<lparr>is_socket_IO := [6 \<mapsto> True]\<rparr>"

lemma accept_keeps_stale_mark_witness:
  "\<exists>t. handle_event eager_kernel log_callback \<lparr>ev_fd = 3, ev_events = EPOLLIN\<rparr> reused_server =
      log_callback \<lparr>srv = Is_IGenericServer, le_fd = 6, job = NEW_SOCKET, events = 0\<rparr> t
    \<and> 6 \<in> incoming_conn_fd t \<and> \<not> smart_closes \<lparr>ev_fd = 6, ev_events = EPOLLRDHUP\<rparr> t"
proof -
  have "sys_accept4 eager_kernel (fd_no (listen_sock reused_server)) (kern reused_server) =
      ((6, 0), snd (sim_alloc (sim0\<lparr>conns := 0\<rparr>)))"
    by (simp add: eager_kernel_def reused_server_def demo_eval)
  note acc = this
  show ?thesis
    by (rule accept_keeps_stale_mark [OF _ _ acc])
      (simp_all add: eager_kernel_def reused_server_def demo_server_def epoll_defs)
qed

text \<open>
  C2. \<^verbatim>\<open>listen\<close> leaves no descriptor behind: when it returns or throws, every descriptor that is still
  open was open before, for every callback and every concurrent activity during \<^verbatim>\<open>epoll_wait\<close> that open
  none of their own; the server is no longer listening and holds no connection.
\<close>

theorem listen_closes_everything:
  assumes "fd_syscalls K opened"
    and "\<And>le t. no_leak opened base t \<Longrightarrow> no_leak opened base (snd (callback le t))"
    and "\<And>t. no_leak opened base t \<Longrightarrow> no_leak opened base (snd (snd (wait t)))"
    and "fd_no (listen_sock s) \<noteq> -1" and "opened (kern s) \<subseteq> base \<union> {fd_no (listen_sock s)}"
    and "IGenericServer_listen K callback wait s = Some (r, s')" and "r = None \<or> r = Some (Throw x)"
  shows "opened (kern s') \<subseteq> base \<and> incoming_conn_fd s' = {} \<and> \<not> is_listening s'"
proof -
  obtain t where t: "no_leak opened base t" "(r, s') = run_on_return K (r, t)"
    using IGenericServer_listen_inv [of "no_leak opened base", OF assms(3)
        fd_syscalls.no_leak_handle [OF assms(1,2)] fd_syscalls.no_leak_setup [OF assms(1,5)] assms(4,6)]
    by blast
  from t(2) assms(7) have "s' = closeSockets K t" by (auto simp: run_on_return_def)
  with fd_syscalls.no_leak_closeSockets [OF assms(1) t(1)] show ?thesis by simp
qed

text \<open>Another thread stops the server during \<^verbatim>\<open>epoll_wait\<close>.\<close>

definition stop_wait :: "(sim, 'z) server_scheme \<Rightarrow> int \<times> epoll_event list \<times> (sim, 'z) server_scheme" where
  "stop_wait s = (1, [\<lparr>ev_fd = pipe_rd (commandPipe s), ev_events = EPOLLIN\<rparr>], s\<lparr>stop_server := True\<rparr>)"

definition fresh_server :: "sim server" where
  "fresh_server = demo_server\<lparr>incoming_conn_fd := {}, activeConnections := 0, is_listening := False,
     epollfd := FileDescriptor_new ''epollfd'', kern := sim0\<lparr>open_fds := {1, 2, 3}\<rparr>\<rparr>"

definition fresh_listened :: "(abrupt option \<times> sim server) option" where
  "fresh_listened = IGenericServer_listen eager_kernel (\<lambda>le s. (None, s)) stop_wait fresh_server"

lemma fresh_listened_returns: "fresh_listened = Some (None, snd (the fresh_listened))"
  by (simp add: fresh_listened_def IGenericServer_listen_def listen_setup_def Let_def syscall_eq
      fresh_server_def eager_kernel_def demo_server_def FileDescriptor_new_def sim_calls sim_alloc_def
      listen_loop.simps [of _ _ stop_wait] stop_wait_def run_on_return_def sim0_def)

interpretation eager_fds: fd_syscalls eager_kernel sim_open
  by unfold_locales
    (auto simp: eager_kernel_def sim_calls sim_alloc_def sim_open_def split: nat.splits if_splits)

theorem listen_closes_everything_witness:
  "sim_open (kern (snd (the fresh_listened))) \<subseteq> {1, 2}"
proof -
  have "no_leak sim_open {1, 2} t \<Longrightarrow> no_leak sim_open {1, 2} (snd (snd (stop_wait t)))" for t :: "sim server"
    by (simp add: no_leak_def stop_wait_def)
  note w = this
  have "IGenericServer_listen eager_kernel (\<lambda>le s. (None, s)) stop_wait fresh_server =
      Some (None, snd (the fresh_listened))"
    using fresh_listened_returns by (simp add: fresh_listened_def)
  from listen_closes_everything [OF eager_fds.fd_syscalls_axioms _ w _ _ this]
  show ?thesis by (simp add: fresh_server_def demo_server_def sim_open_def)
qed

text \<open>
  C35. \<^verbatim>\<open>listen\<close>, once set up, returns normally exactly when it sees the stop flag. It sees the flag before it calls
  \<^verbatim>\<open>epoll_wait\<close>, and then does not call it, or after \<^verbatim>\<open>epoll_wait\<close> returned, and then handles none of the events that
  were reported; until then every wake-up was an interrupted call or one whose events have all been handled.
  The state it leaves is the one in which the flag was seen, cleaned up.
\<close>

theorem listen_returns:
  assumes "fd_no (listen_sock s) \<noteq> -1" and "listen_setup K s = (None, s0)"
  shows "IGenericServer_listen K callback wait s = Some (None, s') \<longleftrightarrow>
    (\<exists>t. (wake_up K callback wait)\<^sup>*\<^sup>* s0 t
       \<and> (stop_server t \<and> s' = closeSockets K t
          \<or> \<not> stop_server t \<and> stop_server (snd (snd (wait t))) \<and> s' = closeSockets K (snd (snd (wait t)))))"
proof -
  have "run_on_return K r = (None, s') \<longleftrightarrow> (\<exists>u. r = (None, u) \<and> s' = closeSockets K u)" for r
    by (cases r) (auto simp: run_on_return_def split: option.splits abrupt.splits)
  then have "IGenericServer_listen K callback wait s = Some (None, s') \<longleftrightarrow>
      (\<exists>u. listen_loop K callback wait s0 = Some (None, u) \<and> s' = closeSockets K u)"
    using assms by (auto simp: IGenericServer_listen_def)
  then show ?thesis by (auto simp: listen_loop_returns)
qed

theorem listen_returns_witness:
  "IGenericServer_listen eager_kernel log_callback stop_wait fresh_server =
     Some (None, closeSockets eager_kernel (snd (snd (stop_wait (snd (listen_setup eager_kernel fresh_server))))))"
proof -
  let ?s0 = "snd (listen_setup eager_kernel fresh_server)"
  have s: "fd_no (listen_sock fresh_server) \<noteq> -1" "listen_setup eager_kernel fresh_server = (None, ?s0)"
    "\<not> stop_server ?s0" "stop_server (snd (snd (stop_wait ?s0)))"
    by (simp_all add: listen_setup_def Let_def syscall_eq fresh_server_def eager_kernel_def demo_server_def sim_calls
        sim_alloc_def sim0_def stop_wait_def)
  from listen_returns [OF s(1,2), of log_callback stop_wait] s(3,4) show ?thesis by blast
qed

text \<open>After \<^verbatim>\<open>listen\<close> has ended, the listening socket is closed, and the next \<^verbatim>\<open>listen\<close> notices.\<close>

lemma listened_socket_closed:
  assumes "\<And>f w. 0 \<le> f \<Longrightarrow> fst (fst (sys_close K f w)) \<noteq> -1"
    and "\<And>le t. -1 \<le> fd_no (listen_sock t) \<Longrightarrow> -1 \<le> fd_no (listen_sock (snd (callback le t)))"
    and "\<And>t. -1 \<le> fd_no (listen_sock t) \<Longrightarrow> -1 \<le> fd_no (listen_sock (snd (snd (wait t))))"
    and "0 \<le> fd_no (listen_sock s)"
    and "IGenericServer_listen K callback wait s = Some (r, s')" and "r = None \<or> r = Some (Throw x)"
  shows "fd_no (listen_sock s') = -1"
proof -
  have h: "-1 \<le> fd_no (listen_sock (snd (handle_event K callback ev t)))"
    if "-1 \<le> fd_no (listen_sock t)" for ev t
    using that assms(2)
    by (simp add: handle_event_def accept_event_def socket_event_def Let_def syscall_eq unset_IO_def
        is_IO_def case_prod_beta IGenericServer_close_def)
  have "-1 \<le> fd_no (listen_sock (snd (listen_setup K s)))"
    using assms(4) by (simp add: listen_setup_def Let_def syscall_eq)
  from IGenericServer_listen_inv [of "\<lambda>t. -1 \<le> fd_no (listen_sock t)", OF assms(3) h this _ assms(5)]
    assms(4) obtain t where t: "-1 \<le> fd_no (listen_sock t)" "(r, s') = run_on_return K (r, t)" by auto
  from t(2) assms(6) have "s' = closeSockets K t" by (auto simp: run_on_return_def)
  with closeSockets_listen_sock [OF assms(1) t(1)] show ?thesis by simp
qed

lemma listen_closed_socket:
  "fd_no (listen_sock s) = -1 \<Longrightarrow>
    IGenericServer_listen K callback wait s = Some (Some (Throw (Runtime_error ''server socket is not open'')), s)"
  by (simp add: IGenericServer_listen_def)

text \<open>
  A server cannot listen twice. The clean-up of \<^verbatim>\<open>listen\<close> closes the listening socket, so after a
  return or an exception, and after \<^verbatim>\<open>terminate\<close> has completed, the next \<^verbatim>\<open>listen\<close> throws at once.
\<close>

lemma listen_not_restartable:
  assumes "\<And>f w. 0 \<le> f \<Longrightarrow> fst (fst (sys_close K f w)) \<noteq> -1"
    and "\<And>le t. -1 \<le> fd_no (listen_sock t) \<Longrightarrow> -1 \<le> fd_no (listen_sock (snd (callback le t)))"
    and "\<And>t. -1 \<le> fd_no (listen_sock t) \<Longrightarrow> -1 \<le> fd_no (listen_sock (snd (snd (wait t))))"
    and "0 \<le> fd_no (listen_sock s)"
    and "IGenericServer_listen K callback wait s = Some (r, s')" and "r = None \<or> r = Some (Throw x)"
  shows "IGenericServer_listen K callback' wait' (terminate_end s') =
    Some (Some (Throw (Runtime_error ''server socket is not open'')), terminate_end s')"
  using listened_socket_closed [OF assms] by (intro listen_closed_socket) (simp add: terminate_end_def)

lemma listen_not_restartable_witness:
  "IGenericServer_listen eager_kernel log_callback stop_wait (terminate_end (snd (the fresh_listened))) =
    Some (Some (Throw (Runtime_error ''server socket is not open'')), terminate_end (snd (the fresh_listened)))"
proof -
  have "IGenericServer_listen eager_kernel (\<lambda>le s. (None, s)) stop_wait fresh_server =
      Some (None, snd (the fresh_listened))"
    using fresh_listened_returns by (simp add: fresh_listened_def)
  note l = this
  show ?thesis
    by (rule listen_not_restartable [OF _ _ _ _ l])
      (simp_all add: eager_kernel_def stop_wait_def fresh_server_def demo_server_def)
qed

text \<open>
  The clean-up of \<^verbatim>\<open>listen\<close> forgets the connections it closes but not their number: a server that had
  connections when it stopped reports the same number of active connections ever after.
\<close>

lemma closeSockets_stale_counter:
  assumes "conn_inv s" and "incoming_conn_fd s \<noteq> {}"
  shows "incoming_conn_fd (closeSockets K s) = {}
    \<and> get_active_connections (closeSockets K s) = int (card (incoming_conn_fd s))
    \<and> 0 < get_active_connections (closeSockets K s)"
  using assms by (auto simp: get_active_connections_def conn_inv_def card_gt_0_iff)

lemma closeSockets_stale_counter_witness:
  "get_active_connections (closeSockets sim_kernel demo_server) = 1"
proof -
  have "incoming_conn_fd demo_server \<noteq> {}" by (simp add: demo_server_def)
  from closeSockets_stale_counter [OF demo_conn_inv this] show ?thesis by (simp add: demo_server_def)
qed

text \<open>
  The names of the flags of an event always fit the static buffer of \<^verbatim>\<open>interpret_event\<close>, with the
  terminating null character.
\<close>

lemma interpret_event_fits: "length (interpret_event event) + 1 \<le> 256"
  by (simp add: interpret_event_def)

end
