(* ===== verification/IThreadable.thy ===== *)
theory IThreadable
  imports Nbuss_Prelude
begin

text \<open>
  The interface \<^verbatim>\<open>libnbuss/IThreadable.h\<close>: a server that is started and stopped. The class is abstract; its contract
  is the locale \<open>threadable\<close>, which the two threaded servers interpret. \<open>begin_start\<close> is \<^verbatim>\<open>start\<close> up to the point
  where it waits for the server, \<open>end_stop\<close> is \<^verbatim>\<open>stop\<close> from the point where the server no longer listens, and
  \<open>started\<close> says that a thread of the server has to be joined.
\<close>

datatype life_call = Start | Stop bool

text \<open>A sequence of calls that all succeed.\<close>

fun run_calls ::
  "('s \<Rightarrow> abrupt option \<times> 's) \<Rightarrow> (bool \<Rightarrow> 's \<Rightarrow> abrupt option \<times> 's) \<Rightarrow> life_call list \<Rightarrow> 's \<Rightarrow> 's option" where
  "run_calls start stop [] s = Some s"
| "run_calls start stop (Start # cs) s =
     (case start s of (None, t) \<Rightarrow> run_calls start stop cs t | (Some a, t) \<Rightarrow> None)"
| "run_calls start stop (Stop waited # cs) s =
     (case stop waited s of (None, t) \<Rightarrow> run_calls start stop cs t | (Some a, t) \<Rightarrow> None)"

fun alternating :: "bool \<Rightarrow> life_call list \<Rightarrow> bool" where
  "alternating up [] = True"
| "alternating up (Start # cs) = (\<not> up \<and> alternating True cs)"
| "alternating up (Stop waited # cs) = (up \<and> alternating False cs)"

locale threadable =
  fixes begin_start :: "'s \<Rightarrow> abrupt option \<times> 's"
    and end_stop :: "bool \<Rightarrow> 's \<Rightarrow> abrupt option \<times> 's"
    and started :: "'s \<Rightarrow> bool"
  assumes start_once: "begin_start s = (None, t) \<Longrightarrow> \<not> started s \<and> started t"
    and stop_joins: "end_stop waited s = (None, t) \<Longrightarrow> started s \<and> \<not> started t"
begin

lemma calls_alternate: "run_calls begin_start end_stop cs s = Some t \<Longrightarrow> alternating (started s) cs"
proof (induction cs arbitrary: s)
  case (Cons c cs)
  show ?case
  proof (cases c)
    case Start
    with Cons.prems obtain u where "begin_start s = (None, u)" "run_calls begin_start end_stop cs u = Some t"
      by (auto split: prod.splits option.splits)
    with Start start_once Cons.IH [of u] show ?thesis by fastforce
  next
    case (Stop waited)
    with Cons.prems obtain u where "end_stop waited s = (None, u)" "run_calls begin_start end_stop cs u = Some t"
      by (auto split: prod.splits option.splits)
    with Stop stop_joins Cons.IH [of u] show ?thesis by fastforce
  qed
qed simp

lemma no_double_start: "begin_start s = (None, t) \<Longrightarrow> fst (begin_start t) \<noteq> None"
  using start_once [of s t] start_once [of t] by (cases "begin_start t") auto

end

end
