(* ===== verification/Lifecycle.thy ===== *)
theory Lifecycle
  imports Listen IThreadable
begin

text \<open>
  Model of \<^verbatim>\<open>libnbuss/ThreadedServer.cpp\<close>, which runs \<^verbatim>\<open>listen\<close> in a thread, and of the protocol between
  \<^verbatim>\<open>IGenericServer::listen\<close> and \<^verbatim>\<open>IGenericServer::terminate\<close>, which run in two threads: a step relation over the
  program counters of both and the variables they share.
\<close>

section \<open>ThreadedServer\<close>

text \<open>
  A \<^verbatim>\<open>ThreadedServer\<close> is an \<^verbatim>\<open>IGenericServer\<close> itself and holds a reference to another one. \<open>own_is_listening\<close>
  is the flag of its own base class; the inherited fields of the record are those of the server it
  refers to.
\<close>

record 'w threaded_server = "'w server" +
  own_is_listening :: bool
  worker_is_running :: bool
  workerThread :: bool

definition ThreadedServer_new :: "'w server \<Rightarrow> 'w threaded_server" where
  "ThreadedServer_new s = server.extend s (threaded_server.fields False False False)"

definition ThreadedServer_start_begin ::
  "('w, 'z) threaded_server_scheme \<Rightarrow> abrupt option \<times> ('w, 'z) threaded_server_scheme" where
  "ThreadedServer_start_begin s =
     (if own_is_listening s then (Some (Throw (Runtime_error ''server is already listening'')), s)
      else if workerThread s then (Some (Abort ''std::terminate''), s)
      else (None, s\<lparr>workerThread := True\<rparr>))"

definition ThreadedServer_start_end ::
  "('w, 'z) threaded_server_scheme \<Rightarrow> abrupt option \<times> ('w, 'z) threaded_server_scheme" where
  "ThreadedServer_start_end s =
     (case wait_for_server_ready s of Inl a \<Rightarrow> (Some a, s) | Inr u \<Rightarrow> (None, s))"

definition ThreadedServer_listen_worker ::
  "'w kernel \<Rightarrow> ('w, 'z threaded_server_ext) callback
    \<Rightarrow> (('w, 'z) threaded_server_scheme \<Rightarrow> int \<times> epoll_event list \<times> ('w, 'z) threaded_server_scheme)
    \<Rightarrow> ('w, 'z) threaded_server_scheme \<Rightarrow> (abrupt option \<times> ('w, 'z) threaded_server_scheme) option" where
  "ThreadedServer_listen_worker K callback_function wait s =
     IGenericServer_listen K callback_function wait s"

text \<open>\<^verbatim>\<open>std::thread\<close> calls \<^verbatim>\<open>std::terminate\<close> when an exception leaves the function it runs.\<close>

definition thread_main :: "(abrupt option \<times> 's) option \<Rightarrow> (abrupt option \<times> 's) option" where
  "thread_main r = (case r of
      Some (Some (Throw x), s) \<Rightarrow> Some (Some (Abort ''std::terminate''), s)
    | _ \<Rightarrow> r)"

definition ThreadedServer_stop_begin ::
  "'w kernel \<Rightarrow> ('w, 'z) threaded_server_scheme \<Rightarrow> bool \<times> ('w, 'z) threaded_server_scheme" where
  "ThreadedServer_stop_begin K s = terminate_begin K s"

definition ThreadedServer_stop_end ::
  "bool \<Rightarrow> ('w, 'z) threaded_server_scheme \<Rightarrow> abrupt option \<times> ('w, 'z) threaded_server_scheme" where
  "ThreadedServer_stop_end waited s =
     (if waited \<and> is_listening s then (Some Blocked, s)
      else let s1 = terminate_end s in
        if \<not> workerThread s1 then (Some (Throw (System_error ''Invalid argument'')), s1)
        else (None, s1\<lparr>workerThread := False\<rparr>))"

interpretation threaded: threadable ThreadedServer_start_begin ThreadedServer_stop_end workerThread
  by unfold_locales
    (auto simp: ThreadedServer_start_begin_def ThreadedServer_stop_end_def terminate_end_def Let_def split: if_splits)

section \<open>listen and terminate\<close>

text \<open>
  The listening thread: \<open>L_start\<close> is before \<^verbatim>\<open>is_listening\<close> is set, \<open>L_check\<close> the test of the loop, \<open>L_wait\<close>
  inside \<^verbatim>\<open>epoll_wait\<close>, \<open>L_woken\<close> the test after it, \<open>L_clean\<close> in the clean-up. The terminating thread:
  \<open>T_read\<close> reads the flag, \<open>T_set\<close> stores \<^verbatim>\<open>stop_server\<close>, \<open>T_pipe\<close> writes to the pipe, \<open>T_wait\<close> waits on the
  condition variable, \<open>T_end\<close> restores the state. \<^verbatim>\<open>terminate\<close> looks only at the flag, so the clean-up and its change of
  the flag are one step here (\<open>Server_Type\<close> has them apart); the ends of \<^verbatim>\<open>listen\<close> by an exception are left out.
\<close>

datatype listen_pc = L_start | L_check | L_wait | L_woken | L_clean | L_done
datatype terminate_pc = T_read | T_set | T_pipe | T_wait | T_end | T_done

record protocol =
  listening :: bool
  stop_flag :: bool
  pipe_bytes :: nat
  lpc :: listen_pc
  tpc :: terminate_pc

inductive protocol_step :: "protocol \<Rightarrow> protocol \<Rightarrow> bool" where
  l_ready: "lpc p = L_start \<Longrightarrow> protocol_step p (p\<lparr>lpc := L_check, listening := True\<rparr>)"
| l_check: "lpc p = L_check \<Longrightarrow> protocol_step p (p\<lparr>lpc := if stop_flag p then L_clean else L_wait\<rparr>)"
| l_pipe: "lpc p = L_wait \<Longrightarrow> pipe_bytes p > 0 \<Longrightarrow> protocol_step p (p\<lparr>lpc := L_woken\<rparr>)"
| l_event: "lpc p = L_wait \<Longrightarrow> protocol_step p (p\<lparr>lpc := L_woken\<rparr>)"
| l_woken: "lpc p = L_woken \<Longrightarrow> protocol_step p (p\<lparr>lpc := if stop_flag p then L_clean else L_check\<rparr>)"
| l_clean: "lpc p = L_clean \<Longrightarrow> protocol_step p (p\<lparr>lpc := L_done, listening := False\<rparr>)"
| t_read: "tpc p = T_read \<Longrightarrow> protocol_step p (p\<lparr>tpc := if listening p then T_set else T_end\<rparr>)"
| t_set: "tpc p = T_set \<Longrightarrow> protocol_step p (p\<lparr>tpc := T_pipe, stop_flag := True\<rparr>)"
| t_pipe: "tpc p = T_pipe \<Longrightarrow> protocol_step p (p\<lparr>tpc := T_wait, pipe_bytes := pipe_bytes p + 1\<rparr>)"
| t_wait: "tpc p = T_wait \<Longrightarrow> \<not> listening p \<Longrightarrow> protocol_step p (p\<lparr>tpc := T_end\<rparr>)"
| t_end: "tpc p = T_end \<Longrightarrow> protocol_step p (p\<lparr>tpc := T_done, stop_flag := False, listening := False\<rparr>)"

text \<open>Steps that no other event drives: without \<open>l_event\<close>, only the pipe wakes the listener.\<close>

definition enabled :: "protocol \<Rightarrow> bool" where
  "enabled p \<longleftrightarrow> lpc p \<in> {L_start, L_check, L_woken, L_clean} \<or> lpc p = L_wait \<and> pipe_bytes p > 0
     \<or> tpc p \<in> {T_read, T_set, T_pipe, T_end} \<or> tpc p = T_wait \<and> \<not> listening p"

abbreviation start_state :: "listen_pc \<Rightarrow> protocol" where
  "start_state l \<equiv> \<lparr>listening = (l \<noteq> L_start), stop_flag = False, pipe_bytes = 0, lpc = l, tpc = T_read\<rparr>"

text \<open>The invariant of a \<^verbatim>\<open>terminate\<close> that was called after the server became ready.\<close>

definition ready_inv :: "protocol \<Rightarrow> bool" where
  "ready_inv p \<longleftrightarrow> lpc p \<noteq> L_start
     \<and> (tpc p \<in> {T_read, T_set} \<longrightarrow> \<not> stop_flag p \<and> lpc p \<in> {L_check, L_wait, L_woken})
     \<and> (tpc p \<in> {T_pipe, T_wait} \<longrightarrow> stop_flag p) \<and> (tpc p = T_wait \<longrightarrow> pipe_bytes p > 0)
     \<and> (tpc p \<in> {T_end, T_done} \<longrightarrow> lpc p = L_done)
     \<and> (listening p \<longleftrightarrow> lpc p \<noteq> L_done)"

interpretation ready: inductive_invariant "\<lambda>p. p = start_state L_check" protocol_step ready_inv
proof
  fix p q assume "ready_inv p" and "protocol_step p q"
  from this(2,1) show "ready_inv q"
    by (cases rule: protocol_step.cases) (auto simp: ready_inv_def split: if_splits)
qed (simp add: ready_inv_def)

text \<open>How many steps are left once the flag is stored.\<close>

fun l_rank :: "listen_pc \<Rightarrow> nat" where
  "l_rank L_start = 5" | "l_rank L_check = 4" | "l_rank L_wait = 3" | "l_rank L_woken = 2"
| "l_rank L_clean = 1" | "l_rank L_done = 0"

fun t_rank :: "terminate_pc \<Rightarrow> nat" where
  "t_rank T_read = 5" | "t_rank T_set = 4" | "t_rank T_pipe = 3" | "t_rank T_wait = 2"
| "t_rank T_end = 1" | "t_rank T_done = 0"

definition protocol_rank :: "protocol \<Rightarrow> nat" where
  "protocol_rank p = l_rank (lpc p) + t_rank (tpc p)"

lemma protocol_rank_decreases:
  assumes "ready_inv p" and "tpc p \<notin> {T_read, T_set}" and "protocol_step p q"
  shows "protocol_rank q < protocol_rank p \<and> tpc q \<notin> {T_read, T_set}"
  using assms(3,1,2)
  by (cases rule: protocol_step.cases; cases "tpc p") (auto simp: protocol_rank_def ready_inv_def)

section \<open>Properties\<close>

text \<open>
  C11. \<^verbatim>\<open>terminate\<close> called on a listening server works. No reachable state is stuck before both threads are
  done; from the moment the stop flag is stored every step brings both threads closer to their end; and
  when \<^verbatim>\<open>terminate\<close> returns, \<^verbatim>\<open>listen\<close> has finished its clean-up.
\<close>

theorem terminate_listening_server:
  assumes "reachable (\<lambda>p. p = start_state L_check) protocol_step p"
  shows "(lpc p = L_done \<and> tpc p = T_done \<or> enabled p)
    \<and> (tpc p \<notin> {T_read, T_set} \<and> protocol_step p q \<longrightarrow> protocol_rank q < protocol_rank p)
    \<and> (tpc p = T_done \<longrightarrow> lpc p = L_done)"
proof -
  have inv: "ready_inv p" using ready.reachable_inv [OF assms] .
  have "lpc p = L_done \<and> tpc p = T_done \<or> enabled p"
    using inv by (cases "lpc p"; cases "tpc p") (auto simp: ready_inv_def enabled_def)
  with inv protocol_rank_decreases [OF inv, of q] show ?thesis by (auto simp: ready_inv_def)
qed

theorem terminate_listening_server_witness:
  "reachable (\<lambda>p. p = start_state L_check) protocol_step (start_state L_check)
   \<and> (enabled (start_state L_check))"
proof -
  have r: "reachable (\<lambda>p. p = start_state L_check) protocol_step (start_state L_check)"
    by (rule reach_init) simp
  from terminate_listening_server [OF r] r show ?thesis by simp
qed

text \<open>
  \<^verbatim>\<open>terminate\<close> called before the server listens is lost: it returns, and the listening thread then waits
  in \<^verbatim>\<open>epoll_wait\<close> with nothing that would wake it.
\<close>

lemma terminate_before_listen_lost:
  "\<exists>p. reachable (\<lambda>p. p = start_state L_start) protocol_step p
     \<and> tpc p = T_done \<and> lpc p = L_wait \<and> listening p \<and> \<not> stop_flag p \<and> \<not> enabled p"
proof -
  let ?i = "\<lambda>p. p = start_state L_start"
  let ?p = "\<lambda>g l t. \<lparr>listening = g, stop_flag = False, pipe_bytes = 0, lpc = l, tpc = t\<rparr>"
  have "reachable ?i protocol_step (?p False L_start T_read)" by (rule reach_init) simp
  from reach_step [OF this t_read] have "reachable ?i protocol_step (?p False L_start T_end)" by simp
  from reach_step [OF this t_end] have "reachable ?i protocol_step (?p False L_start T_done)" by simp
  from reach_step [OF this l_ready] have "reachable ?i protocol_step (?p True L_check T_done)" by simp
  from reach_step [OF this l_check] have "reachable ?i protocol_step (?p True L_wait T_done)" by simp
  then show ?thesis by (intro exI [of _ "?p True L_wait T_done"]) (simp add: enabled_def)
qed

text \<open>
  A second \<^verbatim>\<open>ThreadedServer::start\<close> does not throw the exception it is documented to throw. The guard
  reads the flag of the decorator's own base class, which no code sets, and the program ends in
  \<^verbatim>\<open>std::terminate\<close>.
\<close>

lemma ThreadedServer_double_start:
  assumes "ThreadedServer_start_begin s = (None, s')"
    and "own_is_listening s'' = own_is_listening s'" and "workerThread s'' = workerThread s'"
  shows "ThreadedServer_start_begin s'' = (Some (Abort ''std::terminate''), s'')"
  using assms by (auto simp: ThreadedServer_start_begin_def split: if_splits)

definition demo_threaded :: "sim threaded_server" where
  "demo_threaded = ThreadedServer_new demo_server"

lemma ThreadedServer_double_start_witness:
  "ThreadedServer_start_begin (demo_threaded\<lparr>workerThread := True\<rparr>) =
     (Some (Abort ''std::terminate''), demo_threaded\<lparr>workerThread := True\<rparr>)"
proof -
  have "ThreadedServer_start_begin demo_threaded = (None, demo_threaded\<lparr>workerThread := True\<rparr>)"
    by (simp add: ThreadedServer_start_begin_def demo_threaded_def ThreadedServer_new_def
        server.extend_def threaded_server.fields_def)
  from ThreadedServer_double_start [OF this refl refl] show ?thesis .
qed

text \<open>
  After a complete \<^verbatim>\<open>stop\<close> the thread is joined and the flags of the server are reset, so the guard of
  \<^verbatim>\<open>start\<close> would let the server start again.
\<close>

lemma ThreadedServer_stop_resets:
  assumes "ThreadedServer_stop_end waited s = (None, s')"
  shows "\<not> workerThread s' \<and> \<not> stop_server s' \<and> \<not> is_listening s'"
  using assms by (auto simp: ThreadedServer_stop_end_def terminate_end_def Let_def split: if_splits)

lemma ThreadedServer_stop_resets_witness:
  "\<not> workerThread (snd (ThreadedServer_stop_end False (demo_threaded\<lparr>workerThread := True\<rparr>)))"
proof -
  have "ThreadedServer_stop_end False (demo_threaded\<lparr>workerThread := True\<rparr>) =
      (None, snd (ThreadedServer_stop_end False (demo_threaded\<lparr>workerThread := True\<rparr>)))"
    by (simp add: ThreadedServer_stop_end_def terminate_end_def)
  from ThreadedServer_stop_resets [OF this] show ?thesis by blast
qed

text \<open>
  C37. A \<^verbatim>\<open>ThreadedServer\<close> cannot be started again. After its thread has ended and \<^verbatim>\<open>stop\<close> has returned, the next \<^verbatim>\<open>start\<close>
  passes its guard and creates the thread, \<^verbatim>\<open>listen\<close> throws there because its clean-up has closed the listening
  socket, and as nothing catches the exception the program is terminated.
\<close>

theorem ThreadedServer_restart_aborts:
  assumes "\<And>f w. 0 \<le> f \<Longrightarrow> fst (fst (sys_close K f w)) \<noteq> -1"
    and "\<And>le t. -1 \<le> fd_no (listen_sock t) \<Longrightarrow> -1 \<le> fd_no (listen_sock (snd (callback le t)))"
    and "\<And>t. -1 \<le> fd_no (listen_sock t) \<Longrightarrow> -1 \<le> fd_no (listen_sock (snd (snd (wait t))))"
    and "0 \<le> fd_no (listen_sock s)"
    and "ThreadedServer_listen_worker K callback wait s = Some (None, s1)"
    and "ThreadedServer_stop_end waited s1 = (None, s2)" and "\<not> own_is_listening s1"
  shows "\<exists>s3. ThreadedServer_start_begin s2 = (None, s3)
    \<and> thread_main (ThreadedServer_listen_worker K callback' wait' s3) = Some (Some (Abort ''std::terminate''), s3)"
proof -
  have "fd_no (listen_sock s1) = -1"
    using listened_socket_closed [OF assms(1-4) assms(5) [unfolded ThreadedServer_listen_worker_def]] by blast
  moreover have s2: "listen_sock s2 = listen_sock s1" "own_is_listening s2 = own_is_listening s1" "\<not> workerThread s2"
    using assms(6) by (auto simp: ThreadedServer_stop_end_def terminate_end_def Let_def split: if_splits)
  ultimately show ?thesis using assms(7)
    by (simp add: ThreadedServer_start_begin_def ThreadedServer_listen_worker_def listen_closed_socket thread_main_def)
qed

definition running_threaded :: "sim threaded_server" where
  "running_threaded = (ThreadedServer_new fresh_server)\<lparr>workerThread := True\<rparr>"

definition ended_threaded :: "sim threaded_server" where
  "ended_threaded = snd (the (ThreadedServer_listen_worker eager_kernel (\<lambda>le s. (None, s)) stop_wait running_threaded))"

lemmas run_fresh = ThreadedServer_listen_worker_def IGenericServer_listen_def listen_setup_def Let_def syscall_eq
  running_threaded_def ThreadedServer_new_def server.extend_def threaded_server.fields_def fresh_server_def eager_kernel_def
  demo_server_def FileDescriptor_new_def sim_calls sim_alloc_def listen_loop.simps [of _ _ stop_wait] stop_wait_def
  run_on_return_def sim0_def

lemma threaded_fields_more:
  fixes s t :: "('w, 'z) threaded_server_scheme"
  assumes "server.more t = server.more s"
  shows "workerThread t = workerThread s" "own_is_listening t = own_is_listening s"
  using assms by (cases s; cases t; simp)+

lemma closeSockets_threaded [simp]:
  fixes s :: "('w, 'z) threaded_server_scheme"
  shows "workerThread (closeSockets K s) = workerThread s" "own_is_listening (closeSockets K s) = own_is_listening s"
  by (rule threaded_fields_more, simp)+

lemma running_threaded_ends:
  "ThreadedServer_listen_worker eager_kernel (\<lambda>le s. (None, s)) stop_wait running_threaded = Some (None, ended_threaded)"
  "workerThread ended_threaded" "\<not> own_is_listening ended_threaded"
  by (simp_all add: ended_threaded_def run_fresh)

theorem ThreadedServer_restart_aborts_witness:
  "\<exists>s3 :: sim threaded_server. thread_main (ThreadedServer_listen_worker eager_kernel (\<lambda>le s. (None, s)) stop_wait s3)
    = Some (Some (Abort ''std::terminate''), s3)"
proof -
  have "ThreadedServer_stop_end False ended_threaded
      = (None, (terminate_end ended_threaded)\<lparr>workerThread := False\<rparr>)"
    using running_threaded_ends(2) by (simp add: ThreadedServer_stop_end_def terminate_end_def)
  from ThreadedServer_restart_aborts [OF _ _ _ _ running_threaded_ends(1) this running_threaded_ends(3),
      of "\<lambda>le s. (None, s)" stop_wait]
  obtain s3 :: "sim threaded_server" where "thread_main (ThreadedServer_listen_worker eager_kernel (\<lambda>le s. (None, s)) stop_wait s3)
    = Some (Some (Abort ''std::terminate''), s3)"
    by (auto simp: eager_kernel_def stop_wait_def running_threaded_def ThreadedServer_new_def server.extend_def
        threaded_server.fields_def fresh_server_def demo_server_def)
  then show ?thesis by blast
qed

end
