(* ===== verification/SocketData.thy ===== *)
theory SocketData
  imports Nbuss_Prelude
begin

text \<open>
  Model of \<^verbatim>\<open>libnbuss/SocketData.h\<close> and \<^verbatim>\<open>libnbuss/SocketData.cpp\<close>: the data kept per socket, a FIFO queue
  of buffers waiting to be written and a counter that serves as a lock. The lock is studied under
  concurrency, with any number of threads that lock, clean up and release one \<^verbatim>\<open>SocketData\<close>.
\<close>

section \<open>Definitions\<close>

text \<open>A \<^verbatim>\<open>WriteItem\<close> is its bytes: \<^verbatim>\<open>data\<close> points at them and \<^verbatim>\<open>data_size\<close> is their number.\<close>

type_synonym write_item = "byte list"

record socket_data =
  uses :: int
  writeQueue :: "write_item list"

definition SocketData_new :: socket_data where
  "SocketData_new = \<lparr>uses = 0, writeQueue = []\<rparr>"

definition SocketData_cleanup_impl :: "socket_data \<Rightarrow> socket_data" where
  "SocketData_cleanup_impl sd = sd\<lparr>uses := 0, writeQueue := []\<rparr>"

text \<open>With \<^verbatim>\<open>useLock\<close> the same is done while holding the mutex of the counter.\<close>

definition SocketData_cleanup :: "bool \<Rightarrow> socket_data \<Rightarrow> socket_data" where
  "SocketData_cleanup useLock sd =
     (if useLock then SocketData_cleanup_impl sd else SocketData_cleanup_impl sd)"

text \<open>\<^verbatim>\<open>lock\<close> waits for as long as the counter is positive.\<close>

definition SocketData_lock :: "socket_data \<Rightarrow> socket_data outcome" where
  "SocketData_lock sd = (if uses sd > 0 then Inl Blocked else Inr (sd\<lparr>uses := uses sd + 1\<rparr>))"

definition SocketData_release :: "socket_data \<Rightarrow> socket_data" where
  "SocketData_release sd = sd\<lparr>uses := uses sd - 1\<rparr>"

lemmas SocketData_defs = SocketData_new_def SocketData_cleanup_impl_def SocketData_cleanup_def
  SocketData_lock_def SocketData_release_def

lemma SocketData_eval [nbuss_simps]:
  "SocketData_lock \<lparr>uses = u, writeQueue = q\<rparr> =
     (if u > 0 then Inl Blocked else Inr \<lparr>uses = u + 1, writeQueue = q\<rparr>)"
  "SocketData_release \<lparr>uses = u, writeQueue = q\<rparr> = \<lparr>uses = u - 1, writeQueue = q\<rparr>"
  "SocketData_cleanup b \<lparr>uses = u, writeQueue = q\<rparr> = \<lparr>uses = 0, writeQueue = []\<rparr>"
  by (simp_all add: SocketData_defs)

section \<open>Threads and a lock\<close>

text \<open>
  A state is the lock with the set of threads that are between \<^verbatim>\<open>lock\<close> and \<^verbatim>\<open>release\<close>. A thread that
  holds the lock may apply \<open>wipe\<close> to it, when there is such an operation.
\<close>

inductive lock_step ::
  "('l \<Rightarrow> 'l outcome) \<Rightarrow> ('l \<Rightarrow> 'l) \<Rightarrow> ('l \<Rightarrow> 'l) option \<Rightarrow> 'l \<times> nat set \<Rightarrow> 'l \<times> nat set \<Rightarrow> bool"
  for acq :: "'l \<Rightarrow> 'l outcome" and rel :: "'l \<Rightarrow> 'l" and wipe :: "('l \<Rightarrow> 'l) option"
where
  step_acquire: "t \<notin> H \<Longrightarrow> acq l = Inr l' \<Longrightarrow> lock_step acq rel wipe (l, H) (l', insert t H)"
| step_release: "t \<in> H \<Longrightarrow> lock_step acq rel wipe (l, H) (rel l, H - {t})"
| step_wipe: "t \<in> H \<Longrightarrow> wipe = Some f \<Longrightarrow> lock_step acq rel wipe (l, H) (f l, H)"

inductive_cases lock_stepE: "lock_step acq rel wipe (l, H) (l', H')"

section \<open>The contract of a lock\<close>

locale exclusive_lock =
  fixes acq :: "'l \<Rightarrow> 'l outcome" and rel :: "'l \<Rightarrow> 'l" and free held :: "'l \<Rightarrow> bool"
  assumes acquire_free: "free l \<Longrightarrow> \<exists>l'. acq l = Inr l' \<and> held l'"
    and acquire_held: "held l \<Longrightarrow> acq l = Inl Blocked"
    and release_held: "held l \<Longrightarrow> free (rel l)"
begin

text \<open>Either nobody holds the lock and it is free, or exactly one thread does and it is held.\<close>

abbreviation owned :: "'l \<times> nat set \<Rightarrow> bool" where
  "owned \<equiv> \<lambda>(l, H). H = {} \<and> free l \<or> (\<exists>t. H = {t}) \<and> held l"

lemma owned_step:
  assumes "owned s" and "lock_step acq rel None s s'"
  shows "owned s'"
  using assms(2,1)
proof (cases rule: lock_step.cases)
  case (step_acquire t H l l')
  with assms(1) have "free l" "H = {}" using acquire_held [of l] by auto
  with step_acquire acquire_free [of l] show ?thesis by auto
next
  case (step_release t H l)
  with assms(1) have "held l" "H = {t}" by auto
  with step_release release_held [of l] show ?thesis by auto
qed simp

end

sublocale exclusive_lock \<subseteq> holders: inductive_invariant
  "\<lambda>(l, H). free l \<and> H = {}" "lock_step acq rel None" owned
  by unfold_locales (use owned_step in auto)

context exclusive_lock
begin

lemma mutual_exclusion:
  assumes "reachable (\<lambda>(l, H). free l \<and> H = {}) (lock_step acq rel None) (l, H)"
    and "t \<in> H" and "u \<in> H"
  shows "t = u"
  using holders.reachable_inv [OF assms(1)] assms(2,3) by auto

text \<open>A free lock can be taken: no thread waits for a lock that nobody holds.\<close>

lemma no_stuck_waiter:
  assumes "reachable (\<lambda>(l, H). free l \<and> H = {}) (lock_step acq rel None) (l, {})"
  shows "\<exists>l'. acq l = Inr l'"
  using holders.reachable_inv [OF assms] acquire_free [of l] by auto

end

interpretation sd_lock: exclusive_lock SocketData_lock SocketData_release
  "\<lambda>sd. uses sd = 0" "\<lambda>sd. uses sd = 1"
  by unfold_locales (simp_all add: SocketData_lock_def SocketData_release_def)

section \<open>Cleaning up under the lock\<close>

abbreviation sd_step :: "socket_data \<times> nat set \<Rightarrow> socket_data \<times> nat set \<Rightarrow> bool" where
  "sd_step \<equiv> lock_step SocketData_lock SocketData_release (Some (SocketData_cleanup False))"

abbreviation sd_init :: "socket_data \<times> nat set \<Rightarrow> bool" where
  "sd_init \<equiv> \<lambda>(l, H). l = SocketData_new \<and> H = {}"

text \<open>One thread that locks, cleans up and releases, as \<^verbatim>\<open>ThreadedServer2::close\<close> does.\<close>

lemma sd_close_cycle:
  assumes "reachable sd_init sd_step (\<lparr>uses = 0, writeQueue = []\<rparr>, H)" and "t \<notin> H"
  shows "reachable sd_init sd_step (\<lparr>uses = -1, writeQueue = []\<rparr>, H)"
proof -
  let ?w = "\<lparr>uses = 1, writeQueue = []\<rparr> :: socket_data"
  have "reachable sd_init sd_step (?w, insert t H)"
    by (rule reach_step [OF assms(1) step_acquire [OF assms(2)]]) (simp add: nbuss_simps)
  from reach_step [OF this step_wipe [of t "insert t H" _ "SocketData_cleanup False"]]
  have "reachable sd_init sd_step (\<lparr>uses = 0, writeQueue = []\<rparr>, insert t H)"
    by (simp add: nbuss_simps)
  from reach_step [OF this step_release [of t "insert t H"]] assms(2) show ?thesis
    by (simp add: nbuss_simps)
qed

lemma sd_close_then_lock:
  assumes "reachable sd_init sd_step (\<lparr>uses = 0, writeQueue = []\<rparr>, H)" and "t \<notin> H"
  shows "reachable sd_init sd_step (\<lparr>uses = 0, writeQueue = []\<rparr>, insert t H)"
  by (rule reach_step [OF sd_close_cycle [OF assms] step_acquire [OF assms(2)]])
    (simp add: nbuss_simps)

lemma sd_init_reachable: "reachable sd_init sd_step (\<lparr>uses = 0, writeQueue = []\<rparr>, {})"
  by (rule reach_init) (simp add: SocketData_new_def)

section \<open>Properties\<close>

text \<open>
  C24. The lock of \<^verbatim>\<open>SocketData\<close> excludes: threads that only \<^verbatim>\<open>lock\<close> and \<^verbatim>\<open>release\<close>, in any number and any
  order, never hold it at the same time.
\<close>

theorem SocketData_mutual_exclusion:
  assumes "reachable (\<lambda>(l, H). uses l = 0 \<and> H = {})
      (lock_step SocketData_lock SocketData_release None) (sd, H)"
    and "t \<in> H" and "u \<in> H"
  shows "t = u"
  using assms by (rule sd_lock.mutual_exclusion)

theorem SocketData_mutual_exclusion_witness:
  "reachable (\<lambda>(l, H). uses l = 0 \<and> H = {})
      (lock_step SocketData_lock SocketData_release None) (\<lparr>uses = 1, writeQueue = []\<rparr>, {7})
   \<and> {7} \<subseteq> {t. t = (7 :: nat)}"
proof -
  have "reachable (\<lambda>(l, H). uses l = 0 \<and> H = {})
      (lock_step SocketData_lock SocketData_release None) (\<lparr>uses = 0, writeQueue = []\<rparr>, {})"
    by (rule reach_init) simp
  from reach_step [OF this step_acquire [of 7]]
  have r: "reachable (\<lambda>(l, H). uses l = 0 \<and> H = {})
      (lock_step SocketData_lock SocketData_release None) (\<lparr>uses = 1, writeQueue = []\<rparr>, {7})"
    by (simp add: nbuss_simps)
  have "t = 7" if "t \<in> {7 :: nat}" for t using SocketData_mutual_exclusion [OF r that] by simp
  with r show ?thesis by blast
qed

text \<open>
  C26. \<^verbatim>\<open>cleanup\<close> under the lock breaks it. \<^verbatim>\<open>ThreadedServer2::close\<close> and \<^verbatim>\<open>ThreadedServer2::cleanup\<close> set the
  counter to zero between \<^verbatim>\<open>lock\<close> and \<^verbatim>\<open>release\<close>, so \<^verbatim>\<open>release\<close> makes it negative: every number of threads
  can then hold the lock together.
\<close>

theorem SocketData_cleanup_breaks_lock:
  "\<exists>sd H. reachable sd_init sd_step (sd, H) \<and> finite H \<and> card H = n"
proof -
  have "reachable sd_init sd_step (\<lparr>uses = 0, writeQueue = []\<rparr>, {..<n})"
  proof (induction n)
    case (Suc n)
    from sd_close_then_lock [OF Suc, of n] show ?case by (simp add: lessThan_Suc)
  qed (simp add: sd_init_reachable)
  then show ?thesis by (intro exI [of _ "\<lparr>uses = 0, writeQueue = []\<rparr>"] exI [of _ "{..<n}"]) simp
qed

text \<open>
  Also with no two threads at work: after one complete \<^verbatim>\<open>close\<close>, when nobody holds the lock, the
  counter that is documented to be at least zero is \<open>-1\<close>.
\<close>

lemma SocketData_negative_uses:
  "\<exists>sd. reachable sd_init sd_step (sd, {}) \<and> uses sd = -1"
  using sd_close_cycle [OF sd_init_reachable, of 0] by fastforce

end
