(* ===== verification/ThreadedServer2.thy ===== *)
theory ThreadedServer2
  imports Listen SocketData IThreadable
begin

text \<open>
  Model of \<^verbatim>\<open>libnbuss/ThreadedServer2.h\<close> and \<^verbatim>\<open>libnbuss/ThreadedServer2.cpp\<close>: a server whose \<^verbatim>\<open>listen\<close> runs in a
  thread of its own and which has a second thread that writes the queued buffers of the sockets that
  become writable. The record extends \<open>server\<close>: the reference to the server becomes part of the
  state. The write queue worker is a client of the server's \<^verbatim>\<open>write\<close>, whose contract is the locale
  \<open>stream_writer\<close>.
\<close>

section \<open>State\<close>

text \<open>The two threads are kept as the answer of \<^verbatim>\<open>std::thread::joinable\<close>.\<close>

record 'w ts2 = "'w server" +
  running :: bool
  stopServer :: bool
  listenWorkerThread :: bool
  writerWorkerThread :: bool
  internalSocketData :: "fd \<rightharpoonup> socket_data"
  readyToWriteSet :: "fd set"

definition ThreadedServer2_new :: "'w server \<Rightarrow> 'w ts2" where
  "ThreadedServer2_new s = server.extend s (ts2.fields False False False False Map.empty {})"

definition get_socket_data ::
  "fd \<Rightarrow> ('w, 'z) ts2_scheme \<Rightarrow> socket_data \<times> ('w, 'z) ts2_scheme" where
  "get_socket_data fd s =
     (let (sd, m) = map_at (internalSocketData s) fd SocketData_new
      in (sd, s\<lparr>internalSocketData := m\<rparr>))"

text \<open>What is done to the object behind the reference that \<^verbatim>\<open>get_socket_data\<close> returned.\<close>

definition put_socket_data ::
  "fd \<Rightarrow> socket_data \<Rightarrow> ('w, 'z) ts2_scheme \<Rightarrow> ('w, 'z) ts2_scheme" where
  "put_socket_data fd sd s = s\<lparr>internalSocketData := (internalSocketData s)(fd \<mapsto> sd)\<rparr>"

section \<open>Cleaning up and closing\<close>

definition ThreadedServer2_cleanup ::
  "fd \<Rightarrow> ('w, 'z) ts2_scheme \<Rightarrow> abrupt option \<times> ('w, 'z) ts2_scheme" where
  "ThreadedServer2_cleanup fd s =
     (let (sd, s1) = get_socket_data fd s in
      case SocketData_lock sd of
        Inl a \<Rightarrow> (Some a, s1)
      | Inr sd1 \<Rightarrow> (None, put_socket_data fd (SocketData_release (SocketData_cleanup False sd1)) s1))"

definition ThreadedServer2_close ::
  "'w kernel \<Rightarrow> fd \<Rightarrow> ('w, 'z) ts2_scheme \<Rightarrow> abrupt option \<times> ('w, 'z) ts2_scheme" where
  "ThreadedServer2_close K fd s =
     (case remove_from_epoll K fd False s of
        (Inl a, s1) \<Rightarrow> (Some a, s1)
      | (Inr e, s1) \<Rightarrow>
          (let (sd, s2) = get_socket_data fd s1 in
           case SocketData_lock sd of
             Inl a \<Rightarrow> (Some a, s2)
           | Inr sd1 \<Rightarrow>
               (let sd2 = SocketData_cleanup False sd1;
                    s3 = put_socket_data fd sd2 s2;
                    s4 = IGenericServer_close K fd s3
                in (None, put_socket_data fd (SocketData_release sd2) s4))))"

section \<open>Events\<close>

text \<open>The callback of the user gets the event with \<^verbatim>\<open>srv\<close> pointing at this object.\<close>

definition internal_callback ::
  "('w, 'z ts2_ext) callback \<Rightarrow> listen_event \<Rightarrow> ('w, 'z) ts2_scheme
    \<Rightarrow> abrupt option \<times> ('w, 'z) ts2_scheme" where
  "internal_callback callback_function le0 s =
     (let le = le0\<lparr>srv := Is_ThreadedServer2\<rparr> in
      case job le of
        AVAILABLE_FOR_READ_AND_WRITE \<Rightarrow>
          callback_function (le\<lparr>job := AVAILABLE_FOR_READ\<rparr>)
            (s\<lparr>readyToWriteSet := insert (le_fd le) (readyToWriteSet s)\<rparr>)
      | NEW_SOCKET \<Rightarrow> callback_function le (snd (get_socket_data (le_fd le) s))
      | CLOSE_SOCKET \<Rightarrow> callback_function le s
      | AVAILABLE_FOR_WRITE \<Rightarrow>
          (None, s\<lparr>readyToWriteSet := insert (le_fd le) (readyToWriteSet s)\<rparr>)
      | AVAILABLE_FOR_READ \<Rightarrow> callback_function le s
      | SOCKET_IS_CLOSED \<Rightarrow>
          (case ThreadedServer2_cleanup (le_fd le) s of
             (Some a, s1) \<Rightarrow> (Some a, s1)
           | (None, s1) \<Rightarrow> callback_function le s1))"

definition listen_worker ::
  "'w kernel \<Rightarrow> ('w, 'z ts2_ext) callback
    \<Rightarrow> (('w, 'z) ts2_scheme \<Rightarrow> int \<times> epoll_event list \<times> ('w, 'z) ts2_scheme)
    \<Rightarrow> ('w, 'z) ts2_scheme \<Rightarrow> (abrupt option \<times> ('w, 'z) ts2_scheme) option" where
  "listen_worker K callback_function wait s =
     IGenericServer_listen K (internal_callback callback_function) wait s"

section \<open>Writing\<close>

text \<open>
  The body of \<^verbatim>\<open>write\<close> between getting the queue and releasing the mutex: \<open>q\<close> is the value of the
  variable \<^verbatim>\<open>writeQueue\<close>; the second component is its value at the end. The three branches after
  \<^verbatim>\<open>server.write\<close> are those of the source; a result above \<^verbatim>\<open>data_size\<close> falls through all of them.
\<close>

definition write_critical_section ::
  "(fd \<Rightarrow> byte list \<Rightarrow> 's \<Rightarrow> int \<times> errno \<times> 's) \<Rightarrow> fd \<Rightarrow> byte list \<Rightarrow> write_item list \<Rightarrow> 's
    \<Rightarrow> int \<times> write_item list \<times> 's" where
  "write_critical_section server_write fd data q s =
     (let original_data_size = int (length data) in
      if q = [] then
        (let (bytesWritten, e, s1) = server_write fd data s in
         if bytesWritten = int (length data) then (bytesWritten, q, s1)
         else if bytesWritten = -1 then (original_data_size, push_front data q, s1)
         else if bytesWritten < int (length data)
           then (original_data_size, push_front (drop (nat bytesWritten) data) q, s1)
         else (original_data_size, push_front data q, s1))
      else (original_data_size, push_front data q, s))"

text \<open>
  \<^verbatim>\<open>auto writeQueue = sd.getWriteQueue()\<close> declares a variable of type \<^verbatim>\<open>std::deque\<close>, a copy of the queue:
  what the critical section leaves in it is gone when \<^verbatim>\<open>write\<close> returns.
\<close>

definition ThreadedServer2_write ::
  "'w kernel \<Rightarrow> fd \<Rightarrow> byte list \<Rightarrow> ('w, 'z) ts2_scheme \<Rightarrow> int \<times> ('w, 'z) ts2_scheme" where
  "ThreadedServer2_write K fd data s =
     (let (sd, s1) = get_socket_data fd s;
          (r, q, s2) = write_critical_section (IGenericServer_write K) fd data (writeQueue sd) s1
      in (r, s2))"

definition ThreadedServer2_write_vector ::
  "('t \<Rightarrow> byte list) \<Rightarrow> 'w kernel \<Rightarrow> fd \<Rightarrow> 't list \<Rightarrow> ('w, 'z) ts2_scheme
    \<Rightarrow> int \<times> ('w, 'z) ts2_scheme" where
  "ThreadedServer2_write_vector enc K fd data s =
     ThreadedServer2_write K fd (concat (map enc data)) s"

section \<open>The write queue worker\<close>

definition write_holding_lock ::
  "(fd \<Rightarrow> byte list \<Rightarrow> 's \<Rightarrow> int \<times> errno \<times> 's) \<Rightarrow> fd \<Rightarrow> write_item \<Rightarrow> write_item list \<Rightarrow> 's
    \<Rightarrow> int \<times> write_item list \<times> 's" where
  "write_holding_lock server_write fd item q s =
     (let (bytesWritten, e, s1) = server_write fd item s in
      if bytesWritten = int (length item) then (bytesWritten, q, s1)
      else if bytesWritten = -1 then (-1, push_back item q, s1)
      else if bytesWritten < int (length item)
        then (-1, push_back (drop (nat bytesWritten) item) q, s1)
      else (-1, push_back item q, s1))"

lemma write_holding_lock_popped:
  "write_holding_lock wr fd item q s = (res, q', s') \<Longrightarrow> res \<noteq> -1 \<Longrightarrow> q' = q"
  by (auto simp: write_holding_lock_def Let_def split: prod.splits if_splits)

text \<open>The inner loop of the worker.\<close>

function drain ::
  "(fd \<Rightarrow> byte list \<Rightarrow> 's \<Rightarrow> int \<times> errno \<times> 's) \<Rightarrow> fd \<Rightarrow> write_item list \<Rightarrow> 's
    \<Rightarrow> write_item list \<times> 's" where
  "drain server_write fd q s =
     (case take_back q of
        None \<Rightarrow> (q, s)
      | Some (item, q1) \<Rightarrow>
          (let (res, q2, s2) = write_holding_lock server_write fd item q1 s in
           if res = -1 then (q2, s2) else drain server_write fd q2 s2))"
  by pat_completeness auto
termination
  by (relation "measure (\<lambda>(wr, fd, q, s). length q)")
    (auto dest!: write_holding_lock_popped length_take_back sym [of "(_, _, _)" "write_holding_lock _ _ _ _ _"])

declare drain.simps [simp del]

text \<open>
  One turn of the outer loop. It ends the thread (\<open>Inr False\<close>), goes on (\<open>Inr True\<close>), or waits: on the
  condition variable while no socket is ready, or on the lock of the socket's data. The set is
  ordered, so its first element is its least.
\<close>

definition write_queue_worker_turn ::
  "'w kernel \<Rightarrow> ('w, 'z) ts2_scheme \<Rightarrow> bool outcome \<times> ('w, 'z) ts2_scheme" where
  "write_queue_worker_turn K s =
     (if stopServer s then (Inr False, s)
      else if readyToWriteSet s = {} then (Inl Blocked, s)
      else let fd = Min (readyToWriteSet s);
               s1 = s\<lparr>readyToWriteSet := readyToWriteSet s - {fd}\<rparr>;
               (sd, s2) = get_socket_data fd s1 in
        case SocketData_lock sd of
          Inl a \<Rightarrow> (Inl a, s2)
        | Inr sd1 \<Rightarrow>
            (let (q, s3) = drain (IGenericServer_write K) fd (writeQueue sd1) s2
             in (Inr True, put_socket_data fd (SocketData_release (sd1\<lparr>writeQueue := q\<rparr>)) s3)))"

section \<open>Starting and stopping\<close>

text \<open>
  \<^verbatim>\<open>start\<close> up to the point where it waits for the server, and after. Assigning to a thread that is
  still joinable calls \<^verbatim>\<open>std::terminate\<close>.
\<close>

definition ThreadedServer2_start_begin ::
  "('w, 'z) ts2_scheme \<Rightarrow> abrupt option \<times> ('w, 'z) ts2_scheme" where
  "ThreadedServer2_start_begin s =
     (if running s then (Some (Throw (Runtime_error ''server is already running'')), s)
      else let s1 = s\<lparr>readyToWriteSet := {}\<rparr> in
        if writerWorkerThread s1 \<or> listenWorkerThread s1
        then (Some (Abort ''std::terminate''), s1)
        else (None, s1\<lparr>writerWorkerThread := True, listenWorkerThread := True\<rparr>))"

definition ThreadedServer2_start_end ::
  "('w, 'z) ts2_scheme \<Rightarrow> abrupt option \<times> ('w, 'z) ts2_scheme" where
  "ThreadedServer2_start_end s =
     (case wait_for_server_ready s of
        Inl a \<Rightarrow> (Some a, s)
      | Inr u \<Rightarrow> (None, s\<lparr>running := True\<rparr>))"

text \<open>
  \<^verbatim>\<open>stop\<close> up to the wait inside \<^verbatim>\<open>terminate\<close>, and from there to its end. \<open>waited\<close> is the flag that
  \<open>terminate_begin\<close> gave; the wait ends when the server no longer listens. The two \<^verbatim>\<open>join\<close>s return when
  the threads have ended, and throw when a thread is not joinable.
\<close>

definition ThreadedServer2_stop_begin ::
  "'w kernel \<Rightarrow> ('w, 'z) ts2_scheme \<Rightarrow> bool \<times> ('w, 'z) ts2_scheme" where
  "ThreadedServer2_stop_begin K s = terminate_begin K (s\<lparr>stopServer := True\<rparr>)"

definition ThreadedServer2_stop_end ::
  "bool \<Rightarrow> ('w, 'z) ts2_scheme \<Rightarrow> abrupt option \<times> ('w, 'z) ts2_scheme" where
  "ThreadedServer2_stop_end waited s =
     (if waited \<and> is_listening s then (Some Blocked, s)
      else let s1 = terminate_end s in
      if \<not> listenWorkerThread s1 then (Some (Throw (System_error ''Invalid argument'')), s1)
      else let s2 = s1\<lparr>listenWorkerThread := False\<rparr> in
      if \<not> writerWorkerThread s2 then (Some (Throw (System_error ''Invalid argument'')), s2)
      else (None, s2\<lparr>writerWorkerThread := False, running := False\<rparr>))"

interpretation threaded2: threadable ThreadedServer2_start_begin ThreadedServer2_stop_end
    "\<lambda>s. listenWorkerThread s \<or> writerWorkerThread s"
  by unfold_locales
    (auto simp: ThreadedServer2_start_begin_def ThreadedServer2_stop_end_def terminate_end_def Let_def split: if_splits)

section \<open>The contract of the server's write\<close>

text \<open>
  A write sends a prefix of the data to that descriptor only. A result other than \<open>-1\<close> is the
  length of the prefix, and \<open>-1\<close> with \<^verbatim>\<open>EAGAIN\<close> means that it is empty.
\<close>

locale stream_writer =
  fixes wr :: "fd \<Rightarrow> byte list \<Rightarrow> 's \<Rightarrow> int \<times> errno \<times> 's"
    and stream :: "'s \<Rightarrow> fd \<Rightarrow> byte list"
  assumes wr_prefix: "wr fd data s = (r, e, s') \<Longrightarrow>
    \<exists>k \<le> length data. stream s' fd = stream s fd @ take k data
      \<and> (\<forall>g. g \<noteq> fd \<longrightarrow> stream s' g = stream s g)
      \<and> (r = int k \<or> r = -1) \<and> (r = -1 \<and> e = EAGAIN \<longrightarrow> k = 0)"

text \<open>A socket on which the only failure is \<^verbatim>\<open>EAGAIN\<close>: its peer does not go away.\<close>

locale reliable_writer = stream_writer +
  fixes fd :: fd
  assumes wr_fails: "wr fd data s = (-1, e, s') \<Longrightarrow> e = EAGAIN"
begin

lemma wr_result:
  assumes "wr fd data s = (r, e, s')"
  shows "stream s' fd = stream s fd @ take (nat r) data \<and> -1 \<le> r \<and> r \<le> int (length data)
    \<and> (\<forall>g. g \<noteq> fd \<longrightarrow> stream s' g = stream s g)"
  using wr_prefix [OF assms] wr_fails [of data s] assms by auto

lemma write_critical_section_keeps:
  assumes "write_critical_section wr fd data q s = (r, q', s')"
  shows "stream s' fd @ concat (rev q') = stream s fd @ concat (rev q) @ data
    \<and> r = int (length data)"
proof (cases "q = []")
  case True
  obtain b e s1 where w: "wr fd data s = (b, e, s1)" by (cases "wr fd data s")
  from wr_result [OF w] assms True w show ?thesis
    by (auto simp: write_critical_section_def push_front_def Let_def split: if_splits)
next
  case False
  with assms show ?thesis by (auto simp: write_critical_section_def push_front_def)
qed

lemma write_holding_lock_keeps:
  assumes "write_holding_lock wr fd item q s = (r, q', s')"
  shows "stream s' fd @ concat (rev q') = stream s fd @ concat (rev (q @ [item]))
    \<and> (\<forall>g. g \<noteq> fd \<longrightarrow> stream s' g = stream s g)"
proof -
  obtain b e s1 where w: "wr fd item s = (b, e, s1)" by (cases "wr fd item s")
  from wr_result [OF w] assms w show ?thesis
    by (auto simp: write_holding_lock_def push_back_def Let_def split: if_splits)
qed

text \<open>The worker sends the queue in order: stream and queue together do not change.\<close>

lemma drain_fifo:
  assumes "drain wr fd q s = (q', s')"
  shows "stream s' fd @ concat (rev q') = stream s fd @ concat (rev q)
    \<and> (\<forall>g. g \<noteq> fd \<longrightarrow> stream s' g = stream s g)"
  using assms
proof (induction "length q" arbitrary: q s rule: less_induct)
  case less
  show ?case
  proof (cases "take_back q")
    case None
    with less.prems show ?thesis by (simp add: drain.simps [of wr fd q])
  next
    case (Some p)
    obtain item q1 where p: "p = (item, q1)" by (cases p)
    with Some have q: "q = q1 @ [item]" by (simp add: take_back_SomeD)
    obtain r q2 s2 where w: "write_holding_lock wr fd item q1 s = (r, q2, s2)"
      by (cases "write_holding_lock wr fd item q1 s")
    note k = write_holding_lock_keeps [OF w]
    show ?thesis
    proof (cases "r = -1")
      case True
      with less.prems Some p w k q show ?thesis by (auto simp: drain.simps [of wr fd "q1 @ [item]"])
    next
      case False
      with w have "q2 = q1" by (rule write_holding_lock_popped)
      with less.prems Some p w False less.hyps [of q1 s2] q k show ?thesis
        by (simp add: drain.simps [of wr fd "q1 @ [item]"])
    qed
  qed
qed

text \<open>And it stops only when the queue is empty or the socket takes no more.\<close>

lemma drain_empties:
  assumes "\<And>item t. item \<in> set q \<Longrightarrow> fst (wr fd item t) = int (length item)"
  shows "fst (drain wr fd q s) = []"
  using assms
proof (induction q arbitrary: s rule: rev_induct)
  case (snoc x q)
  obtain e s1 where w: "wr fd x s = (int (length x), e, s1)"
    using snoc.prems [of x s] by (cases "wr fd x s") auto
  have "drain wr fd (q @ [x]) s = drain wr fd q s1"
    using w by (simp add: drain.simps [of wr fd "q @ [x]"] write_holding_lock_def)
  with snoc show ?case by simp
qed (simp add: drain.simps)

end

sublocale write_syscall \<subseteq> server_writer: stream_writer "IGenericServer_write K" "\<lambda>s. sent (kern s)"
  by unfold_locales (rule IGenericServer_write_sent)

lemma write_loop_fails:
  assumes "\<And>d w e w'. sys_write K fd d w = ((-1, e), w') \<Longrightarrow> e = EAGAIN"
    and "write_loop K fd p k s = (-1, k', s')"
  shows "errno s' = EAGAIN"
  using assms(2)
proof (induction "length p" arbitrary: p k s rule: less_induct)
  case less
  obtain c e w where c: "sys_write K fd p (kern s) = ((c, e), w)" by (metis surj_pair)
  then have s: "syscall (sys_write K fd p) s = (c, s\<lparr>kern := w, errno := if c = -1 then e else errno s\<rparr>)"
    by (simp add: syscall_def)
  show ?case
  proof (cases "0 < c \<and> c < int (length p)")
    case True
    with less.prems s less.hyps [of "drop (nat c) p"] show ?thesis
      by (auto simp: write_loop.simps [of K fd p])
  next
    case False
    with less.prems s have "c = -1" "errno s' = e" by (auto simp: write_loop.simps [of K fd p])
    with assms(1) c show ?thesis by simp
  qed
qed

text \<open>Such a socket in terms of the kernel makes the server's \<^verbatim>\<open>write\<close> a reliable writer.\<close>

locale eagain_socket = write_syscall +
  fixes fd :: fd
  assumes valid: "fd \<noteq> -1"
    and write_eagain: "sys_write K fd d w = ((-1, e), w') \<Longrightarrow> e = EAGAIN"

sublocale eagain_socket \<subseteq> reliable_writer "IGenericServer_write K" "\<lambda>s. sent (kern s)" fd
proof
  fix data e and s s' :: "('a, 'b) server_scheme"
  assume w: "IGenericServer_write K fd data s = (-1, e, s')"
  obtain c k s1 where l: "write_loop K fd data 0 (set_IO fd s) = (c, k, s1)"
    by (cases "write_loop K fd data 0 (set_IO fd s)")
  with w valid have "c = -1" "s' = s1" "e = errno s1"
    by (auto simp: IGenericServer_write_def split: if_splits)
  with l have "write_loop K fd data 0 (set_IO fd s) = (-1, k, s1)" by simp
  from write_loop_fails [OF _ this] write_eagain \<open>e = errno s1\<close> show "e = EAGAIN" by blast
qed

context eagain_socket
begin

lemmas socket_write_keeps = write_critical_section_keeps
lemmas socket_write_result = wr_result
lemmas socket_drain_fifo = drain_fifo
lemmas socket_drain_empties = drain_empties

end

text \<open>The reference kernel without resets, on which every socket is of that kind.\<close>

definition steady_kernel :: "sim kernel" where
  "steady_kernel = sim_kernel\<lparr>sys_write := (\<lambda>f d w.
     if d \<noteq> [] \<and> room w f = 0 then ((-1, EAGAIN), w)
     else (let n = min (room w f) (length d) in
        ((int n, 0), w\<lparr>room := (room w)(f := room w f - n), out := (out w)(f := out w f @ take n d)\<rparr>)))\<rparr>"

interpretation steady: eagain_socket steady_kernel out 5
  by unfold_locales (auto simp: steady_kernel_def Let_def min_def split: if_splits)

section \<open>Frames\<close>

lemma ts2_frame:
  fixes s s' :: "('w, 'z) ts2_scheme"
  assumes "server.more s' = server.more s"
  shows "internalSocketData s' = internalSocketData s" "readyToWriteSet s' = readyToWriteSet s"
    "stopServer s' = stopServer s" "running s' = running s"
    "listenWorkerThread s' = listenWorkerThread s" "writerWorkerThread s' = writerWorkerThread s"
  using assms by (cases s; cases s'; simp)+

lemma write_ts2_frame:
  fixes s :: "('w, 'z) ts2_scheme"
  assumes "IGenericServer_write K fd data s = (r, e, s')"
  shows "internalSocketData s' = internalSocketData s" "readyToWriteSet s' = readyToWriteSet s"
    "stopServer s' = stopServer s"
  using ts2_frame [OF server_more_write [OF assms]] by simp_all

lemma close_ts2_frame [simp]:
  fixes s :: "('w, 'z) ts2_scheme"
  shows "internalSocketData (IGenericServer_close K fd s) = internalSocketData s"
    "readyToWriteSet (IGenericServer_close K fd s) = readyToWriteSet s"
  using ts2_frame [of "IGenericServer_close K fd s" s] by (simp_all add: IGenericServer_close_fields)

lemma remove_ts2_frame [simp]:
  fixes s :: "('w, 'z) ts2_scheme"
  shows "internalSocketData (snd (remove_from_epoll K fd b s)) = internalSocketData s"
    "readyToWriteSet (snd (remove_from_epoll K fd b s)) = readyToWriteSet s"
  by (simp_all add: remove_from_epoll_def Let_def syscall_eq)

lemma drain_ts2_frame:
  fixes s :: "('w, 'z) ts2_scheme"
  shows "internalSocketData (snd (drain (IGenericServer_write K) fd q s)) = internalSocketData s
    \<and> readyToWriteSet (snd (drain (IGenericServer_write K) fd q s)) = readyToWriteSet s
    \<and> stopServer (snd (drain (IGenericServer_write K) fd q s)) = stopServer s"
proof (induction "length q" arbitrary: q s rule: less_induct)
  case less
  show ?case
  proof (cases "take_back q")
    case None
    then show ?thesis by (simp add: drain.simps [of _ _ q])
  next
    case (Some p)
    obtain item q1 where p: "p = (item, q1)" by (cases p)
    obtain b e s1 where w: "IGenericServer_write K fd item s = (b, e, s1)"
      by (cases "IGenericServer_write K fd item s")
    from Some p have "length q1 < length q" by (simp add: length_take_back)
    from less [OF this, of s1] write_ts2_frame [OF w] Some p w show ?thesis
      by (simp add: drain.simps [of _ _ q] write_holding_lock_def)
  qed
qed

lemma get_socket_data_eq:
  "get_socket_data fd s = (case internalSocketData s fd of
      Some sd \<Rightarrow> (sd, s)
    | None \<Rightarrow> (SocketData_new, put_socket_data fd SocketData_new s))"
  by (simp add: get_socket_data_def put_socket_data_def split: option.split)

lemma get_socket_data_frame:
  assumes "get_socket_data fd s = (sd, s')"
  shows "kern s' = kern s" "activeConnections s' = activeConnections s"
    "(internalSocketData s')(fd \<mapsto> x) = (internalSocketData s)(fd \<mapsto> x)"
  using assms by (auto simp: get_socket_data_eq put_socket_data_def split: option.splits)

section \<open>The write queues stay empty\<close>

definition queues_empty :: "('w, 'z) ts2_scheme \<Rightarrow> bool" where
  "queues_empty s \<longleftrightarrow> (\<forall>sd \<in> ran (internalSocketData s). writeQueue sd = [])"

lemma queues_empty_put:
  "queues_empty s \<Longrightarrow> writeQueue sd = [] \<Longrightarrow> queues_empty (put_socket_data fd sd s)"
  by (auto simp: queues_empty_def put_socket_data_def ran_def)

lemma queues_empty_get:
  assumes "queues_empty s" and "get_socket_data fd s = (sd, s')"
  shows "queues_empty s' \<and> writeQueue sd = []"
  using assms queues_empty_put [OF assms(1), of SocketData_new fd]
  by (auto simp: get_socket_data_eq SocketData_new_def queues_empty_def ran_def split: option.splits)

lemma queues_empty_cong:
  "queues_empty s \<Longrightarrow> internalSocketData s' = internalSocketData s \<Longrightarrow> queues_empty s'"
  by (simp add: queues_empty_def)

lemma SocketData_lock_queue: "SocketData_lock sd = Inr sd' \<Longrightarrow> writeQueue sd' = writeQueue sd"
  by (auto simp: SocketData_lock_def split: if_splits)

text \<open>
  What the threads of a program that uses \<^verbatim>\<open>ThreadedServer2\<close> do, one operation at a time: the user's
  calls, the events and the turns of the worker. What a callback of the user does are more steps.
\<close>

inductive ts2_step ::
  "'w kernel \<Rightarrow> ('w, 'z) ts2_scheme \<Rightarrow> ('w, 'z) ts2_scheme \<Rightarrow> bool" for K :: "'w kernel" where
  step_write: "ts2_step K s (snd (ThreadedServer2_write K fd data s))"
| step_close: "ts2_step K s (snd (ThreadedServer2_close K fd s))"
| step_event: "ts2_step K s (snd (internal_callback (\<lambda>le s. (None, s)) le s))"
| step_worker: "ts2_step K s (snd (write_queue_worker_turn K s))"
| step_read: "IGenericServer_read K fd n s = Some (bs, s') \<Longrightarrow> ts2_step K s s'"

lemma queues_empty_write:
  assumes "queues_empty s"
  shows "queues_empty (snd (ThreadedServer2_write K fd data s))"
proof -
  obtain sd s1 where g: "get_socket_data fd s = (sd, s1)" by (cases "get_socket_data fd s")
  obtain b e s2 where w: "IGenericServer_write K fd data s1 = (b, e, s2)"
    by (cases "IGenericServer_write K fd data s1")
  from queues_empty_get [OF assms g] queues_empty_cong [OF _ write_ts2_frame(1) [OF w]] g w
  show ?thesis by (simp add: ThreadedServer2_write_def write_critical_section_def Let_def)
qed

lemma queues_empty_cleanup:
  assumes "queues_empty s"
  shows "queues_empty (snd (ThreadedServer2_cleanup fd s))"
proof -
  obtain sd s1 where g: "get_socket_data fd s = (sd, s1)" by (cases "get_socket_data fd s")
  from queues_empty_get [OF assms g] g show ?thesis
    by (auto simp: ThreadedServer2_cleanup_def SocketData_defs intro: queues_empty_put)
qed

lemma queues_empty_close:
  assumes "queues_empty s"
  shows "queues_empty (snd (ThreadedServer2_close K fd s))"
proof -
  obtain r s1 where rm: "remove_from_epoll K fd False s = (r, s1)"
    by (cases "remove_from_epoll K fd False s")
  have "queues_empty s1"
    using queues_empty_cong [OF assms remove_ts2_frame(1) [of K fd False s]] rm by simp
  moreover obtain sd s2 where g: "get_socket_data fd s1 = (sd, s2)" by (cases "get_socket_data fd s1")
  ultimately have q: "queues_empty s2" "queues_empty s1" using queues_empty_get by blast+
  have "queues_empty (put_socket_data fd x (IGenericServer_close K fd (put_socket_data fd y s2)))"
    if "writeQueue x = []" "writeQueue y = []" for x y
    using that queues_empty_cong [OF queues_empty_put [OF q(1) that(2)] close_ts2_frame(1)]
    by (intro queues_empty_put)
  with q rm g show ?thesis
    by (cases r) (auto simp: ThreadedServer2_close_def SocketData_defs Let_def)
qed

lemma queues_empty_worker:
  assumes "queues_empty s"
  shows "queues_empty (snd (write_queue_worker_turn K s))
    \<and> kern (snd (write_queue_worker_turn K s)) = kern s"
proof (cases "stopServer s \<or> readyToWriteSet s = {}")
  case True
  with assms show ?thesis by (auto simp: write_queue_worker_turn_def)
next
  case False
  let ?fd = "Min (readyToWriteSet s)"
  let ?s1 = "s\<lparr>readyToWriteSet := readyToWriteSet s - {?fd}\<rparr>"
  obtain sd s2 where g: "get_socket_data ?fd ?s1 = (sd, s2)" by (cases "get_socket_data ?fd ?s1")
  have "queues_empty ?s1" using assms by (simp add: queues_empty_def)
  note e = queues_empty_get [OF this g]
  have k: "kern s2 = kern s"
    using g by (auto simp: get_socket_data_eq put_socket_data_def split: option.splits)
  show ?thesis
  proof (cases "SocketData_lock sd")
    case (Inl a)
    with False g e k show ?thesis by (simp add: write_queue_worker_turn_def Let_def)
  next
    case (Inr sd1)
    with e have "writeQueue sd1 = []" by (simp add: SocketData_lock_queue)
    moreover have "queues_empty (put_socket_data ?fd (SocketData_release (sd1\<lparr>writeQueue := []\<rparr>)) s2)"
      using e by (simp add: queues_empty_put SocketData_release_def)
    ultimately show ?thesis using False g e k Inr
      by (simp add: write_queue_worker_turn_def Let_def drain.simps put_socket_data_def)
  qed
qed

lemma queues_empty_event:
  assumes "queues_empty s"
  shows "queues_empty (snd (internal_callback (\<lambda>le s. (None, s)) le s))"
  using assms queues_empty_cleanup [OF assms, of "le_fd le"] queues_empty_get [OF assms, of "le_fd le"]
  by (cases "job le"; cases "get_socket_data (le_fd le) s"; cases "ThreadedServer2_cleanup (le_fd le) s")
    (auto simp: internal_callback_def queues_empty_def split: option.split)

interpretation ts2_queues: inductive_invariant
  "\<lambda>s. internalSocketData s = Map.empty" "ts2_step K" queues_empty for K
proof
  fix s t :: "('a, 'b) ts2_scheme"
  assume "queues_empty s" and "ts2_step K s t"
  from this(2,1) show "queues_empty t"
  proof (cases rule: ts2_step.cases)
    case (step_read fd n bs)
    from queues_empty_cong [OF \<open>queues_empty s\<close> ts2_frame(1) [OF IGenericServer_read_more [OF this]]]
    show ?thesis .
  qed (simp_all add: queues_empty_write queues_empty_close queues_empty_event queues_empty_worker)
qed (simp add: queues_empty_def)

section \<open>One turn of the worker\<close>

lemma write_queue_worker_turn_eq:
  assumes "\<not> stopServer s" and "readyToWriteSet s \<noteq> {}" and "fd = Min (readyToWriteSet s)"
    and "internalSocketData s fd = Some sd" and "uses sd \<le> 0"
    and "drain (IGenericServer_write K) fd (writeQueue sd)
      (s\<lparr>readyToWriteSet := readyToWriteSet s - {fd}\<rparr>) = (q, s3)"
  shows "write_queue_worker_turn K s = (Inr True, put_socket_data fd (sd\<lparr>writeQueue := q\<rparr>) s3)"
  using assms
  by (simp add: write_queue_worker_turn_def Let_def get_socket_data_eq SocketData_lock_def
      SocketData_release_def)

section \<open>Properties\<close>

text \<open>
  A turn of the write queue worker serves the least ready descriptor and sends its queue in FIFO
  order: the bytes sent so far followed by the queued buffers, oldest first, stay the same byte
  sequence, so that nothing is lost, duplicated or reordered, whatever the kernel accepts. No other
  socket is written to, the descriptor leaves the ready set, and the lock is given back.
\<close>

lemma write_queue_worker_fifo:
  assumes "eagain_socket K sent fd" and "\<not> stopServer s" and "readyToWriteSet s \<noteq> {}"
    and "fd = Min (readyToWriteSet s)" and "internalSocketData s fd = Some sd" and "uses sd \<le> 0"
  shows "\<exists>s' sd'. write_queue_worker_turn K s = (Inr True, s')
    \<and> readyToWriteSet s' = readyToWriteSet s - {fd}
    \<and> internalSocketData s' = (internalSocketData s)(fd \<mapsto> sd') \<and> uses sd' = uses sd
    \<and> sent (kern s') fd @ concat (rev (writeQueue sd')) = sent (kern s) fd @ concat (rev (writeQueue sd))
    \<and> (\<forall>g. g \<noteq> fd \<longrightarrow> sent (kern s') g = sent (kern s) g)"
proof -
  let ?s1 = "s\<lparr>readyToWriteSet := readyToWriteSet s - {fd}\<rparr>"
  obtain q s3 where d: "drain (IGenericServer_write K) fd (writeQueue sd) ?s1 = (q, s3)"
    by (cases "drain (IGenericServer_write K) fd (writeQueue sd) ?s1")
  note turn = write_queue_worker_turn_eq [OF assms(2-6) d]
  note fifo = eagain_socket.socket_drain_fifo [OF assms(1) d]
  from drain_ts2_frame [of K fd "writeQueue sd" ?s1] d fifo turn show ?thesis
    by (intro exI [of _ "put_socket_data fd (sd\<lparr>writeQueue := q\<rparr>) s3"] exI [of _ "sd\<lparr>writeQueue := q\<rparr>"])
      (simp add: put_socket_data_def)
qed

text \<open>A server with one connection, 5, which is ready and for which two buffers wait.\<close>

definition demo_ts2 :: "sim ts2" where
  "demo_ts2 = (ThreadedServer2_new demo_server)\<lparr>running := True, listenWorkerThread := True,
     writerWorkerThread := True, internalSocketData := [5 \<mapsto> \<lparr>uses = 0, writeQueue = [[4, 5, 6], [1, 2, 3]]\<rparr>],
     readyToWriteSet := {5}\<rparr>"

lemma demo_ts2_fields [simp]:
  "stopServer demo_ts2 = False" "readyToWriteSet demo_ts2 = {5}" "kern demo_ts2 = sim0"
  "internalSocketData demo_ts2 = [5 \<mapsto> \<lparr>uses = 0, writeQueue = [[4, 5, 6], [1, 2, 3]]\<rparr>]"
  "fd_no (epollfd demo_ts2) = 4" "fd_no (listen_sock demo_ts2) = 3"
  "pipe_rd (commandPipe demo_ts2) = 1" "activeConnections demo_ts2 = 1" "running demo_ts2 = True"
  "listenWorkerThread demo_ts2 = True" "writerWorkerThread demo_ts2 = True"
  "is_listening demo_ts2 = True"
  by (simp_all add: demo_ts2_def ThreadedServer2_new_def server.extend_def ts2.fields_def demo_server_def)

lemma write_queue_worker_fifo_witness:
  "eagain_socket steady_kernel out 5 \<and> 5 = Min (readyToWriteSet demo_ts2)
   \<and> (\<exists>s' (sd' :: socket_data). write_queue_worker_turn steady_kernel demo_ts2 = (Inr True, s')
      \<and> out (kern s') 5 @ concat (rev (writeQueue sd')) = [1, 2, 3, 4, 5, 6])"
proof -
  have "readyToWriteSet demo_ts2 \<noteq> {}" "5 = Min (readyToWriteSet demo_ts2)" by simp_all
  note h = write_queue_worker_fifo [OF steady.eagain_socket_axioms _ this, of "\<lparr>uses = 0, writeQueue = [[4, 5, 6], [1, 2, 3]]\<rparr>"]
  obtain s' and sd' :: socket_data where "write_queue_worker_turn steady_kernel demo_ts2 = (Inr True, s')"
    "out (kern s') 5 @ concat (rev (writeQueue sd')) = out (kern demo_ts2) 5 @ [1, 2, 3, 4, 5, 6]"
    using h by simp blast
  then show ?thesis using steady.eagain_socket_axioms by (auto simp: sim0_def)
qed

text \<open>
  A turn of the worker empties the queue of the socket it serves when the kernel takes every buffer
  whole; the worker never stops before.
\<close>

lemma write_queue_worker_empties:
  assumes "eagain_socket K sent fd" and "\<not> stopServer s" and "readyToWriteSet s \<noteq> {}"
    and "fd = Min (readyToWriteSet s)" and "internalSocketData s fd = Some sd" and "uses sd \<le> 0"
    and "\<And>item t. item \<in> set (writeQueue sd) \<Longrightarrow>
      fst (IGenericServer_write K fd item (t :: ('w, 'z) ts2_scheme)) = int (length item)"
  shows "\<exists>s'. write_queue_worker_turn K (s :: ('w, 'z) ts2_scheme) = (Inr True, s')
    \<and> internalSocketData s' fd = Some (sd\<lparr>writeQueue := []\<rparr>)"
proof -
  let ?s1 = "s\<lparr>readyToWriteSet := readyToWriteSet s - {fd}\<rparr>"
  obtain q s3 where d: "drain (IGenericServer_write K) fd (writeQueue sd) ?s1 = (q, s3)"
    by (cases "drain (IGenericServer_write K) fd (writeQueue sd) ?s1")
  with eagain_socket.socket_drain_empties [OF assms(1), of "writeQueue sd" ?s1] assms(7)
  have "q = []" by simp
  with write_queue_worker_turn_eq [OF assms(2-6) d] show ?thesis by (simp add: put_socket_data_def)
qed

definition roomy_kernel :: "sim kernel" where
  "roomy_kernel = sim_kernel\<lparr>sys_write := (\<lambda>f d w.
     ((int (length d), 0), w\<lparr>out := (out w)(f := out w f @ d)\<rparr>))\<rparr>"

interpretation roomy: eagain_socket roomy_kernel out 5
  by unfold_locales (auto simp: roomy_kernel_def)

lemma roomy_write:
  "fst (IGenericServer_write roomy_kernel 5 item t) = int (length item)"
  by (auto simp: IGenericServer_write_def write_loop.simps roomy_kernel_def syscall_eq Let_def)

lemma write_queue_worker_empties_witness:
  "\<exists>s'. write_queue_worker_turn roomy_kernel demo_ts2 = (Inr True, s')
    \<and> internalSocketData s' 5 = Some \<lparr>uses = 0, writeQueue = []\<rparr>"
proof -
  have "\<exists>s'. write_queue_worker_turn roomy_kernel demo_ts2 = (Inr True, s')
      \<and> internalSocketData s' 5 = Some (\<lparr>uses = 0, writeQueue = [[4, 5, 6], [1, 2, 3]]\<rparr>\<lparr>writeQueue := []\<rparr>)"
    by (rule write_queue_worker_empties [OF roomy.eagain_socket_axioms]) (simp_all add: roomy_write)
  then show ?thesis by simp
qed

text \<open>
  What the critical section of \<^verbatim>\<open>ThreadedServer2::write\<close> does with the queue in its hands is right: the
  data is sent or queued behind what already waits, no byte is lost or overtakes another, and the
  result is the size of the data.
\<close>

lemma write_critical_section_order:
  assumes "eagain_socket K sent fd"
    and "write_critical_section (IGenericServer_write K) fd data q s = (r, q', s')"
  shows "sent (kern s') fd @ concat (rev q') = sent (kern s) fd @ concat (rev q) @ data
    \<and> r = int (length data)"
  using assms by (rule eagain_socket.socket_write_keeps)

definition demo_cs :: "int \<times> write_item list \<times> sim server" where
  "demo_cs = write_critical_section (IGenericServer_write steady_kernel) 5 [1, 2, 3, 4, 5, 6] [] demo_server"

lemma write_critical_section_order_witness:
  "out (kern (snd (snd demo_cs))) 5 @ concat (rev (fst (snd demo_cs))) = [1, 2, 3, 4, 5, 6] \<and> fst demo_cs = 6"
proof -
  have "write_critical_section (IGenericServer_write steady_kernel) 5 [1, 2, 3, 4, 5, 6] [] demo_server =
      (fst demo_cs, fst (snd demo_cs), snd (snd demo_cs))" by (simp add: demo_cs_def)
  from write_critical_section_order [OF steady.eagain_socket_axioms this] show ?thesis
    by (simp add: demo_server_def sim0_def)
qed

text \<open>
  C21. \<^verbatim>\<open>ThreadedServer2::write\<close> loses data. Its queue is a copy, so when the kernel does not take all of
  the data, the call reports the full size, a proper prefix was sent, and no queue of the server has
  changed: the rest is neither sent nor waiting to be sent.
\<close>

theorem ThreadedServer2_write_loses_tail:
  assumes "eagain_socket K sent fd" and "data \<noteq> []"
    and "internalSocketData s fd = Some sd" and "writeQueue sd = []"
    and "IGenericServer_write K fd data s = (b, e, s1)" and "b \<noteq> int (length data)"
  shows "\<exists>s' k. ThreadedServer2_write K fd data s = (int (length data), s') \<and> k < length data
    \<and> sent (kern s') fd = sent (kern s) fd @ take k data
    \<and> internalSocketData s' = internalSocketData s"
proof -
  from eagain_socket.socket_write_result [OF assms(1,5)] assms(2,6)
  have "sent (kern s1) fd = sent (kern s) fd @ take (nat b) data \<and> nat b < length data"
    by (cases "0 \<le> b") (auto simp: nat_less_iff)
  with assms(3-6) write_ts2_frame(1) [OF assms(5)] show ?thesis
    by (intro exI [of _ s1] exI [of _ "nat b"])
      (auto simp: ThreadedServer2_write_def write_critical_section_def get_socket_data_eq Let_def)
qed

definition idle_ts2 :: "sim ts2" where
  "idle_ts2 = demo_ts2\<lparr>internalSocketData := [5 \<mapsto> SocketData_new], readyToWriteSet := {}\<rparr>"

lemma steady_write:
  assumes "kern t = sim0"
  shows "fst (IGenericServer_write steady_kernel 5 [1, 2, 3, 4, 5, 6] t) = 4"
proof -
  have "write_loop steady_kernel 5 [1, 2, 3, 4, 5, 6] 0 u =
      (-1, 4, u\<lparr>kern := sim0\<lparr>room := (room sim0)(5 := 0), out := (out sim0)(5 := [1, 2, 3, 4])\<rparr>, errno := EAGAIN\<rparr>)"
    if "kern u = sim0" for u :: "(sim, 'z) server_scheme"
    using that by (simp add: write_loop.simps steady_kernel_def syscall_eq sim0_def)
  from this [of "set_IO 5 t"] assms show ?thesis by (simp add: IGenericServer_write_def)
qed

theorem ThreadedServer2_write_loses_tail_witness:
  "\<exists>s' k. ThreadedServer2_write steady_kernel 5 [1, 2, 3, 4, 5, 6] idle_ts2 = (6, s')
    \<and> k < length [1, 2, 3, 4, 5, 6 :: byte]
    \<and> out (kern s') 5 = take k [1, 2, 3, 4, 5, 6]
    \<and> internalSocketData s' = [5 \<mapsto> SocketData_new]"
proof -
  obtain b e s1 where w: "IGenericServer_write steady_kernel 5 [1, 2, 3, 4, 5, 6] idle_ts2 = (b, e, s1)"
    by (cases "IGenericServer_write steady_kernel 5 [1, 2, 3, 4, 5, 6] idle_ts2")
  have "kern idle_ts2 = sim0" by (simp add: idle_ts2_def)
  from steady_write [OF this] w have "b \<noteq> 6" by simp
  with ThreadedServer2_write_loses_tail [OF steady.eagain_socket_axioms _ _ _ w, of SocketData_new]
  show ?thesis by (simp add: idle_ts2_def SocketData_new_def sim0_def)
qed

text \<open>
  C20. Consequently no write queue ever holds a buffer: in every state that a program using
  \<^verbatim>\<open>ThreadedServer2\<close> reaches, all queues are empty, and a turn of the write queue worker writes nothing.
\<close>

theorem write_queues_always_empty:
  assumes "reachable (\<lambda>s. internalSocketData s = Map.empty) (ts2_step K) s"
  shows "(\<forall>sd \<in> ran (internalSocketData s). writeQueue sd = [])
    \<and> kern (snd (write_queue_worker_turn K s)) = kern s"
  using ts2_queues.reachable_inv [OF assms] queues_empty_worker [of s K] by (simp add: queues_empty_def)

theorem write_queues_always_empty_witness:
  "writeQueue ` ran (internalSocketData
     (snd (ThreadedServer2_write steady_kernel 5 [1, 2, 3, 4, 5, 6] (demo_ts2\<lparr>internalSocketData := Map.empty\<rparr>))))
   \<subseteq> {[]}"
proof -
  have "reachable (\<lambda>s. internalSocketData s = Map.empty) (ts2_step steady_kernel)
      (demo_ts2\<lparr>internalSocketData := Map.empty\<rparr>)" by (rule reach_init) simp
  note r = reach_step [OF this, OF step_write]
  from write_queues_always_empty [OF r] show ?thesis by blast
qed

text \<open>
  C36. \<^verbatim>\<open>ThreadedServer2::close\<close> on an open connection that no thread is using closes exactly that
  descriptor, counts it, and empties its queue; but it leaves the lock counter of the socket's data
  at \<open>-1\<close>.
\<close>

theorem ThreadedServer2_close_effect:
  assumes "fd_syscalls K opened" and "0 \<le> fd" and "fd_no (epollfd s) \<noteq> -1"
    and "fd \<notin> {fd_no (epollfd s), pipe_rd (commandPipe s), fd_no (listen_sock s)}"
    and "uses (fst (get_socket_data fd s)) \<le> 0"
  shows "\<exists>s'. ThreadedServer2_close K fd s = (None, s') \<and> opened (kern s') = opened (kern s) - {fd}
    \<and> activeConnections s' = activeConnections s - 1
    \<and> internalSocketData s' = (internalSocketData s)(fd \<mapsto> \<lparr>uses = -1, writeQueue = []\<rparr>)"
proof -
  let ?s1 = "snd (syscall (sys_epoll_ctl K (fd_no (epollfd s)) EPOLL_CTL_DEL fd 0) s)"
  have s1: "opened (kern ?s1) = opened (kern s)" "activeConnections ?s1 = activeConnections s"
    "internalSocketData ?s1 = internalSocketData s"
    using fd_syscalls.opened_same(1) [OF assms(1)] by (simp_all add: syscall_eq)
  have sd: "uses (fst (get_socket_data fd ?s1)) \<le> 0"
    using assms(5) s1(3) by (simp add: get_socket_data_eq split: option.splits)
  have r: "remove_from_epoll K fd False s = (Inr (errno ?s1), ?s1)"
    using assms(2-4) by (auto simp: remove_from_epoll_def Let_def case_prod_beta)
  obtain d s2 where g: "get_socket_data fd ?s1 = (d, s2)" by (cases "get_socket_data fd ?s1")
  have s2: "opened (kern s2) = opened (kern s)" "activeConnections s2 = activeConnections s"
    "(internalSocketData s2)(fd \<mapsto> x) = (internalSocketData s)(fd \<mapsto> x)" for x
    using get_socket_data_frame [OF g] s1 by simp_all
  let ?s3 = "put_socket_data fd \<lparr>uses = 0, writeQueue = []\<rparr> s2"
  have "ThreadedServer2_close K fd s = (None, put_socket_data fd \<lparr>uses = -1, writeQueue = []\<rparr>
      (IGenericServer_close K fd ?s3))"
    unfolding ThreadedServer2_close_def r using g sd
    by (cases d) (simp add: SocketData_eval Let_def)
  moreover have "opened (kern (IGenericServer_close K fd ?s3)) = opened (kern s) - {fd}"
    using close_syscall.IGenericServer_close_opened [OF fd_syscalls.axioms(1) [OF assms(1)], of fd ?s3]
      assms(2) s2(1) by (simp add: put_socket_data_def)
  ultimately show ?thesis using s2 assms(2)
    by (simp add: put_socket_data_def IGenericServer_close_fields)
qed

theorem ThreadedServer2_close_effect_witness:
  "\<exists>s'. ThreadedServer2_close sim_kernel 5 demo_ts2 = (None, s') \<and> sim_open (kern s') = sim_open sim0 - {5}
    \<and> activeConnections s' = 0
    \<and> internalSocketData s' = [5 \<mapsto> \<lparr>uses = -1, writeQueue = []\<rparr>]"
  using ThreadedServer2_close_effect [OF sim_fds.fd_syscalls_axioms, of 5 demo_ts2]
  by (simp add: get_socket_data_eq)

text \<open>
  Once \<^verbatim>\<open>listen\<close> has ended and the epoll descriptor is closed, \<^verbatim>\<open>ThreadedServer2::close\<close> dereferences a
  null pointer on every descriptor, before it touches anything.
\<close>

lemma ThreadedServer2_close_after_listen:
  assumes "fd_no (epollfd s) = -1"
  shows "ThreadedServer2_close K fd s = (Some (UB ''null _errno''), s)"
  using assms by (simp add: ThreadedServer2_close_def remove_from_epoll_def)

lemma ThreadedServer2_close_after_listen_witness:
  "ThreadedServer2_close sim_kernel 5 (demo_ts2\<lparr>epollfd := FileDescriptor_new ''epollfd''\<rparr>) =
     (Some (UB ''null _errno''), demo_ts2\<lparr>epollfd := FileDescriptor_new ''epollfd''\<rparr>)"
  by (rule ThreadedServer2_close_after_listen) (simp add: FileDescriptor_new_def)

text \<open>
  What the user of \<^verbatim>\<open>ThreadedServer2\<close> hears of. A socket that is writable, alone or together with
  readable, is put in the ready set and never reported as writable; the user is told of the readable
  part only. No other event changes the ready set. A new socket has its data when the user hears of
  it.
\<close>

lemma internal_callback_events:
  "internal_callback user le s =
    (let tell = (\<lambda>j. user (le\<lparr>srv := Is_ThreadedServer2, job := j\<rparr>));
         ready = s\<lparr>readyToWriteSet := insert (le_fd le) (readyToWriteSet s)\<rparr> in
     if job le = AVAILABLE_FOR_WRITE then (None, ready)
     else if job le = AVAILABLE_FOR_READ_AND_WRITE then tell AVAILABLE_FOR_READ ready
     else if job le = NEW_SOCKET then tell NEW_SOCKET (snd (get_socket_data (le_fd le) s))
     else if job le = SOCKET_IS_CLOSED then
       (case ThreadedServer2_cleanup (le_fd le) s of
          (None, s1) \<Rightarrow> tell SOCKET_IS_CLOSED s1 | (Some a, s1) \<Rightarrow> (Some a, s1))
     else tell (job le) s)"
  by (cases le; cases "job le")
    (auto simp: internal_callback_def Let_def split: prod.split option.split)

text \<open>
  \<^verbatim>\<open>stop\<close> sets \<^verbatim>\<open>stopServer\<close> and nothing resets it. After a complete \<^verbatim>\<open>stop\<close>, \<^verbatim>\<open>start\<close> launches the threads
  again, but the first thing the new write queue worker does is to end.
\<close>

lemma ThreadedServer2_restart:
  assumes "ThreadedServer2_stop_begin K s = (waited, s1)"
    and "stopServer s2 = stopServer s1" and "ThreadedServer2_stop_end waited s2 = (None, s3)"
  shows "\<exists>s4. ThreadedServer2_start_begin s3 = (None, s4)
    \<and> writerWorkerThread s4 \<and> write_queue_worker_turn K s4 = (Inr False, s4)"
proof -
  have "stopServer s1"
    using assms(1) by (auto simp: ThreadedServer2_stop_begin_def terminate_begin_def UnixPipe_write_def
        syscall_eq split: if_splits)
  with assms(2,3) have "stopServer s3 \<and> \<not> running s3 \<and> \<not> listenWorkerThread s3 \<and> \<not> writerWorkerThread s3"
    by (auto simp: ThreadedServer2_stop_end_def terminate_end_def Let_def split: if_splits)
  then show ?thesis
    by (auto simp: ThreadedServer2_start_begin_def write_queue_worker_turn_def)
qed

definition stopping_ts2 :: "sim ts2" where
  "stopping_ts2 = snd (ThreadedServer2_stop_begin sim_kernel demo_ts2)"

lemma ThreadedServer2_restart_witness:
  "\<exists>s4. ThreadedServer2_start_begin
       (snd (ThreadedServer2_stop_end True (stopping_ts2\<lparr>is_listening := False\<rparr>))) = (None, s4)
    \<and> writerWorkerThread s4 \<and> write_queue_worker_turn sim_kernel s4 = (Inr False, s4)"
proof (rule ThreadedServer2_restart)
  show "ThreadedServer2_stop_begin sim_kernel demo_ts2 = (True, stopping_ts2)"
    by (simp add: stopping_ts2_def ThreadedServer2_stop_begin_def terminate_begin_def)
  show "ThreadedServer2_stop_end True (stopping_ts2\<lparr>is_listening := False\<rparr>) =
      (None, snd (ThreadedServer2_stop_end True (stopping_ts2\<lparr>is_listening := False\<rparr>)))"
    by (simp add: ThreadedServer2_stop_end_def stopping_ts2_def ThreadedServer2_stop_begin_def
        terminate_begin_def terminate_end_def UnixPipe_write_def syscall_eq)
qed simp

end
