(* ===== verification/Shutdown.thy ===== *)
theory Shutdown
  imports Lifecycle ThreadedServer2
begin

text \<open>
  \<^verbatim>\<open>ThreadedServer2::stop\<close> against the two threads it ends: the listening thread, by the protocol of \<^verbatim>\<open>terminate\<close>, and
  the thread that writes queued buffers, by a flag under a mutex and a condition variable. A step relation that
  contains the protocol of \<open>Lifecycle\<close> as one of its components.
\<close>

section \<open>Definitions\<close>

text \<open>
  The writing thread: \<open>W_head\<close> is before it takes the mutex, \<open>W_wait\<close> on the condition variable, \<open>W_woken\<close> before it
  has the mutex again, \<open>W_work\<close> while it writes. The stopping thread: \<open>X_flag\<close> before the flag is set, \<open>X_notify\<close>
  and \<open>X_notify2\<close> before the two notifications, \<open>X_term\<close> in \<^verbatim>\<open>terminate\<close>, \<open>X_join1\<close> and \<open>X_join2\<close> in the two joins.
\<close>

datatype writer_pc = W_head | W_wait | W_woken | W_work | W_done
datatype stopper_pc = X_flag | X_notify | X_term | X_notify2 | X_join1 | X_join2 | X_done

record shutdown =
  proto :: protocol
  stop2 :: bool
  n_ready :: nat
  wpc :: writer_pc
  xpc :: stopper_pc

definition notify_writer :: "shutdown \<Rightarrow> shutdown" where
  "notify_writer s = (if wpc s = W_wait then s\<lparr>wpc := W_woken\<rparr> else s)"

text \<open>What the writing thread does once it has the mutex, until it gives it back.\<close>

definition writer_turn :: "shutdown \<Rightarrow> shutdown" where
  "writer_turn s = (if stop2 s then s\<lparr>wpc := W_done\<rparr>
     else if n_ready s = 0 then s\<lparr>wpc := W_wait\<rparr>
     else s\<lparr>wpc := W_work, n_ready := n_ready s - 1\<rparr>)"

text \<open>
  A wake-up of the listening thread that does not end it may report writable sockets to the writing thread.
  \<open>w_spurious\<close> is a wake-up of the condition variable without a notification.
\<close>

inductive shutdown_step :: "shutdown \<Rightarrow> shutdown \<Rightarrow> bool" where
  sh_listen: "protocol_step (proto s) p \<Longrightarrow> tpc p = tpc (proto s) \<Longrightarrow> shutdown_step s (s\<lparr>proto := p\<rparr>)"
| sh_event: "protocol_step (proto s) p \<Longrightarrow> lpc (proto s) = L_woken \<Longrightarrow> lpc p = L_check \<Longrightarrow>
    shutdown_step s (notify_writer (s\<lparr>proto := p, n_ready := n_ready s + k\<rparr>))"
| w_turn: "wpc s \<in> {W_head, W_woken} \<Longrightarrow> shutdown_step s (writer_turn s)"
| w_spurious: "wpc s = W_wait \<Longrightarrow> shutdown_step s (s\<lparr>wpc := W_woken\<rparr>)"
| w_work: "wpc s = W_work \<Longrightarrow> shutdown_step s (s\<lparr>wpc := W_head\<rparr>)"
| x_flag: "xpc s = X_flag \<Longrightarrow> shutdown_step s (s\<lparr>stop2 := True, xpc := X_notify\<rparr>)"
| x_notify: "xpc s = X_notify \<Longrightarrow> shutdown_step s (notify_writer (s\<lparr>xpc := X_term\<rparr>))"
| x_term: "xpc s = X_term \<Longrightarrow> protocol_step (proto s) p \<Longrightarrow> tpc p \<noteq> tpc (proto s) \<Longrightarrow> shutdown_step s (s\<lparr>proto := p\<rparr>)"
| x_terminated: "xpc s = X_term \<Longrightarrow> tpc (proto s) = T_done \<Longrightarrow> shutdown_step s (s\<lparr>xpc := X_notify2\<rparr>)"
| x_notify2: "xpc s = X_notify2 \<Longrightarrow> shutdown_step s (notify_writer (s\<lparr>xpc := X_join1\<rparr>))"
| x_join1: "xpc s = X_join1 \<Longrightarrow> lpc (proto s) = L_done \<Longrightarrow> shutdown_step s (s\<lparr>xpc := X_join2\<rparr>)"
| x_join2: "xpc s = X_join2 \<Longrightarrow> wpc s = W_done \<Longrightarrow> shutdown_step s (s\<lparr>xpc := X_done\<rparr>)"

abbreviation shutdown_init :: "shutdown \<Rightarrow> bool" where
  "shutdown_init s \<equiv> s = \<lparr>proto = start_state L_check, stop2 = False, n_ready = 0, wpc = W_head, xpc = X_flag\<rparr>"

text \<open>The turn of the model of the thread, seen through the flag and the set of ready sockets.\<close>

lemma writer_turn_abstracts:
  assumes "stopServer s \<longleftrightarrow> stop2 a" and "readyToWriteSet s = {} \<longleftrightarrow> n_ready a = 0"
    and "write_queue_worker_turn K s = (r, s')" and "r = Inl Blocked \<longrightarrow> readyToWriteSet s = {}"
  shows "wpc (writer_turn a) = (case r of Inr False \<Rightarrow> W_done | Inl Blocked \<Rightarrow> W_wait | _ \<Rightarrow> W_work)"
  using assms
  by (auto simp: write_queue_worker_turn_def writer_turn_def SocketData_lock_def Let_def
      split: prod.splits sum.splits if_splits)

section \<open>The invariant and the rank\<close>

text \<open>Once the flag is set, the writing thread waits only for as long as the notification is still to come.\<close>

definition shutdown_inv :: "shutdown \<Rightarrow> bool" where
  "shutdown_inv s \<longleftrightarrow> ready_inv (proto s) \<and> (stop2 s \<longleftrightarrow> xpc s \<noteq> X_flag) \<and> (wpc s = W_done \<longrightarrow> stop2 s)
     \<and> (xpc s \<in> {X_flag, X_notify} \<longrightarrow> tpc (proto s) = T_read)
     \<and> (xpc s \<in> {X_notify2, X_join1, X_join2, X_done} \<longrightarrow> tpc (proto s) = T_done)
     \<and> (wpc s = W_wait \<and> stop2 s \<longrightarrow> xpc s = X_notify)
     \<and> (xpc s = X_done \<longrightarrow> wpc s = W_done)"

lemma shutdown_invD:
  assumes "shutdown_inv s"
  shows "ready_inv (proto s)" "stop2 s = (xpc s \<noteq> X_flag)" "wpc s = W_done \<Longrightarrow> stop2 s"
    "xpc s = X_flag \<Longrightarrow> tpc (proto s) = T_read" "xpc s = X_notify \<Longrightarrow> tpc (proto s) = T_read"
    "xpc s \<in> {X_notify2, X_join1, X_join2, X_done} \<Longrightarrow> tpc (proto s) = T_done"
    "wpc s = W_wait \<Longrightarrow> stop2 s \<Longrightarrow> xpc s = X_notify" "xpc s = X_done \<Longrightarrow> wpc s = W_done"
  using assms unfolding shutdown_inv_def by blast+

text \<open>Case distinction on both program counters, after which the invariant evaluates.\<close>

lemma shutdown_inv_proto:
  assumes "shutdown_inv s" and "protocol_step (proto s) p" and "tpc p = tpc (proto s) \<or> xpc s = X_term"
  shows "shutdown_inv (s\<lparr>proto := p, n_ready := n\<rparr>)"
proof -
  have "ready_inv p" using ready.inv_step [OF shutdown_invD(1) [OF assms(1)] assms(2)] .
  with assms(1,3) show ?thesis
    unfolding shutdown_inv_def by (cases "wpc s"; cases "xpc s") simp_all
qed

lemma shutdown_inv_notify: "shutdown_inv s \<Longrightarrow> shutdown_inv (notify_writer s)"
  unfolding shutdown_inv_def notify_writer_def by (cases "wpc s"; cases "xpc s") auto

lemma shutdown_inv_writer:
  "shutdown_inv s \<Longrightarrow> wpc s \<in> {W_head, W_woken} \<Longrightarrow> shutdown_inv (writer_turn s)"
  "shutdown_inv s \<Longrightarrow> wpc s = W_wait \<Longrightarrow> shutdown_inv (s\<lparr>wpc := W_woken\<rparr>)"
  "shutdown_inv s \<Longrightarrow> wpc s = W_work \<Longrightarrow> shutdown_inv (s\<lparr>wpc := W_head\<rparr>)"
  unfolding shutdown_inv_def writer_turn_def by ((cases "wpc s"; cases "xpc s"), auto)+

lemma shutdown_inv_stopper:
  "shutdown_inv s \<Longrightarrow> xpc s = X_flag \<Longrightarrow> shutdown_inv (s\<lparr>stop2 := True, xpc := X_notify\<rparr>)"
  "shutdown_inv s \<Longrightarrow> xpc s = X_notify \<Longrightarrow> shutdown_inv (notify_writer (s\<lparr>xpc := X_term\<rparr>))"
  "shutdown_inv s \<Longrightarrow> xpc s = X_term \<Longrightarrow> tpc (proto s) = T_done \<Longrightarrow> shutdown_inv (s\<lparr>xpc := X_notify2\<rparr>)"
  "shutdown_inv s \<Longrightarrow> xpc s = X_notify2 \<Longrightarrow> shutdown_inv (notify_writer (s\<lparr>xpc := X_join1\<rparr>))"
  "shutdown_inv s \<Longrightarrow> xpc s = X_join1 \<Longrightarrow> shutdown_inv (s\<lparr>xpc := X_join2\<rparr>)"
  "shutdown_inv s \<Longrightarrow> xpc s = X_join2 \<Longrightarrow> wpc s = W_done \<Longrightarrow> shutdown_inv (s\<lparr>xpc := X_done\<rparr>)"
  unfolding shutdown_inv_def notify_writer_def by ((cases "wpc s"; cases "xpc s"), auto)+

lemma shutdown_inv_step: "shutdown_step s t \<Longrightarrow> shutdown_inv s \<Longrightarrow> shutdown_inv t"
proof (induction rule: shutdown_step.induct)
  case (sh_listen s p)
  then show ?case using shutdown_inv_proto [of s p "n_ready s"] by simp
next
  case (sh_event s p k)
  then have "tpc p = tpc (proto s)" by (auto elim: protocol_step.cases)
  with sh_event show ?case by (intro shutdown_inv_notify shutdown_inv_proto) simp_all
next
  case (x_term s p)
  then show ?case using shutdown_inv_proto [of s p "n_ready s"] by simp
qed (simp_all only: shutdown_inv_writer shutdown_inv_stopper)

interpretation stopping: inductive_invariant shutdown_init shutdown_step shutdown_inv
  by unfold_locales (simp add: shutdown_inv_def ready_inv_def, rule shutdown_inv_step)

text \<open>The steps that need neither an event from outside nor a spurious wake-up.\<close>

definition shutdown_enabled :: "shutdown \<Rightarrow> bool" where
  "shutdown_enabled s \<longleftrightarrow> lpc (proto s) \<in> {L_start, L_check, L_woken, L_clean}
     \<or> lpc (proto s) = L_wait \<and> pipe_bytes (proto s) > 0
     \<or> wpc s \<in> {W_head, W_woken, W_work} \<or> xpc s \<in> {X_flag, X_notify, X_notify2}
     \<or> xpc s = X_term \<and> (tpc (proto s) \<in> {T_read, T_set, T_pipe, T_end, T_done} \<or> \<not> listening (proto s))
     \<or> xpc s = X_join1 \<and> lpc (proto s) = L_done \<or> xpc s = X_join2 \<and> wpc s = W_done"

fun w_rank :: "writer_pc \<Rightarrow> nat" where
  "w_rank W_head = 1" | "w_rank W_wait = 2" | "w_rank W_woken = 1" | "w_rank W_work = 2" | "w_rank W_done = 0"

fun x_rank :: "stopper_pc \<Rightarrow> nat" where
  "x_rank X_flag = 6" | "x_rank X_notify = 5" | "x_rank X_term = 4" | "x_rank X_notify2 = 3"
| "x_rank X_join1 = 2" | "x_rank X_join2 = 1" | "x_rank X_done = 0"

definition shutdown_rank :: "shutdown \<Rightarrow> nat" where
  "shutdown_rank s = protocol_rank (proto s) + w_rank (wpc s) + x_rank (xpc s)"

lemma notify_writer_simps [simp]:
  "proto (notify_writer s) = proto s" "xpc (notify_writer s) = xpc s" "w_rank (wpc (notify_writer s)) \<le> w_rank (wpc s)"
  by (simp_all add: notify_writer_def)

lemma shutdown_rank_decreases:
  assumes "shutdown_inv s" and "tpc (proto s) \<notin> {T_read, T_set}" and "shutdown_step s t"
  shows "shutdown_rank t < shutdown_rank s"
proof -
  note inv = shutdown_invD(1) [OF assms(1)]
  have stop: "stop2 s" using shutdown_invD(2,4) [OF assms(1)] assms(2) by blast
  note rank = protocol_rank_decreases [OF inv assms(2)]
  from assms(3) show ?thesis
  proof cases
    case (sh_event p k)
    with rank [of p] have "protocol_rank p < protocol_rank (proto s)" by simp
    moreover have "w_rank (wpc t) \<le> w_rank (wpc s)" using sh_event notify_writer_simps(3) by (auto simp: notify_writer_def)
    ultimately show ?thesis using sh_event by (simp add: shutdown_rank_def)
  qed (use stop rank in \<open>auto simp: shutdown_rank_def notify_writer_def writer_turn_def\<close>)
qed

lemma shutdown_progress:
  assumes inv: "shutdown_inv s"
  shows "xpc s = X_done \<or> shutdown_enabled s"
proof (cases "wpc s")
  case W_wait
  with inv show ?thesis
    by (cases "xpc s"; cases "lpc (proto s)"; cases "tpc (proto s)")
      (auto simp: shutdown_inv_def ready_inv_def shutdown_enabled_def)
next
  case W_done
  with inv show ?thesis
    by (cases "xpc s"; cases "lpc (proto s)"; cases "tpc (proto s)")
      (auto simp: shutdown_inv_def ready_inv_def shutdown_enabled_def)
qed (simp_all add: shutdown_enabled_def)

section \<open>Properties\<close>

text \<open>
  C14. \<^verbatim>\<open>ThreadedServer2::stop\<close> on a running server always ends, and ends both threads: no reachable state is stuck
  before all three threads are done, once the flag of the server is stored every step brings them closer to their
  end, and \<^verbatim>\<open>stop\<close> returns only after both threads have ended. The flag of the writing thread is set under the mutex
  of its condition variable, so no notification is lost. The work of the writing thread on a socket is one step: it is
  taken to get the lock of the socket's data.
\<close>

theorem ThreadedServer2_stop_ends:
  assumes "reachable shutdown_init shutdown_step s"
  shows "(xpc s = X_done \<or> shutdown_enabled s)
    \<and> (tpc (proto s) \<notin> {T_read, T_set} \<and> shutdown_step s t \<longrightarrow> shutdown_rank t < shutdown_rank s)
    \<and> (xpc s = X_done \<longrightarrow> lpc (proto s) = L_done \<and> wpc s = W_done)"
proof -
  have inv: "shutdown_inv s" using stopping.reachable_inv [OF assms] .
  have "xpc s = X_done \<or> shutdown_enabled s" using inv by (rule shutdown_progress)
  moreover have "lpc (proto s) = L_done \<and> wpc s = W_done" if "xpc s = X_done"
    using shutdown_invD(1,6,8) [OF inv] that by (simp add: ready_inv_def)
  ultimately show ?thesis using shutdown_rank_decreases [OF inv, of t] by blast
qed

theorem ThreadedServer2_stop_ends_witness:
  "\<exists>s. reachable shutdown_init shutdown_step s \<and> stop2 s \<and> wpc s = W_wait \<and> shutdown_enabled s"
proof -
  let ?s = "\<lambda>b w x. \<lparr>proto = start_state L_check, stop2 = b, n_ready = 0, wpc = w, xpc = x\<rparr>"
  have "reachable shutdown_init shutdown_step (?s False W_head X_flag)" by (rule reach_init) simp
  from reach_step [OF this w_turn] have "reachable shutdown_init shutdown_step (?s False W_wait X_flag)"
    by (simp add: writer_turn_def)
  from reach_step [OF this x_flag] have r: "reachable shutdown_init shutdown_step (?s True W_wait X_notify)" by simp
  from ThreadedServer2_stop_ends [OF r] r show ?thesis by (intro exI [of _ "?s True W_wait X_notify"]) simp
qed

end
