(* ===== verification/WorkQueue.thy ===== *)
theory WorkQueue
  imports ThreadedServer2 "HOL-Library.Multiset" "HOL-Library.Sublist"
begin

text \<open>
  Model of \<^verbatim>\<open>libnbuss/WorkQueue.h\<close> and \<^verbatim>\<open>libnbuss/WorkQueue.cpp\<close>: the events of a \<^verbatim>\<open>ThreadedServer2\<close> go into a
  deque from which a number of consumer threads take them. The operations come first, then the
  threads: delivery as a step relation over the operations, with histories of what was produced and
  delivered.
\<close>

section \<open>State\<close>

record item =
  it_fd :: fd
  it_job :: job_type_t
  process :: bool

text \<open>\<open>consumer_threads\<close> is the number of consumer threads that have been started and not joined.\<close>

record 'w wq = "'w ts2" +
  number_consumer_threads :: nat
  items :: "item list"
  consumers_must_terminate :: bool
  consumer_threads :: nat

definition WorkQueue_new :: "nat \<Rightarrow> 'w ts2 \<Rightarrow> exn + 'w wq" where
  "WorkQueue_new numberOfThreads s =
     (if numberOfThreads < 1 then Inl (Invalid_argument ''numberOfThreads must be > 0'')
      else Inr (ts2.extend s (wq.fields numberOfThreads [] False 0)))"

section \<open>Operations\<close>

definition producer_callback :: "('w, ('z wq_ext) ts2_ext) callback" where
  "producer_callback le s =
     (None, s\<lparr>items := push_front \<lparr>it_fd = le_fd le, it_job = job le, process = True\<rparr> (items s)\<rparr>)"

text \<open>
  The consumer keeps a reference to the last element of the deque, removes that element, and reads
  through the reference after the mutex is released. The element no longer exists then, and the standard does not
  say what is read: \<open>slot s i\<close> is what the consumer reads in the state \<open>s\<close> when the element was \<open>i\<close>. It is a parameter,
  and nothing is assumed of it.
\<close>

definition consumer_take ::
  "(('w, 'z) wq_scheme \<Rightarrow> item \<Rightarrow> item) \<Rightarrow> ('w, 'z) wq_scheme \<Rightarrow> (item \<times> ('w, 'z) wq_scheme) option" where
  "consumer_take slot s =
     (case take_back (items s) of None \<Rightarrow> None
      | Some (i, q) \<Rightarrow> (let s1 = s\<lparr>items := q\<rparr> in Some (slot s1 i, s1)))"

definition consumer_process ::
  "('w, ('z wq_ext) ts2_ext) callback \<Rightarrow> item \<Rightarrow> ('w, 'z) wq_scheme
    \<Rightarrow> abrupt option \<times> ('w, 'z) wq_scheme" where
  "consumer_process callback_function i s =
     (if process i
      then callback_function \<lparr>srv = Is_WorkQueue, le_fd = it_fd i, job = it_job i, events = 0\<rparr> s
      else (None, s))"

text \<open>One turn of the consumer's loop: it ends, waits, or treats one item.\<close>

definition consumer_turn ::
  "(('w, 'z) wq_scheme \<Rightarrow> item \<Rightarrow> item) \<Rightarrow> ('w, ('z wq_ext) ts2_ext) callback \<Rightarrow> ('w, 'z) wq_scheme
    \<Rightarrow> bool outcome \<times> ('w, 'z) wq_scheme" where
  "consumer_turn slot callback_function s =
     (if consumers_must_terminate s then (Inr False, s)
      else case consumer_take slot s of
          None \<Rightarrow> (Inl Blocked, s)
        | Some (i, s1) \<Rightarrow>
            (case consumer_process callback_function i s1 of
               (Some a, s2) \<Rightarrow> (Inl a, s2) | (None, s2) \<Rightarrow> (Inr True, s2)))"

text \<open>\<^verbatim>\<open>close\<close> walks the deque from its back and marks the items of the socket.\<close>

fun mark_items :: "fd \<Rightarrow> item list \<Rightarrow> item list" where
  "mark_items fd [] = []"
| "mark_items fd (i # is) = (if it_fd i = fd then i\<lparr>process := False\<rparr> else i) # mark_items fd is"

definition WorkQueue_close ::
  "'w kernel \<Rightarrow> fd \<Rightarrow> ('w, 'z) wq_scheme \<Rightarrow> abrupt option \<times> ('w, 'z) wq_scheme" where
  "WorkQueue_close K fd s =
     ThreadedServer2_close K fd (s\<lparr>items := rev (mark_items fd (rev (items s)))\<rparr>)"

definition WorkQueue_remove_from_epoll ::
  "'w kernel \<Rightarrow> fd \<Rightarrow> ('w, 'z) wq_scheme \<Rightarrow> errno outcome \<times> ('w, 'z) wq_scheme" where
  "WorkQueue_remove_from_epoll K fd s = remove_from_epoll K fd False s"

text \<open>
  \<^verbatim>\<open>start\<close> up to the wait in \<^verbatim>\<open>ThreadedServer2::start\<close>. Consumer threads that are still joinable are assigned
  to (or destroyed by \<^verbatim>\<open>resize\<close>), which calls \<^verbatim>\<open>std::terminate\<close>.
\<close>

definition WorkQueue_start_begin ::
  "('w, 'z) wq_scheme \<Rightarrow> abrupt option \<times> ('w, 'z) wq_scheme" where
  "WorkQueue_start_begin s =
     (let s1 = s\<lparr>consumers_must_terminate := False\<rparr> in
      if consumer_threads s1 > 0 then (Some (Abort ''std::terminate''), s1)
      else ThreadedServer2_start_begin (s1\<lparr>consumer_threads := number_consumer_threads s1\<rparr>))"

definition WorkQueue_stop_begin ::
  "'w kernel \<Rightarrow> ('w, 'z) wq_scheme \<Rightarrow> bool \<times> ('w, 'z) wq_scheme" where
  "WorkQueue_stop_begin K s =
     ThreadedServer2_stop_begin K (s\<lparr>consumers_must_terminate := True\<rparr>)"

text \<open>The rest of \<^verbatim>\<open>stop\<close>; the \<^verbatim>\<open>join\<close>s return when the consumers have ended.\<close>

definition WorkQueue_stop_end ::
  "bool \<Rightarrow> ('w, 'z) wq_scheme \<Rightarrow> abrupt option \<times> ('w, 'z) wq_scheme" where
  "WorkQueue_stop_end waited s =
     (case ThreadedServer2_stop_end waited s of
        (Some a, s1) \<Rightarrow> (Some a, s1)
      | (None, s1) \<Rightarrow> (None, s1\<lparr>items := [], consumer_threads := 0\<rparr>))"

section \<open>Delivery\<close>

text \<open>
  Producer and consumers at work. A state has the deque, what the consumers have in hand, and two histories: the events
  produced and what the consumers have finished. What a consumer has in hand or has finished is the element that it
  removed together with what it read through its reference, which can be anything. \<open>n\<close> is the number of
  consumers; the flag says whether the program closes sockets.
\<close>

abbreviation item_key :: "item \<Rightarrow> fd \<times> job_type_t" where
  "item_key i \<equiv> (it_fd i, it_job i)"

type_synonym ('w, 'z) delivery =
  "('w, 'z) wq_scheme \<times> (item \<times> item) list \<times> (fd \<times> job_type_t) list \<times> (item \<times> item) list"

inductive wq_step ::
  "'w kernel \<Rightarrow> nat \<Rightarrow> bool \<Rightarrow> ('w, 'z) delivery \<Rightarrow> ('w, 'z) delivery \<Rightarrow> bool"
  for K n closing where
  step_produce: "wq_step K n closing (s, F, P, D)
      (snd (producer_callback le s), F, P @ [(le_fd le, job le)], D)"
| step_take: "length F < n \<Longrightarrow> \<not> consumers_must_terminate s \<Longrightarrow> consumer_take slot s = Some (x, s') \<Longrightarrow>
    wq_step K n closing (s, F, P, D) (s', F @ [(last (items s), x)], P, D)"
| step_process: "wq_step K n closing (s, F1 @ ex # F2, P, D) (s, F1 @ F2, P, D @ [ex])"
| step_close_socket: "closing \<Longrightarrow>
    wq_step K n closing (s, F, P, D) (snd (WorkQueue_close K fd s), F, P, D)"

abbreviation wq_init :: "('w, 'z) delivery \<Rightarrow> bool" where
  "wq_init \<equiv> \<lambda>(s, F, P, D). items s = [] \<and> F = [] \<and> P = [] \<and> D = []"

text \<open>The calls of the user's callback: one for each finished element whose mark, as it was read, says so.\<close>

definition deliveries :: "(item \<times> item) list \<Rightarrow> (fd \<times> job_type_t) list" where
  "deliveries D = map (\<lambda>(e, x). item_key x) (filter (\<lambda>(e, x). process x) D)"

text \<open>Every read through a reference gave the element that was removed.\<close>

definition intact :: "(item \<times> item) list \<Rightarrow> bool" where
  "intact D \<longleftrightarrow> list_all (\<lambda>(e, x). x = e) D"

abbreviation taken_keys :: "(item \<times> item) list \<Rightarrow> (fd \<times> job_type_t) list" where
  "taken_keys D \<equiv> map (item_key \<circ> fst) D"

lemma deliveries_append [simp]: "deliveries (D @ E) = deliveries D @ deliveries E"
  by (simp add: deliveries_def)

lemma intact_append [simp]: "intact (D @ E) \<longleftrightarrow> intact D \<and> intact E"
  by (simp add: intact_def)

lemma deliveries_intact: "intact D \<Longrightarrow> deliveries D = taken_keys (filter (process \<circ> fst) D)"
  by (induction D) (auto simp: intact_def deliveries_def)

lemma deliveries_all: "intact D \<Longrightarrow> \<forall>p \<in> set D. process (fst p) \<Longrightarrow> deliveries D = taken_keys D"
  by (simp add: deliveries_intact)

lemma items_produced [simp]:
  "items (snd (producer_callback le s)) = \<lparr>it_fd = le_fd le, it_job = job le, process = True\<rparr> # items s"
  by (simp add: producer_callback_def push_front_def)

lemma items_taken:
  assumes "consumer_take slot s = Some (x, s')"
  shows "items s = items s' @ [last (items s)]"
  using assms by (auto simp: consumer_take_def Let_def dest!: take_back_SomeD split: option.splits)

text \<open>Closing a socket of the \<^verbatim>\<open>ThreadedServer2\<close> leaves the fields of the work queue alone.\<close>

lemma ThreadedServer2_close_more:
  fixes s :: "('w, 'z) ts2_scheme"
  shows "ts2.more (snd (ThreadedServer2_close K fd s)) = ts2.more s"
proof -
  obtain r s1 where r: "remove_from_epoll K fd False s = (r, s1)"
    by (cases "remove_from_epoll K fd False s")
  have 1: "ts2.more s1 = ts2.more s"
    using r by (auto simp: remove_from_epoll_def Let_def syscall_eq split: if_splits)
  have 2: "ts2.more (snd (get_socket_data fd s1)) = ts2.more s1"
    by (simp add: get_socket_data_eq put_socket_data_def split: option.split)
  have 3: "ts2.more (put_socket_data fd sd t) = ts2.more t" "ts2.more (IGenericServer_close K fd t) = ts2.more t"
    for sd and t :: "('w, 'z) ts2_scheme"
    by (simp_all add: put_socket_data_def IGenericServer_close_def syscall_eq)
  show ?thesis
    using r 1 2 by (cases r) (auto simp: ThreadedServer2_close_def Let_def 3 split: prod.split sum.split)
qed

lemma wq_fields_more:
  fixes s t :: "('w, 'z) wq_scheme"
  assumes "ts2.more t = ts2.more s"
  shows "items t = items s" "consumers_must_terminate t = consumers_must_terminate s" "wq.more t = wq.more s"
  using assms by (cases s; cases t; simp)+

lemma ThreadedServer2_close_wq [simp]:
  fixes s :: "('w, 'z) wq_scheme"
  shows "items (snd (ThreadedServer2_close K fd s)) = items s"
    "consumers_must_terminate (snd (ThreadedServer2_close K fd s)) = consumers_must_terminate s"
    "wq.more (snd (ThreadedServer2_close K fd s)) = wq.more s"
  by (rule wq_fields_more [OF ThreadedServer2_close_more])+

lemma WorkQueue_close_frame [simp]:
  fixes s :: "('w, 'z) wq_scheme"
  shows "consumers_must_terminate (snd (WorkQueue_close K fd s)) = consumers_must_terminate s"
    "wq.more (snd (WorkQueue_close K fd s)) = wq.more s"
  by (simp_all add: WorkQueue_close_def)

lemma mark_items_map:
  "mark_items fd is = map (\<lambda>i. if it_fd i = fd then i\<lparr>process := False\<rparr> else i) is"
  by (induction "is") simp_all

lemma items_closed:
  "items (snd (WorkQueue_close K fd s)) =
     map (\<lambda>i. if it_fd i = fd then i\<lparr>process := False\<rparr> else i) (items s)"
  by (simp add: WorkQueue_close_def mark_items_map rev_map)

lemma item_keys_rev_closed [simp]:
  "map item_key (rev (items (snd (WorkQueue_close K fd s)))) = map item_key (rev (items s))"
proof -
  have "map item_key (items (snd (WorkQueue_close K fd s))) = map item_key (items s)"
    by (simp add: items_closed)
  then show ?thesis by (metis rev_map)
qed

lemma items_closed_silent:
  assumes "i \<in> set (items (snd (WorkQueue_close K fd s)))" and "it_fd i = fd"
  shows "\<not> process i"
proof -
  from assms(1) obtain j where "i = (if it_fd j = fd then j\<lparr>process := False\<rparr> else j)"
    unfolding items_closed set_map by blast
  with assms(2) show ?thesis by (cases "it_fd j = fd") simp_all
qed

text \<open>The events that were taken are the oldest ones, each taken once; at most \<open>n\<close> of them are in hand.\<close>

definition exactly_once :: "nat \<Rightarrow> bool \<Rightarrow> ('w, 'z) delivery \<Rightarrow> bool" where
  "exactly_once n closing = (\<lambda>(s, F, P, D). length F \<le> n
     \<and> (\<not> closing \<longrightarrow> (\<forall>i \<in> set (items s). process i) \<and> (\<forall>p \<in> set (D @ F). process (fst p)))
     \<and> (\<exists>taken. P = taken @ map item_key (rev (items s)) \<and> mset taken = mset (taken_keys (D @ F))))"

definition in_order :: "('w, 'z) delivery \<Rightarrow> bool" where
  "in_order = (\<lambda>(s, F, P, D). length F \<le> 1 \<and> P = taken_keys (D @ F) @ map item_key (rev (items s)))"

lemma items_taken_facts:
  assumes "consumer_take slot s = Some (x, s')"
  shows "map item_key (rev (items s)) = item_key (last (items s)) # map item_key (rev (items s'))"
    and "set (items s) = insert (last (items s)) (set (items s'))"
proof -
  obtain e where e: "items s = items s' @ [e]" using items_taken [OF assms] by blast
  then show "map item_key (rev (items s)) = item_key (last (items s)) # map item_key (rev (items s'))"
    and "set (items s) = insert (last (items s)) (set (items s'))" by simp_all
qed

lemma exactly_once_step:
  assumes "exactly_once n closing d" and "wq_step K n closing d d'"
  shows "exactly_once n closing d'"
  using assms(2)
proof (cases rule: wq_step.cases)
  case (step_take F s slot x s' P D)
  from assms(1) step_take(1) obtain taken where
    "P = taken @ map item_key (rev (items s))" "mset taken = mset (taken_keys (D @ F))"
    by (auto simp: exactly_once_def)
  then have "P = (taken @ [item_key (last (items s))]) @ map item_key (rev (items s'))
      \<and> mset (taken @ [item_key (last (items s))]) = mset (taken_keys (D @ (F @ [(last (items s), x)])))"
    using items_taken_facts(1) [OF step_take(5)] by simp
  then show ?thesis using assms(1) step_take(1-3) items_taken_facts(2) [OF step_take(5)]
    by (simp add: exactly_once_def)
next
  case (step_close_socket s F P D fd)
  then show ?thesis using assms(1) by (simp add: exactly_once_def)
next
  case (step_produce s F P D le)
  then show ?thesis using assms(1) by (auto simp: exactly_once_def)
next
  case (step_process s F1 ex F2 P D)
  then show ?thesis using assms(1) by (auto simp: exactly_once_def)
qed

lemma in_order_step:
  assumes "in_order d" and "wq_step K 1 closing d d'"
  shows "in_order d'"
  using assms(2,1)
proof (cases rule: wq_step.cases)
  case (step_take F s slot x s' P D)
  with assms(1) items_taken_facts(1) [OF step_take(5)] show ?thesis by (simp add: in_order_def)
next
  case (step_process s F1 ex F2 P D)
  with assms(1) show ?thesis by (auto simp: in_order_def)
next
  case (step_close_socket s F P D fd)
  with assms(1) show ?thesis by (simp add: in_order_def)
qed (use assms(1) in \<open>auto simp: in_order_def\<close>)

interpretation once: inductive_invariant wq_init "wq_step K n closing" "exactly_once n closing" for K n closing
  by unfold_locales (simp add: exactly_once_def case_prod_beta, rule exactly_once_step)

interpretation ordered: inductive_invariant wq_init "wq_step K 1 closing" in_order for K closing
  by unfold_locales (simp add: in_order_def case_prod_beta, rule in_order_step)

text \<open>The elements of a closed socket stay marked while nothing is produced for it.\<close>

definition silent_since :: "fd \<Rightarrow> nat \<Rightarrow> (item \<times> item) list \<Rightarrow> ('w, 'z) delivery \<Rightarrow> bool" where
  "silent_since fd p D0 = (\<lambda>(s, F, P, D). p \<le> length P
     \<and> (\<forall>i \<in> set (items s) \<union> fst ` set F. it_fd i = fd \<longrightarrow> \<not> process i)
     \<and> (\<exists>E. D = D0 @ E \<and> (\<forall>i \<in> fst ` set E. it_fd i = fd \<longrightarrow> \<not> process i)))"

abbreviation produced_since :: "nat \<Rightarrow> ('w, 'z) delivery \<Rightarrow> fd set" where
  "produced_since p d \<equiv> fst ` set (drop p (fst (snd (snd d))))"

lemma silent_step:
  assumes "silent_since fd p D0 d" and "wq_step K n closing d d'" and "fd \<notin> produced_since p d'"
  shows "silent_since fd p D0 d'"
  using assms(2,1,3)
proof (cases rule: wq_step.cases)
  case (step_take F s slot x s' P D)
  with assms(1) items_taken_facts(2) [OF step_take(5)] show ?thesis by (simp add: silent_since_def)
next
  case (step_process s F1 ex F2 P D)
  with assms(1) obtain E where "D = D0 @ E" "\<forall>i \<in> fst ` set E. it_fd i = fd \<longrightarrow> \<not> process i"
    by (auto simp: silent_since_def)
  with assms(1) step_process show ?thesis by (auto simp: silent_since_def intro!: exI [of _ "E @ [ex]"])
next
  case (step_close_socket s F P D g)
  with assms(1) show ?thesis by (auto simp: silent_since_def items_closed)
qed (use assms(1,3) in \<open>auto simp: silent_since_def\<close>)

lemma silent_steps:
  assumes "(\<lambda>d d'. wq_step K n closing d d' \<and> fd \<notin> produced_since p d')\<^sup>*\<^sup>* d d'"
    and "silent_since fd p D0 d"
  shows "silent_since fd p D0 d'"
  using assms by (induction rule: rtranclp_induct) (auto intro: silent_step)

section \<open>Properties\<close>

text \<open>
  C3. With one consumer, events leave the deque in the order in which they were produced, each once: the elements that
  the consumer has finished, the one it has in hand and those in the deque, in this order, are the events produced.
  The consumer reads the event through a reference to the element that it has removed, so what the callback
  is called with is undefined; in the runs in which every such read still gives the removed element, and as long as no
  socket is closed, the calls of the callback are exactly the finished events, in order.
\<close>

theorem WorkQueue_fifo:
  assumes "reachable wq_init (wq_step K 1 closing) (s, F, P, D)"
  shows "P = taken_keys D @ taken_keys F @ map item_key (rev (items s)) \<and> length F \<le> 1
    \<and> (intact D \<and> \<not> closing \<longrightarrow> deliveries D = taken_keys D)"
  using ordered.reachable_inv [OF assms] once.reachable_inv [OF assms]
  by (auto simp: in_order_def exactly_once_def intro: deliveries_all)

text \<open>A queue that starts empty, hears of two events, and delivers the first.\<close>

definition demo_wq :: "sim wq" where
  "demo_wq = ts2.extend demo_ts2 (wq.fields 2 [] False 2)"

definition demo_item :: item where
  "demo_item = \<lparr>it_fd = 5, it_job = AVAILABLE_FOR_READ, process = True\<rparr>"

definition demo_event :: "job_type_t \<Rightarrow> listen_event" where
  "demo_event j = \<lparr>srv = Is_ThreadedServer2, le_fd = 5, job = j, events = 0\<rparr>"

definition demo_wq1 :: "sim wq" where
  "demo_wq1 = demo_wq\<lparr>items := [demo_item]\<rparr>"

lemma demo_wq_simps [simp]: "items demo_wq = []" "consumers_must_terminate demo_wq = False"
  "epollfd demo_wq = epollfd demo_ts2" "commandPipe demo_wq = commandPipe demo_ts2"
  "listen_sock demo_wq = listen_sock demo_ts2" "internalSocketData demo_wq = internalSocketData demo_ts2"
  by (simp_all add: demo_wq_def ts2.extend_def wq.fields_def)

lemma demo_delivery:
  assumes "n > 0"
  shows "reachable wq_init (wq_step K n c)
     (demo_wq, [(demo_item, x)], [(5, AVAILABLE_FOR_READ)], [])"
proof -
  have r0: "reachable wq_init (wq_step K n c) (demo_wq, [], [], [])"
    by (rule reach_init) simp
  have "snd (producer_callback (demo_event AVAILABLE_FOR_READ) demo_wq) = demo_wq1"
    by (simp add: producer_callback_def demo_event_def demo_wq1_def demo_item_def push_front_def)
  with reach_step [OF r0 step_produce [of _ _ _ _ _ _ _ "demo_event AVAILABLE_FOR_READ"]]
  have r1: "reachable wq_init (wq_step K n c) (demo_wq1, [], [(5, AVAILABLE_FOR_READ)], [])"
    by (simp add: demo_event_def)
  have "consumer_take (\<lambda>s i. x) demo_wq1 = Some (x, demo_wq)"
    by (simp add: consumer_take_def demo_wq1_def take_back_def demo_wq_def ts2.extend_def wq.fields_def)
  from reach_step [OF r1 step_take [OF _ _ this]] assms show ?thesis
    by (simp add: demo_wq1_def)
qed

lemma demo_delivered:
  "n > 0 \<Longrightarrow> reachable wq_init (wq_step K n c) (demo_wq, [], [(5, AVAILABLE_FOR_READ)], [(demo_item, x)])"
  using reach_step [OF demo_delivery step_process [of _ _ _ _ "[]", simplified]] by fastforce

theorem WorkQueue_fifo_witness:
  "reachable wq_init (wq_step sim_kernel 1 False) (demo_wq, [], [(5, AVAILABLE_FOR_READ)], [(demo_item, demo_item)])
   \<and> deliveries [(demo_item, demo_item)] = [(5, AVAILABLE_FOR_READ)]"
proof -
  have r: "reachable wq_init (wq_step sim_kernel 1 False) (demo_wq, [], [(5, AVAILABLE_FOR_READ)], [(demo_item, demo_item)])"
    by (rule demo_delivered) simp
  have "intact [(demo_item, demo_item)]" by (simp add: intact_def)
  with WorkQueue_fifo [OF r] r show ?thesis by (simp add: demo_item_def)
qed

text \<open>
  C4. With any number of consumers no event is lost in the deque and none is taken twice, also when sockets are closed:
  the events produced are those taken, followed by those in the deque, oldest first; those taken are, as a multiset,
  those finished and those in hand, of which there are at most as many as consumers. For each finished event the
  callback is called at most once, with what the consumer reads through its reference to the removed element,
  which is undefined; where the reads still give the removed elements, and as long as no socket is closed, it is called
  exactly once for each finished event, with that event.
\<close>

theorem WorkQueue_exactly_once:
  assumes "reachable wq_init (wq_step K n closing) (s, F, P, D)"
  shows "\<exists>taken. P = taken @ map item_key (rev (items s)) \<and> mset taken = mset (taken_keys D) + mset (taken_keys F)
    \<and> length F \<le> n \<and> length (deliveries D) \<le> length D
    \<and> (intact D \<and> \<not> closing \<longrightarrow> mset (deliveries D) + mset (taken_keys F) = mset taken)"
proof -
  have "intact D \<Longrightarrow> \<not> closing \<Longrightarrow> deliveries D = taken_keys D"
    using once.reachable_inv [OF assms] by (auto simp: exactly_once_def intro: deliveries_all)
  with once.reachable_inv [OF assms] show ?thesis
    by (auto simp: exactly_once_def deliveries_def)
qed

theorem WorkQueue_exactly_once_witness:
  "\<exists>taken. [(5, AVAILABLE_FOR_READ)] = taken @ map item_key (rev (items demo_wq))
     \<and> mset (deliveries [(demo_item, demo_item)]) + mset (taken_keys []) = mset taken"
proof -
  have r: "reachable wq_init (wq_step sim_kernel 2 False) (demo_wq, [], [(5, AVAILABLE_FOR_READ)], [(demo_item, demo_item)])"
    by (rule demo_delivered) simp
  have "intact [(demo_item, demo_item)]" by (simp add: intact_def)
  with WorkQueue_exactly_once [OF r] show ?thesis by auto
qed

text \<open>
  What the callback is called with is not what was produced when the memory of the removed element has
  changed before it is read.
\<close>

lemma WorkQueue_dangling_read:
  "\<exists>(s :: (sim, unit) wq_scheme) P D. reachable wq_init (wq_step sim_kernel 1 False) (s, [], P, D)
     \<and> deliveries D \<noteq> [] \<and> set (deliveries D) \<inter> set P = {}"
proof -
  let ?x = "demo_item\<lparr>it_fd := 6\<rparr>"
  have "reachable wq_init (wq_step sim_kernel 1 False) (demo_wq, [], [(5, AVAILABLE_FOR_READ)], [(demo_item, ?x)])"
    by (rule demo_delivered) simp
  moreover have "deliveries [(demo_item, ?x)] = [(6, AVAILABLE_FOR_READ)]" by (simp add: deliveries_def demo_item_def)
  ultimately show ?thesis
    by (intro exI [of _ demo_wq] exI [of _ "[(5, AVAILABLE_FOR_READ)]"] exI [of _ "[(demo_item, ?x)]"]) simp
qed



text \<open>
  The precondition on the consumers matters: \<^verbatim>\<open>close\<close> does not reach an item that a consumer has
  already taken. An event of the socket can be delivered after the socket was closed.
\<close>

lemma WorkQueue_close_race:
  "\<exists>(s :: (sim, unit) wq_scheme) s' F P D. reachable wq_init (wq_step sim_kernel 1 True) (s, F, P, [])
     \<and> snd (WorkQueue_close sim_kernel 5 s) = s'
     \<and> reachable wq_init (wq_step sim_kernel 1 True) (s', [], P, D) \<and> deliveries D = [(5, AVAILABLE_FOR_READ)]"
proof -
  let ?s = "snd (WorkQueue_close sim_kernel 5 demo_wq)"
  have r: "reachable wq_init (wq_step sim_kernel 1 True) (demo_wq, [(demo_item, demo_item)], [(5, AVAILABLE_FOR_READ)], [])"
    by (rule demo_delivery) simp
  from reach_step [OF r step_close_socket [of True]]
  have "reachable wq_init (wq_step sim_kernel 1 True)
      (?s, [(demo_item, demo_item)], [(5, AVAILABLE_FOR_READ)], [])" by simp
  from reach_step [OF this step_process [of _ _ _ _ "[]", simplified]]
  have d: "reachable wq_init (wq_step sim_kernel 1 True) (?s, [], [(5, AVAILABLE_FOR_READ)], [(demo_item, demo_item)])" by simp
  have "deliveries [(demo_item, demo_item)] = [(5, AVAILABLE_FOR_READ)]" by (simp add: deliveries_def demo_item_def)
  then show ?thesis by (intro exI conjI) (rule r, rule refl, rule d)
qed

text \<open>
  One turn of a consumer gives what it reads of the oldest event to the user's callback, with the work queue as its
  source, unless the mark says otherwise; it ends when told to, and waits when there is nothing to do.
\<close>

lemma consumer_turn_effect:
  "consumer_turn slot user s =
    (if consumers_must_terminate s then (Inr False, s)
     else if items s = [] then (Inl Blocked, s)
     else let s1 = s\<lparr>items := butlast (items s)\<rparr>; i = slot s1 (last (items s)) in
       if \<not> process i then (Inr True, s1)
       else case user \<lparr>srv = Is_WorkQueue, le_fd = it_fd i, job = it_job i, events = 0\<rparr> s1 of
              (None, s2) \<Rightarrow> (Inr True, s2) | (Some a, s2) \<Rightarrow> (Inl a, s2))"
  by (auto simp: consumer_turn_def consumer_take_def consumer_process_def take_back_def Let_def
      split: prod.split option.split)

end
