(* ===== verification/Condition_Variable.thy ===== *)
theory Condition_Variable
  imports Nbuss_Prelude
begin

text \<open>
  \<^verbatim>\<open>std::condition_variable\<close> for threads whose program counters stand in a list: the effect of \<^verbatim>\<open>notify_one\<close>, and how
  a sum over the threads changes when one of them moves, and how all of them move.
\<close>

text \<open>A notification wakes one of the threads that wait at that moment; when there is none, it is lost.\<close>

inductive notify_one :: "'p \<Rightarrow> 'p \<Rightarrow> 'p list \<Rightarrow> 'p list \<Rightarrow> bool" for waiting woken :: 'p where
  wakes: "i < length cs \<Longrightarrow> cs ! i = waiting \<Longrightarrow> notify_one waiting woken cs (cs[i := woken])"
| lost: "waiting \<notin> set cs \<Longrightarrow> notify_one waiting woken cs cs"

lemma notify_one_length [simp]: "notify_one w k cs cs' \<Longrightarrow> length cs' = length cs"
  by (induction rule: notify_one.induct) simp_all

lemma notify_one_other:
  "notify_one w k cs cs' \<Longrightarrow> j < length cs \<Longrightarrow> c \<noteq> w \<Longrightarrow> c \<noteq> k \<Longrightarrow> cs' ! j = c \<longleftrightarrow> cs ! j = c"
  by (induction rule: notify_one.induct) (auto simp: nth_list_update)

lemma notify_one_total: "\<exists>cs'. notify_one w k cs cs'"
proof (cases "w \<in> set cs")
  case True
  then show ?thesis by (auto simp: in_set_conv_nth intro: wakes)
qed (blast intro: lost)

lemma set_update_other:
  "i < length cs \<Longrightarrow> x \<noteq> cs ! i \<Longrightarrow> x \<noteq> c \<Longrightarrow> x \<in> set (cs[i := c]) \<longleftrightarrow> x \<in> set cs"
  by (fastforce simp: in_set_conv_nth nth_list_update)

text \<open>Numbers of threads, weighted by their program counters.\<close>

lemma sum_list_map_update:
  fixes f :: "'a \<Rightarrow> 'b :: comm_monoid_add"
  shows "i < length xs \<Longrightarrow> sum_list (map f (xs[i := y])) + f (xs ! i) = sum_list (map f xs) + f y"
  by (induction xs arbitrary: i) (auto split: nat.split simp: ac_simps)

text \<open>All threads make the same move, one after the other.\<close>

lemma all_threads_move:
  assumes move: "\<And>cs i. length cs = N \<Longrightarrow> i < N \<Longrightarrow> cs ! i = c \<Longrightarrow> step (f cs) (f (cs[i := c']))"
    and start: "reachable init step (f (replicate N c))"
  shows "reachable init step (f (replicate N c'))"
proof -
  have "reachable init step (f (replicate i c' @ replicate (N - i) c))" if "i \<le> N" for i
    using that
  proof (induction i)
    case (Suc i)
    then obtain j where j: "N - i = Suc j" by (metis Suc_diff_le Suc_le_D diff_Suc_Suc)
    let ?cs = "replicate i c' @ replicate (N - i) c"
    from Suc have "step (f ?cs) (f (?cs[i := c']))" by (intro move) (auto simp: nth_append)
    moreover have "?cs[i := c'] = replicate (Suc i) c' @ replicate (N - Suc i) c"
      using j by (simp add: list_update_append replicate_app_Cons_same)
    ultimately show ?case using Suc by (auto intro: reach_step)
  qed (use start in simp)
  from this [of N] show ?thesis by simp
qed

end
