(* ===== verification/WorkQueue_Stop.thy ===== *)
theory WorkQueue_Stop
  imports WorkQueue Condition_Variable
begin

text \<open>
  The hand-shake of \<^verbatim>\<open>WorkQueue::stop\<close> with any number of consumers and with the producer, as a step relation over
  program counters. Of the deque only its length matters here. Two results: \<^verbatim>\<open>stop\<close> returns when no consumer stands
  between its test of the flag and its wait at the moment the notifications begin, and it can wait for ever
  otherwise.
\<close>

section \<open>Threads\<close>

text \<open>
  \<open>C_head\<close> is the test of the outer loop of \<^verbatim>\<open>consumer\<close>, which is not under the mutex; \<open>C_lock\<close> the point before
  \<^verbatim>\<open>lk.lock()\<close>; \<open>C_wait\<close> is inside \<^verbatim>\<open>deque_cv.wait\<close> and \<open>C_woken\<close> the way out of it; \<open>C_busy\<close> is the treatment of an
  item, a callback of the user that returns. What happens between \<^verbatim>\<open>lk.lock()\<close> and the next release of the mutex
  is one step: no other thread takes part in it.
\<close>

datatype consumer_pc = C_head | C_lock | C_wait | C_woken | C_busy | C_done

text \<open>
  \<open>S_notify k\<close>: \<^verbatim>\<open>k\<close> notifications are left to send. \<open>S_join i\<close>: the threads before \<^verbatim>\<open>i\<close> are joined.
\<close>

datatype stop_pc = S_running | S_flag_set | S_notify nat | S_join nat | S_joined

text \<open>\<open>producing\<close> holds between \<^verbatim>\<open>push_front\<close> and \<^verbatim>\<open>notify_one\<close> of \<^verbatim>\<open>producer_callback\<close>.\<close>

record handshake =
  must_terminate :: bool
  n_items :: nat
  producing :: bool
  cpc :: "consumer_pc list"
  spc :: stop_pc

text \<open>The inner loop of \<^verbatim>\<open>consumer\<close>, up to the next wait or to the end of the critical section.\<close>

definition pop_or_wait :: "nat \<Rightarrow> consumer_pc \<times> nat" where
  "pop_or_wait n = (if n = 0 then (C_wait, 0) else (C_busy, n - 1))"

fun consumer_step :: "bool \<Rightarrow> nat \<Rightarrow> consumer_pc \<Rightarrow> (consumer_pc \<times> nat) option" where
  "consumer_step flag n C_head = Some (if flag then C_done else C_lock, n)"
| "consumer_step flag n C_lock = Some (pop_or_wait n)"
| "consumer_step flag n C_wait = None"
| "consumer_step flag n C_woken = Some (if flag then (C_done, n) else pop_or_wait n)"
| "consumer_step flag n C_busy = Some (C_head, n)"
| "consumer_step flag n C_done = None"

fun_cases consumer_stepE: "consumer_step flag n c = Some (c', n')"

text \<open>
  The parameter says whether a wait can also end without a notification, which the standard allows and does not
  promise. The producer is a thread of the server: it makes no step after \<^verbatim>\<open>threaded_server.stop()\<close> returned.
\<close>

inductive stop_step :: "bool \<Rightarrow> handshake \<Rightarrow> handshake \<Rightarrow> bool" for spurious :: bool where
  consume: "i < length (cpc h) \<Longrightarrow> consumer_step (must_terminate h) (n_items h) (cpc h ! i) = Some (c, n)
    \<Longrightarrow> stop_step spurious h (h\<lparr>cpc := (cpc h)[i := c], n_items := n\<rparr>)"
| wake_up: "spurious \<Longrightarrow> i < length (cpc h) \<Longrightarrow> cpc h ! i = C_wait
    \<Longrightarrow> stop_step spurious h (h\<lparr>cpc := (cpc h)[i := C_woken]\<rparr>)"
| p_push: "spc h \<in> {S_running, S_flag_set} \<Longrightarrow> \<not> producing h
    \<Longrightarrow> stop_step spurious h (h\<lparr>n_items := n_items h + 1, producing := True\<rparr>)"
| p_notify: "producing h \<Longrightarrow> notify_one C_wait C_woken (cpc h) cs
    \<Longrightarrow> stop_step spurious h (h\<lparr>cpc := cs, producing := False\<rparr>)"
| s_flag: "spc h = S_running \<Longrightarrow> stop_step spurious h (h\<lparr>must_terminate := True, spc := S_flag_set\<rparr>)"
| s_server: "spc h = S_flag_set \<Longrightarrow> \<not> producing h
    \<Longrightarrow> stop_step spurious h (h\<lparr>spc := S_notify (length (cpc h))\<rparr>)"
| s_notify: "spc h = S_notify (Suc k) \<Longrightarrow> notify_one C_wait C_woken (cpc h) cs
    \<Longrightarrow> stop_step spurious h (h\<lparr>cpc := cs, spc := S_notify k\<rparr>)"
| s_notified: "spc h = S_notify 0 \<Longrightarrow> stop_step spurious h (h\<lparr>spc := S_join 0\<rparr>)"
| s_join: "spc h = S_join i \<Longrightarrow> i < length (cpc h) \<Longrightarrow> cpc h ! i = C_done
    \<Longrightarrow> stop_step spurious h (h\<lparr>spc := S_join (Suc i)\<rparr>)"
| s_joined: "spc h = S_join (length (cpc h)) \<Longrightarrow> stop_step spurious h (h\<lparr>spc := S_joined, n_items := 0\<rparr>)"

text \<open>The state after \<^verbatim>\<open>start\<close> with \<^verbatim>\<open>n\<close> consumers.\<close>

definition started :: "nat \<Rightarrow> handshake" where
  "started n = \<lparr>must_terminate = False, n_items = 0, producing = False, cpc = replicate n C_head, spc = S_running\<rparr>"

section \<open>Invariant\<close>

text \<open>
  A consumer ends only after the flag is set, the threads that were joined have ended, and \<^verbatim>\<open>stop\<close> returns with all
  of them ended and the deque empty.
\<close>

definition joined_before :: "handshake \<Rightarrow> nat" where
  "joined_before h = (case spc h of S_join i \<Rightarrow> i | S_joined \<Rightarrow> length (cpc h) | _ \<Rightarrow> 0)"

definition stop_inv :: "nat \<Rightarrow> handshake \<Rightarrow> bool" where
  "stop_inv n h \<longleftrightarrow> length (cpc h) = n \<and> joined_before h \<le> n \<and> (\<forall>j<joined_before h. cpc h ! j = C_done)
     \<and> (must_terminate h \<longleftrightarrow> spc h \<noteq> S_running) \<and> (C_done \<in> set (cpc h) \<longrightarrow> must_terminate h)
     \<and> (producing h \<longrightarrow> spc h \<in> {S_running, S_flag_set}) \<and> (spc h = S_joined \<longrightarrow> n_items h = 0)"

lemma consumer_step_done:
  "consumer_step flag n c = Some (c', n') \<Longrightarrow> c \<noteq> C_done \<and> (c' = C_done \<longrightarrow> flag)"
  by (elim consumer_stepE) (auto simp: pop_or_wait_def split: if_splits)

lemma stop_invD:
  assumes "stop_inv n h"
  shows "length (cpc h) = n" and "j < joined_before h \<Longrightarrow> cpc h ! j = C_done"
    and "must_terminate h \<longleftrightarrow> spc h \<noteq> S_running" and "C_done \<in> set (cpc h) \<Longrightarrow> must_terminate h"
    and "producing h \<Longrightarrow> spc h \<in> {S_running, S_flag_set}" and "spc h = S_joined \<Longrightarrow> n_items h = 0"
  using assms by (auto simp: stop_inv_def)

text \<open>
  A step of the consumers or of a notification changes the counters of threads that have not ended: what was
  joined stays joined.
\<close>

lemma stop_inv_cpc:
  assumes inv: "stop_inv n h" and len: "length cs = length (cpc h)"
    and joined: "\<And>j. j < length cs \<Longrightarrow> cpc h ! j = C_done \<Longrightarrow> cs ! j = C_done"
    and ended: "\<And>j. j < length cs \<Longrightarrow> cs ! j = C_done \<Longrightarrow> cpc h ! j = C_done \<or> must_terminate h"
    and n: "spc h = S_joined \<Longrightarrow> m = 0" and p: "b \<Longrightarrow> producing h"
  shows "stop_inv n (h\<lparr>cpc := cs, n_items := m, producing := b\<rparr>)"
proof -
  have jb: "joined_before (h\<lparr>cpc := cs, n_items := m, producing := b\<rparr>) = joined_before h"
    using len by (cases "spc h") (simp_all add: joined_before_def)
  have "must_terminate h" if "C_done \<in> set cs"
    using that ended len stop_invD(4) [OF inv] by (force simp: in_set_conv_nth)
  moreover have "joined_before h \<le> n" using inv by (simp add: stop_inv_def)
  ultimately show ?thesis
    using stop_invD [OF inv] joined len n p unfolding stop_inv_def jb by auto
qed

lemma stop_inv_step:
  assumes inv: "stop_inv n h" and step: "stop_step b h h'"
  shows "stop_inv n h'"
  using step
proof cases
  case (consume i c m)
  note c = consumer_step_done [OF consume(3)]
  have "spc h \<noteq> S_joined"
    using stop_invD(2) [OF inv, of i] consume(2) c by (auto simp: joined_before_def)
  then have "stop_inv n (h\<lparr>cpc := (cpc h)[i := c], n_items := m, producing := producing h\<rparr>)"
    by (intro stop_inv_cpc [OF inv]) (use c consume(2) in \<open>auto simp: nth_list_update split: if_splits\<close>)
  then show ?thesis unfolding consume(1) by simp
next
  case (wake_up i)
  have "stop_inv n (h\<lparr>cpc := (cpc h)[i := C_woken], n_items := n_items h, producing := producing h\<rparr>)"
    by (intro stop_inv_cpc [OF inv])
      (use wake_up stop_invD(6) [OF inv] in \<open>auto simp: nth_list_update split: if_splits\<close>)
  then show ?thesis unfolding wake_up(1) by simp
next
  case (p_notify cs)
  have "stop_inv n (h\<lparr>cpc := cs, n_items := n_items h, producing := False\<rparr>)"
    by (intro stop_inv_cpc [OF inv]) (use p_notify(3) stop_invD(6) [OF inv] in \<open>auto simp: notify_one_other\<close>)
  then show ?thesis unfolding p_notify(1) by simp
next
  case (s_notify k cs)
  have "stop_inv n (h\<lparr>cpc := cs, n_items := n_items h, producing := producing h\<rparr>)"
    by (intro stop_inv_cpc [OF inv]) (use s_notify(3) stop_invD(6) [OF inv] in \<open>auto simp: notify_one_other\<close>)
  with s_notify(2) show ?thesis unfolding s_notify(1) by (simp add: stop_inv_def joined_before_def)
next
  case (s_join i)
  with inv show ?thesis by (auto simp: stop_inv_def joined_before_def less_Suc_eq)
qed (use inv in \<open>auto simp: stop_inv_def joined_before_def\<close>)

lemma stop_inv_started: "stop_inv n (started n)"
  by (simp add: stop_inv_def started_def joined_before_def)

interpretation handshake: inductive_invariant "(=) (started n)" "stop_step b" "stop_inv n" for n b
  by unfold_locales (use stop_inv_started in blast, rule stop_inv_step)

lemma stop_inv_joined:
  assumes "stop_inv n h" and "spc h = S_joined"
  shows "cpc h = replicate n C_done \<and> n_items h = 0"
  using stop_invD(1,2,6) [OF assms(1)] assms(2) by (auto simp: joined_before_def intro: nth_equalityI)

section \<open>When the hand-shake ends\<close>

text \<open>
  The server is stopped and no consumer is between its test of the flag and its wait: every consumer that waits
  has a notification left for it.
\<close>

definition waits :: "consumer_pc list \<Rightarrow> nat" where
  "waits cs = (\<Sum>c\<leftarrow>cs. of_bool (c = C_wait))"

definition winding_up :: "handshake \<Rightarrow> bool" where
  "winding_up h \<longleftrightarrow> must_terminate h \<and> \<not> producing h \<and> C_lock \<notin> set (cpc h)
     \<and> (case spc h of S_notify k \<Rightarrow> waits (cpc h) \<le> k | S_join i \<Rightarrow> waits (cpc h) = 0 | S_joined \<Rightarrow> True | _ \<Rightarrow> False)"

text \<open>The number of steps that are left when nothing more is produced.\<close>

fun consumer_left :: "consumer_pc \<Rightarrow> nat" where
  "consumer_left C_head = 1"
| "consumer_left C_lock = 3"
| "consumer_left C_wait = 2"
| "consumer_left C_woken = 1"
| "consumer_left C_busy = 2"
| "consumer_left C_done = 0"

fun stopper_left :: "nat \<Rightarrow> stop_pc \<Rightarrow> nat" where
  "stopper_left n (S_notify k) = k + n + 3"
| "stopper_left n (S_join i) = n - i + 1"
| "stopper_left n S_joined = 0"
| "stopper_left n _ = 2 * n + 4"

definition stop_left :: "handshake \<Rightarrow> nat" where
  "stop_left h = (\<Sum>c\<leftarrow>cpc h. consumer_left c) + of_bool (producing h) + stopper_left (length (cpc h)) (spc h)"

lemma waits_0: "waits cs = 0 \<longleftrightarrow> C_wait \<notin> set cs"
  by (auto simp: waits_def)

lemma waits_le_length: "waits cs \<le> length cs"
  by (induction cs) (auto simp: waits_def)

lemma consumer_step_left: "consumer_step True n c = Some (c', n') \<Longrightarrow> consumer_left c' < consumer_left c"
  by (elim consumer_stepE) (auto simp: pop_or_wait_def split: if_splits)

lemma consumer_step_winding_up:
  "consumer_step True n c = Some (c', n') \<Longrightarrow> c \<noteq> C_lock \<Longrightarrow> c' \<noteq> C_lock \<and> c' \<noteq> C_wait"
  by (elim consumer_stepE) auto

text \<open>One thread moves.\<close>

lemma thread_left:
  assumes "i < length cs" and "consumer_left c' < consumer_left (cs ! i)"
  shows "(\<Sum>c\<leftarrow>cs[i := c']. consumer_left c) < (\<Sum>c\<leftarrow>cs. consumer_left c)"
  using sum_list_map_update [OF assms(1), of consumer_left c'] assms(2) by simp

lemma thread_waits:
  assumes "i < length cs" and "c' \<noteq> C_wait"
  shows "waits (cs[i := c']) = waits cs - of_bool (cs ! i = C_wait)"
  using sum_list_map_update [OF assms(1), of "\<lambda>c. of_bool (c = C_wait) :: nat" c'] assms(2) by (simp add: waits_def)

lemma thread_lock: "C_lock \<notin> set cs \<Longrightarrow> c' \<noteq> C_lock \<Longrightarrow> C_lock \<notin> set (cs[i := c'])"
  using set_update_subset_insert [of cs i c'] by auto

lemma notify_one_left: "notify_one C_wait C_woken cs cs' \<Longrightarrow> (\<Sum>c\<leftarrow>cs'. consumer_left c) \<le> (\<Sum>c\<leftarrow>cs. consumer_left c)"
  by (induction rule: notify_one.induct) (simp_all add: less_imp_le thread_left)

lemma notify_one_waits: "notify_one C_wait C_woken cs cs' \<Longrightarrow> waits cs' = waits cs - 1"
  by (induction rule: notify_one.induct) (simp_all add: thread_waits waits_0 [THEN iffD2])

lemma notify_one_lock: "notify_one C_wait C_woken cs cs' \<Longrightarrow> C_lock \<notin> set cs \<Longrightarrow> C_lock \<notin> set cs'"
  by (induction rule: notify_one.induct) (simp_all add: thread_lock)

text \<open>Once the flag is set, every step but the production of an event brings the end closer.\<close>

lemma stop_left_decreases:
  assumes "stop_step b h h'" and "must_terminate h" and "spc h \<noteq> S_running"
  shows "(\<not> producing h \<and> producing h') \<or> stop_left h' < stop_left h"
  using assms(1)
proof cases
  case (consume i c m)
  with thread_left [OF consume(2) consumer_step_left [OF consume(3) [simplified assms(2)]]] show ?thesis
    by (simp add: stop_left_def)
next
  case (wake_up i)
  with thread_left [of i "cpc h" C_woken] show ?thesis by (simp add: stop_left_def)
next
  case (p_notify cs)
  with notify_one_left [OF p_notify(3)] show ?thesis by (simp add: stop_left_def)
next
  case (s_notify k cs)
  with notify_one_left [OF s_notify(3)] show ?thesis by (simp add: stop_left_def)
qed (use assms(3) in \<open>auto simp: stop_left_def\<close>)

lemma winding_up_step:
  assumes "winding_up h" and "stop_step b h h'"
  shows "winding_up h'"
  using assms(2)
proof cases
  case (consume i c m)
  have lock: "cpc h ! i \<noteq> C_lock" and flag: "must_terminate h"
    using assms(1) nth_mem [OF consume(2)] by (auto simp: winding_up_def)
  from consumer_step_winding_up [OF consume(3) [simplified flag] lock] thread_waits [OF consume(2), of c] assms(1)
  show ?thesis unfolding consume(1) by (auto simp: winding_up_def thread_lock split: stop_pc.splits)
next
  case (wake_up i)
  with thread_waits [of i "cpc h" C_woken] assms(1) show ?thesis
    by (auto simp: winding_up_def thread_lock split: stop_pc.splits)
next
  case (s_notify k cs)
  with assms(1) notify_one_waits [OF s_notify(3)] notify_one_lock [OF s_notify(3)] show ?thesis
    by (auto simp: winding_up_def)
qed (use assms(1) in \<open>auto simp: winding_up_def\<close>)

text \<open>A consumer that has not ended and does not wait can always make a step.\<close>

lemma consumer_step_enabled: "c \<noteq> C_wait \<Longrightarrow> c \<noteq> C_done \<Longrightarrow> \<exists>c' n'. consumer_step flag n c = Some (c', n')"
  by (cases c) (auto simp: pop_or_wait_def)

text \<open>
  The hand-shake gets stuck in one way only: \<^verbatim>\<open>stop\<close> joins a consumer that waits, and no consumer is left that could
  run.
\<close>

lemma handshake_progress:
  assumes "stop_inv n h" and "spc h \<notin> {S_running, S_flag_set}" and stuck: "\<And>h'. \<not> stop_step b h h'"
  shows "spc h = S_joined \<or> \<not> b \<and> set (cpc h) \<subseteq> {C_wait, C_done}
    \<and> (\<exists>i<length (cpc h). spc h = S_join i \<and> cpc h ! i = C_wait)"
proof -
  have cs: "cpc h ! i = C_wait \<and> \<not> b \<or> cpc h ! i = C_done" if "i < length (cpc h)" for i
    using that stuck consumer_step_enabled [of "cpc h ! i" "must_terminate h" "n_items h"]
    by (blast intro: consume wake_up)
  show ?thesis
  proof (cases "spc h")
    case (S_notify k)
    from notify_one_total [of C_wait C_woken "cpc h"] obtain cs where "notify_one C_wait C_woken (cpc h) cs" by blast
    with S_notify stuck show ?thesis by (cases k) (blast intro: s_notify s_notified)+
  next
    case (S_join i)
    with assms(1) have "i \<le> length (cpc h)" by (simp add: stop_inv_def joined_before_def)
    with S_join stuck have "i < length (cpc h)" by (metis le_neq_implies_less s_joined)
    moreover from this S_join stuck have "cpc h ! i \<noteq> C_done" by (blast intro: s_join)
    moreover have "set (cpc h) \<subseteq> {C_wait, C_done}" using cs by (fastforce simp: in_set_conv_nth)
    ultimately show ?thesis using cs S_join by blast
  qed (use assms(2) in simp_all)
qed

lemma winding_up_progress:
  assumes "winding_up h" and "stop_inv n h"
  shows "spc h = S_joined \<or> (\<exists>h'. stop_step b h h')"
proof (rule ccontr)
  assume contra: "\<not> ?thesis"
  from assms(1) have "spc h \<notin> {S_running, S_flag_set}" by (auto simp: winding_up_def)
  from handshake_progress [OF assms(2) this, of b] contra
  obtain i where "i < length (cpc h)" "spc h = S_join i" "cpc h ! i = C_wait" by blast
  with assms(1) show False by (auto simp: winding_up_def waits_0 in_set_conv_nth)
qed

section \<open>When it does not\<close>

text \<open>All consumers make the same move, one after the other.\<close>

lemma all_move:
  assumes move: "consumer_step (must_terminate h) (n_items h) c = Some (c', n_items h)"
    and start: "reachable init (stop_step b) (h\<lparr>cpc := replicate N c\<rparr>)"
  shows "reachable init (stop_step b) (h\<lparr>cpc := replicate N c'\<rparr>)"
proof (rule all_threads_move [where f = "\<lambda>cs. h\<lparr>cpc := cs\<rparr>", OF _ start])
  fix cs i assume "length cs = N" "i < N" "cs ! i = c"
  then show "stop_step b (h\<lparr>cpc := cs\<rparr>) (h\<lparr>cpc := cs[i := c']\<rparr>)"
    using move consume [of i "h\<lparr>cpc := cs\<rparr>" c' "n_items h" b] by simp
qed

text \<open>Notifications that find nobody waiting are lost.\<close>

lemma notifications_lost:
  assumes "reachable init (stop_step b) (h\<lparr>spc := S_notify k\<rparr>)" and "C_wait \<notin> set (cpc h)"
  shows "reachable init (stop_step b) (h\<lparr>spc := S_notify 0\<rparr>)"
  using assms(1)
proof (induction k)
  case (Suc k)
  have "stop_step b (h\<lparr>spc := S_notify (Suc k)\<rparr>) (h\<lparr>spc := S_notify k\<rparr>)"
    using s_notify [of "h\<lparr>spc := S_notify (Suc k)\<rparr>" k "cpc h" b] lost [OF assms(2)] by simp
  with Suc show ?case by (blast intro: reach_step)
qed simp

section \<open>Properties\<close>

text \<open>
  C30. \<^verbatim>\<open>WorkQueue::stop\<close> can wait for ever, with any number of consumers. A consumer tests the flag without the mutex:
  when \<^verbatim>\<open>stop\<close> sets the flag and notifies after that test and before the consumer waits, the notification is lost.
  There is a reachable state in which \<^verbatim>\<open>stop\<close> joins the first thread, all consumers wait, and no thread can make a
  step, unless a wait ends without a notification.
\<close>

theorem WorkQueue_stop_deadlock:
  "\<exists>h. reachable ((=) (started (Suc n))) (stop_step False) h
     \<and> spc h = S_join 0 \<and> cpc h = replicate (Suc n) C_wait \<and> (\<forall>h'. \<not> stop_step False h h')"
proof -
  let ?N = "Suc n" and ?R = "reachable ((=) (started (Suc n))) (stop_step False)"
  let ?h = "\<lambda>f c p. \<lparr>must_terminate = f, n_items = 0, producing = False, cpc = replicate (Suc n) c, spc = p\<rparr>"
  have "?R (?h False C_head S_running)" by (rule reach_init) (simp add: started_def)
  then have "?R (?h False C_lock S_running)"
    using all_move [of "?h False C_head S_running" C_head C_lock _ False ?N] by simp
  from reach_step [OF this s_flag] have "?R (?h True C_lock S_flag_set)" by simp
  from reach_step [OF this s_server] have "?R (?h True C_lock (S_notify ?N))" by simp
  then have "?R (?h True C_lock (S_notify 0))"
    using notifications_lost [of _ False ?N "?h True C_lock S_running"] by simp
  from reach_step [OF this s_notified] have "?R (?h True C_lock (S_join 0))" by simp
  then have "?R (?h True C_wait (S_join 0))"
    using all_move [of "?h True C_lock (S_join 0)" C_lock C_wait _ False ?N] by (simp add: pop_or_wait_def)
  moreover have "\<not> stop_step False (?h True C_wait (S_join 0)) h'" for h'
    by (auto elim!: stop_step.cases simp del: replicate_Suc)
  ultimately show ?thesis by fastforce
qed

text \<open>
  C29. \<^verbatim>\<open>WorkQueue::stop\<close> returns when at the moment the server has stopped and it begins to notify no consumer is
  between its test of the flag and its wait. From then on, whatever the order in which the threads run, some thread can make a step until \<^verbatim>\<open>stop\<close> has
  returned, and every step leaves fewer steps to make; one notification per consumer is enough.
\<close>

theorem WorkQueue_stop_returns:
  assumes "reachable ((=) (started n)) (stop_step b) h" and "spc h = S_flag_set"
    and "stop_step b h h1" and "spc h1 \<noteq> S_flag_set" and "C_lock \<notin> set (cpc h1)"
    and "(stop_step b)\<^sup>*\<^sup>* h1 h'"
  shows "(spc h' = S_joined \<or> (\<exists>t. stop_step b h' t)) \<and> (stop_step b h' t \<longrightarrow> stop_left t < stop_left h')"
proof -
  note inv = handshake.reachable_inv [OF assms(1)]
  from inv assms(3) have inv1: "stop_inv n h1" by (rule stop_inv_step)
  from assms(3) have "winding_up h1"
  proof cases
    case s_server
    with stop_invD(3) [OF inv] assms(5) show ?thesis by (simp add: winding_up_def waits_le_length)
  qed (use assms(2,4) in auto)
  with assms(6) have "winding_up h' \<and> stop_inv n h'"
    by (induction rule: rtranclp_induct) (use inv1 winding_up_step stop_inv_step in blast)+
  moreover from this have "must_terminate h' \<and> spc h' \<notin> {S_running, S_flag_set} \<and> \<not> producing h'"
    by (auto simp: winding_up_def)
  ultimately show ?thesis
    using winding_up_progress [of h' n b] stop_left_decreases [of b h' t] winding_up_step [of h' b t]
    by (auto simp: winding_up_def)
qed

theorem WorkQueue_stop_returns_witness:
  "\<exists>h. reachable ((=) (started 2)) (stop_step False) h \<and> spc h = S_notify 2 \<and> cpc h = [C_wait, C_wait]
     \<and> (\<exists>t. stop_step False h t)"
proof -
  let ?R = "reachable ((=) (started 2)) (stop_step False)"
  let ?h = "\<lambda>f c p. \<lparr>must_terminate = f, n_items = 0, producing = False, cpc = replicate 2 c, spc = p\<rparr>"
  have "?R (?h False C_head S_running)" by (rule reach_init) (simp add: started_def)
  then have "?R (?h False C_lock S_running)"
    using all_move [of "?h False C_head S_running" C_head C_lock _ False 2] by simp
  then have "?R (?h False C_wait S_running)"
    using all_move [of "?h False C_lock S_running" C_lock C_wait _ False 2] by (simp add: pop_or_wait_def)
  from reach_step [OF this s_flag] have q: "?R (?h True C_wait S_flag_set)" by simp
  have st: "stop_step False (?h True C_wait S_flag_set) (?h True C_wait (S_notify 2))"
    using s_server [of "?h True C_wait S_flag_set" False] by simp
  from q st have r: "?R (?h True C_wait (S_notify 2))" by (rule reach_step)
  from WorkQueue_stop_returns [OF q _ st _ _ rtranclp.rtrancl_refl] have "\<exists>t. stop_step False (?h True C_wait (S_notify 2)) t" by auto
  with r show ?thesis by (intro exI [of _ "?h True C_wait (S_notify 2)"]) (simp add: numeral_2_eq_2)
qed

end
