(* ===== verification/WorkQueue_Shutdown.thy ===== *)
theory WorkQueue_Shutdown
  imports Shutdown WorkQueue_Stop
begin

text \<open>
  \<^verbatim>\<open>WorkQueue::stop\<close> as a whole: the hand-shake with the consumers composed with \<^verbatim>\<open>ThreadedServer2::stop\<close>, which it
  calls, and with the two threads of the server, one of which is the producer. The product of the step relations
  of \<open>Shutdown\<close> and \<open>WorkQueue_Stop\<close>.
\<close>

section \<open>The product\<close>

text \<open>
  The threads of the server run at any time, the stopping thread of the server only inside the call from
  \<^verbatim>\<open>WorkQueue::stop\<close>, which returns when both threads are joined. An event is produced by the listening thread while it
  treats what \<^verbatim>\<open>epoll_wait\<close> gave, which is at \<open>L_woken\<close>, and it goes on only after the notification.
\<close>

inductive wq_stop_step :: "bool \<Rightarrow> shutdown \<times> handshake \<Rightarrow> shutdown \<times> handshake \<Rightarrow> bool" for spurious :: bool where
  in_server: "shutdown_step s s' \<Longrightarrow> (xpc s' = xpc s \<and> tpc (proto s') = tpc (proto s)) \<or> spc h = S_flag_set
    \<Longrightarrow> (producing h \<longrightarrow> lpc (proto s') = lpc (proto s))
    \<Longrightarrow> wq_stop_step spurious (s, h) (s', h)"
| in_queue: "stop_step spurious h h' \<Longrightarrow> (\<not> producing h \<and> producing h' \<longrightarrow> lpc (proto s) = L_woken)
    \<Longrightarrow> (spc h = S_flag_set \<and> spc h' \<noteq> S_flag_set \<longrightarrow> xpc s = X_done)
    \<Longrightarrow> wq_stop_step spurious (s, h) (s, h')"

definition wq_stop_init :: "nat \<Rightarrow> shutdown \<times> handshake \<Rightarrow> bool" where
  "wq_stop_init n p \<longleftrightarrow> shutdown_init (fst p) \<and> snd p = started n"

text \<open>Both components keep their invariants, and the two agree on how far the call has got.\<close>

definition wq_stop_inv :: "nat \<Rightarrow> shutdown \<times> handshake \<Rightarrow> bool" where
  "wq_stop_inv n = (\<lambda>(s, h). shutdown_inv s \<and> stop_inv n h
     \<and> (producing h \<longrightarrow> lpc (proto s) = L_woken)
     \<and> (spc h = S_running \<longrightarrow> xpc s = X_flag) \<and> (spc h \<notin> {S_running, S_flag_set} \<longrightarrow> xpc s = X_done))"

lemma stop_step_spc:
  assumes "stop_step b h h'"
  shows "spc h' = S_running \<longrightarrow> spc h = S_running"
    and "spc h' \<notin> {S_running, S_flag_set} \<longrightarrow> spc h \<noteq> S_running"
  using assms by (cases; simp)+

lemma shutdown_done_stuck:
  assumes "shutdown_inv s" and "xpc s = X_done"
  shows "\<not> shutdown_step s s'"
proof
  assume "shutdown_step s s'"
  moreover from shutdown_invD(1,6,8) [OF assms(1)] assms(2)
  have "lpc (proto s) = L_done" "tpc (proto s) = T_done" "wpc s = W_done" by (auto simp: ready_inv_def)
  ultimately show False using assms(2) by (auto elim!: shutdown_step.cases protocol_step.cases)
qed

lemma wq_stop_inv_step:
  assumes "wq_stop_inv n p" and "wq_stop_step b p p'"
  shows "wq_stop_inv n p'"
  using assms(2)
proof cases
  case (in_server s s' h)
  then show ?thesis
    using assms(1) shutdown_inv_step [OF in_server(3)] shutdown_done_stuck [of s s']
    by (auto simp: wq_stop_inv_def)
next
  case (in_queue h h' s)
  then show ?thesis
    using assms(1) stop_inv_step [OF _ in_queue(3), of n] stop_step_spc [OF in_queue(3)]
    by (cases "spc h'"; cases "spc h") (auto simp: wq_stop_inv_def)
qed

interpretation whole_stop: inductive_invariant "wq_stop_init n" "wq_stop_step b" "wq_stop_inv n" for n b
proof
  show "wq_stop_inv n p" if "wq_stop_init n p" for p
    using that stop_inv_started [of n]
    by (cases p) (simp add: wq_stop_init_def wq_stop_inv_def shutdown_inv_def ready_inv_def started_def)
qed (rule wq_stop_inv_step)

section \<open>Progress\<close>

text \<open>Steps that need no event from outside.\<close>

definition wq_stop_enabled :: "bool \<Rightarrow> shutdown \<times> handshake \<Rightarrow> bool" where
  "wq_stop_enabled b = (\<lambda>(s, h). (\<exists>h'. wq_stop_step b (s, h) (s, h'))
     \<or> spc h = S_flag_set \<and> \<not> producing h \<and> shutdown_enabled s)"

text \<open>The wake-up that was lost: \<^verbatim>\<open>stop\<close> joins a consumer that waits, and all others wait or have ended.\<close>

definition lost_wake_up :: "handshake \<Rightarrow> bool" where
  "lost_wake_up h \<longleftrightarrow> set (cpc h) \<subseteq> {C_wait, C_done} \<and> (\<exists>i<length (cpc h). spc h = S_join i \<and> cpc h ! i = C_wait)"

definition wq_stop_left :: "shutdown \<times> handshake \<Rightarrow> nat" where
  "wq_stop_left = (\<lambda>(s, h). shutdown_rank s + stop_left h)"

lemma in_server_phase:
  assumes inv: "wq_stop_inv n (s, h)" and "spc h = S_flag_set"
  shows "wq_stop_enabled b (s, h)"
proof -
  consider (notify) "producing h" | (server) "\<not> producing h" "xpc s \<noteq> X_done" | (returns) "\<not> producing h" "xpc s = X_done"
    by blast
  then show ?thesis
  proof cases
    case notify
    from notify_one_total [of C_wait C_woken "cpc h"] obtain cs where "notify_one C_wait C_woken (cpc h) cs" by blast
    from p_notify [OF notify this, of b] notify assms(2) show ?thesis
      unfolding wq_stop_enabled_def by (force intro: in_queue)
  next
    case server
    from inv have "shutdown_inv s" by (simp add: wq_stop_inv_def)
    from shutdown_progress [OF this] server assms(2) show ?thesis by (simp add: wq_stop_enabled_def)
  next
    case returns
    from s_server [OF assms(2) returns(1), of b] returns show ?thesis
      unfolding wq_stop_enabled_def by (force intro: in_queue)
  qed
qed

lemma in_queue_phase:
  assumes inv: "wq_stop_inv n (s, h)" and "spc h \<notin> {S_running, S_flag_set}"
  shows "spc h = S_joined \<or> wq_stop_enabled b (s, h) \<or> \<not> b \<and> lost_wake_up h"
proof (cases "\<exists>h'. stop_step b h h'")
  case True
  then obtain h' where step: "stop_step b h h'" by blast
  then have "wq_stop_step b (s, h) (s, h')"
    using assms(2) by (intro in_queue) (auto elim: stop_step.cases)
  then show ?thesis by (auto simp: wq_stop_enabled_def)
next
  case False
  from inv have "stop_inv n h" by (simp add: wq_stop_inv_def)
  from handshake_progress [OF this assms(2), of b] False show ?thesis by (auto simp: lost_wake_up_def)
qed

lemma wq_stop_left_decreases:
  assumes inv: "wq_stop_inv n (s, h)" and "tpc (proto s) \<notin> {T_read, T_set}" and "wq_stop_step b (s, h) (s', h')"
  shows "(\<not> producing h \<and> producing h') \<or> wq_stop_left (s', h') < wq_stop_left (s, h)"
  using assms(3)
proof cases
  case in_server
  with inv shutdown_rank_decreases [of s s'] assms(2) show ?thesis by (simp add: wq_stop_inv_def wq_stop_left_def)
next
  case in_queue
  from inv assms(2) shutdown_invD(4) [of s] have "spc h \<noteq> S_running" by (auto simp: wq_stop_inv_def)
  moreover from this inv have "must_terminate h" using stop_invD(3) [of n h] by (simp add: wq_stop_inv_def)
  ultimately show ?thesis using stop_left_decreases [OF in_queue(2)] in_queue(1) by (simp add: wq_stop_left_def)
qed

section \<open>Properties\<close>

text \<open>
  C28. \<^verbatim>\<open>WorkQueue::stop\<close> with everything it waits for: the two threads of the server, the consumers, and the calls of
  \<^verbatim>\<open>ThreadedServer2::stop\<close> and \<^verbatim>\<open>IGenericServer::terminate\<close> inside it. Once \<^verbatim>\<open>stop\<close> has been called, in every reachable
  state it has returned with all consumers ended and the deque empty, or some thread can go on without an event
  from outside, or the one hang of this code has happened: a consumer missed its notification, and no wait ends
  without one. After the flag of the server is stored, every step but the production of an event leaves fewer steps
  to make.
\<close>

theorem WorkQueue_stop_whole:
  assumes "reachable (wq_stop_init n) (wq_stop_step b) (s, h)" and "spc h \<noteq> S_running"
  shows "(spc h = S_joined \<and> cpc h = replicate n C_done \<and> n_items h = 0
      \<or> wq_stop_enabled b (s, h) \<or> \<not> b \<and> lost_wake_up h)
    \<and> (tpc (proto s) \<notin> {T_read, T_set} \<and> wq_stop_step b (s, h) (s', h') \<longrightarrow>
        (\<not> producing h \<and> producing h') \<or> wq_stop_left (s', h') < wq_stop_left (s, h))"
proof -
  note inv = whole_stop.reachable_inv [OF assms(1)]
  then have "stop_inv n h" by (simp add: wq_stop_inv_def)
  then have joined: "cpc h = replicate n C_done \<and> n_items h = 0" if "spc h = S_joined"
    using that stop_inv_joined by blast
  have "spc h = S_joined \<or> wq_stop_enabled b (s, h) \<or> \<not> b \<and> lost_wake_up h"
    using in_server_phase [OF inv] in_queue_phase [OF inv] assms(2) by blast
  with joined wq_stop_left_decreases [OF inv] show ?thesis by blast
qed

theorem WorkQueue_stop_whole_witness:
  "\<exists>s h. reachable (wq_stop_init 3) (wq_stop_step False) (s, h) \<and> spc h = S_flag_set \<and> wq_stop_enabled False (s, h)"
proof -
  let ?s = "\<lparr>proto = start_state L_check, stop2 = False, n_ready = 0, wpc = W_head, xpc = X_flag\<rparr>"
  let ?h = "(started 3)\<lparr>must_terminate := True, spc := S_flag_set\<rparr>"
  have "reachable (wq_stop_init 3) (wq_stop_step False) (?s, started 3)"
    by (rule reach_init) (simp add: wq_stop_init_def)
  moreover have "wq_stop_step False (?s, started 3) (?s, ?h)"
    by (rule in_queue [OF s_flag]) (simp_all add: started_def)
  ultimately have r: "reachable (wq_stop_init 3) (wq_stop_step False) (?s, ?h)" by (rule reach_step)
  from WorkQueue_stop_whole [OF r] have "wq_stop_enabled False (?s, ?h)" by (simp add: lost_wake_up_def)
  with r show ?thesis by (intro exI [of _ ?s] exI [of _ ?h]) simp
qed

end
