(* ===== verification/Thread_Loops.thy ===== *)
theory Thread_Loops
  imports WorkQueue
begin

text \<open>
  The loops of the threads: the write queue worker of \<^verbatim>\<open>ThreadedServer2\<close> and the consumers of \<^verbatim>\<open>WorkQueue\<close>. A thread
  runs turn after turn until it waits or ends. Both loops are instances of one function, and that they get to
  this point is shown with one contract, the locale \<open>turns\<close>.
\<close>

section \<open>Running until the thread waits\<close>

partial_function (option) run_turns :: "('s \<Rightarrow> bool outcome \<times> 's) \<Rightarrow> 's \<Rightarrow> (bool outcome \<times> 's) option" where
  "run_turns turn s =
     (let (r, s') = turn s in if r = Inr True then run_turns turn s' else Some (r, s'))"

declare run_turns.simps [code]

text \<open>A turn after which the loop goes on keeps the invariant and brings the end closer.\<close>

locale turns =
  fixes turn :: "'s \<Rightarrow> bool outcome \<times> 's" and inv :: "'s \<Rightarrow> bool" and rank :: "'s \<Rightarrow> nat"
  assumes turn_goes_on: "inv s \<Longrightarrow> turn s = (Inr True, s') \<Longrightarrow> inv s' \<and> rank s' < rank s"
begin

lemma run_turns_last:
  assumes "inv s"
  shows "\<exists>t r s'. run_turns turn s = Some (r, s') \<and> inv t \<and> turn t = (r, s') \<and> r \<noteq> Inr True"
  using assms
proof (induction "rank s" arbitrary: s rule: less_induct)
  case less
  obtain r s' where r: "turn s = (r, s')" by (cases "turn s")
  show ?case
  proof (cases "r = Inr True")
    case True
    with r turn_goes_on [OF less.prems] less.hyps show ?thesis by (auto simp: run_turns.simps [of turn s])
  next
    case False
    with r less.prems show ?thesis by (auto simp: run_turns.simps [of turn s])
  qed
qed

end

section \<open>The write queue worker\<close>

definition write_queue_worker ::
  "'w kernel \<Rightarrow> ('w, 'z) ts2_scheme \<Rightarrow> (bool outcome \<times> ('w, 'z) ts2_scheme) option" where
  "write_queue_worker K = run_turns (write_queue_worker_turn K)"

text \<open>What waits for a descriptor, whether its data can be locked, and everything sent or waiting on it.\<close>

definition queued :: "('w, 'z) ts2_scheme \<Rightarrow> fd \<Rightarrow> byte list" where
  "queued s fd = (case internalSocketData s fd of None \<Rightarrow> [] | Some sd \<Rightarrow> concat (rev (writeQueue sd)))"

definition unlocked :: "('w, 'z) ts2_scheme \<Rightarrow> fd \<Rightarrow> bool" where
  "unlocked s fd \<longleftrightarrow> (case internalSocketData s fd of None \<Rightarrow> True | Some sd \<Rightarrow> uses sd \<le> 0)"

text \<open>
  The states that the worker reaches from \<open>s0\<close> when nobody interferes. \<open>takes_all\<close>: the kernel takes every buffer
  whole.
\<close>

definition worker_inv ::
  "('w \<Rightarrow> fd \<Rightarrow> byte list) \<Rightarrow> bool \<Rightarrow> ('w, 'z) ts2_scheme \<Rightarrow> ('w, 'z) ts2_scheme \<Rightarrow> bool" where
  "worker_inv sent takes_all s0 s \<longleftrightarrow> \<not> stopServer s \<and> finite (readyToWriteSet s)
     \<and> readyToWriteSet s \<subseteq> readyToWriteSet s0 \<and> (\<forall>g\<in>readyToWriteSet s. unlocked s g \<and> g \<noteq> -1)
     \<and> (\<forall>g. sent (kern s) g @ queued s g = sent (kern s0) g @ queued s0 g)
     \<and> (\<forall>g. g \<notin> readyToWriteSet s0 \<longrightarrow> sent (kern s) g = sent (kern s0) g)
     \<and> (takes_all \<longrightarrow> (\<forall>g\<in>readyToWriteSet s0 - readyToWriteSet s. queued s g = []))"

lemma worker_invD:
  assumes "worker_inv sent b s0 s"
  shows "\<not> stopServer s" and "finite (readyToWriteSet s)" and "readyToWriteSet s \<subseteq> readyToWriteSet s0"
    and "g \<in> readyToWriteSet s \<Longrightarrow> unlocked s g \<and> g \<noteq> -1"
    and "sent (kern s) g @ queued s g = sent (kern s0) g @ queued s0 g"
    and "g \<notin> readyToWriteSet s0 \<Longrightarrow> sent (kern s) g = sent (kern s0) g"
    and "b \<Longrightarrow> g \<in> readyToWriteSet s0 \<Longrightarrow> g \<notin> readyToWriteSet s \<Longrightarrow> queued s g = []"
  using assms unfolding worker_inv_def by blast+

lemma worker_invI:
  assumes "\<not> stopServer s" and "finite (readyToWriteSet s)" and "readyToWriteSet s \<subseteq> readyToWriteSet s0"
    and "\<And>g. g \<in> readyToWriteSet s \<Longrightarrow> unlocked s g \<and> g \<noteq> -1"
    and "\<And>g. sent (kern s) g @ queued s g = sent (kern s0) g @ queued s0 g"
    and "\<And>g. g \<notin> readyToWriteSet s0 \<Longrightarrow> sent (kern s) g = sent (kern s0) g"
    and "\<And>g. b \<Longrightarrow> g \<in> readyToWriteSet s0 \<Longrightarrow> g \<notin> readyToWriteSet s \<Longrightarrow> queued s g = []"
  shows "worker_inv sent b s0 s"
  using assms unfolding worker_inv_def by blast

text \<open>A system in which every socket is one whose only failure is \<^verbatim>\<open>EAGAIN\<close>.\<close>

locale eagain_sockets = write_syscall +
  assumes all_eagain: "sys_write K fd d w = ((-1, e), w') \<Longrightarrow> e = EAGAIN"
begin

lemma eagain_socket: "fd \<noteq> -1 \<Longrightarrow> eagain_socket K sent fd"
  using write_syscall_axioms all_eagain by (simp add: eagain_socket_def eagain_socket_axioms_def)

text \<open>One turn, seen from all descriptors.\<close>

lemma worker_turn_all:
  fixes s :: "('a, 'z) ts2_scheme"
  assumes "\<not> stopServer s" and "readyToWriteSet s \<noteq> {}" and fd: "fd = Min (readyToWriteSet s)"
    and "unlocked s fd" and "fd \<noteq> -1"
  shows "\<exists>s'. write_queue_worker_turn K s = (Inr True, s') \<and> stopServer s' = stopServer s
    \<and> readyToWriteSet s' = readyToWriteSet s - {fd}
    \<and> sent (kern s') fd @ queued s' fd = sent (kern s) fd @ queued s fd
    \<and> (\<forall>g. g \<noteq> fd \<longrightarrow> sent (kern s') g = sent (kern s) g \<and> queued s' g = queued s g \<and> unlocked s' g = unlocked s g)
    \<and> ((\<forall>f d w. fst (fst (sys_write K f d w)) = int (length d)) \<longrightarrow> queued s' fd = [])"
proof -
  let ?s1 = "s\<lparr>readyToWriteSet := readyToWriteSet s - {fd}\<rparr>"
  obtain sd s2 where sd: "get_socket_data fd ?s1 = (sd, s2)" by (cases "get_socket_data fd ?s1")
  obtain q s3 where d: "drain (IGenericServer_write K) fd (writeQueue sd) s2 = (q, s3)"
    by (cases "drain (IGenericServer_write K) fd (writeQueue sd) s2")
  from sd assms(4) have "uses sd \<le> 0"
    by (auto simp: get_socket_data_eq unlocked_def SocketData_new_def split: option.splits)
  with assms(1-3) sd d have turn: "write_queue_worker_turn K s = (Inr True, put_socket_data fd (sd\<lparr>writeQueue := q\<rparr>) s3)"
    by (simp add: write_queue_worker_turn_def Let_def SocketData_lock_def SocketData_release_def)
  have s2: "kern s2 = kern s" "stopServer s2 = stopServer s" "readyToWriteSet s2 = readyToWriteSet s - {fd}"
    "g \<noteq> fd \<Longrightarrow> internalSocketData s2 g = internalSocketData s g" "concat (rev (writeQueue sd)) = queued s fd" for g
    using sd by (auto simp: get_socket_data_eq put_socket_data_def queued_def SocketData_new_def split: option.splits)
  note frame = drain_ts2_frame [of K fd "writeQueue sd" s2, unfolded d snd_conv]
  note fifo = eagain_socket.socket_drain_fifo [OF eagain_socket [OF assms(5)] d]
  have "q = []" if "\<forall>f d w. fst (fst (sys_write K f d w)) = int (length d)"
  proof -
    have "fst (IGenericServer_write K fd item t) = int (length item)" for item and t :: "('a, 'z) ts2_scheme"
      using that assms(5) by (simp add: IGenericServer_write_def write_loop.simps syscall_eq Let_def)
    from eagain_socket.socket_drain_empties [OF eagain_socket [OF assms(5)], OF this, of "writeQueue sd" s2] d
    show ?thesis by simp
  qed
  with turn s2 frame fifo show ?thesis
    by (simp add: put_socket_data_def queued_def unlocked_def)
qed

lemma worker_inv_turn:
  fixes s :: "('a, 'z) ts2_scheme"
  assumes "worker_inv sent (\<forall>f d w. fst (fst (sys_write K f d w)) = int (length d)) s0 s"
    and ready: "readyToWriteSet s \<noteq> {}"
  shows "\<exists>s'. write_queue_worker_turn K s = (Inr True, s')
    \<and> worker_inv sent (\<forall>f d w. fst (fst (sys_write K f d w)) = int (length d)) s0 s'
    \<and> card (readyToWriteSet s') < card (readyToWriteSet s)"
proof -
  let ?fd = "Min (readyToWriteSet s)"
  note inv = worker_invD [OF assms(1)]
  note fin = inv(2)
  with ready have fd: "?fd \<in> readyToWriteSet s" by simp
  with inv(1,4) have "unlocked s ?fd" "?fd \<noteq> -1" "\<not> stopServer s" by blast+
  from worker_turn_all [OF this(3) ready refl this(1,2)] obtain s' where
    turn: "write_queue_worker_turn K s = (Inr True, s')" and stop: "stopServer s' = stopServer s"
    and ready': "readyToWriteSet s' = readyToWriteSet s - {?fd}"
    and this_fd: "sent (kern s') ?fd @ queued s' ?fd = sent (kern s) ?fd @ queued s ?fd"
    and others: "\<And>g. g \<noteq> ?fd \<Longrightarrow>
        sent (kern s') g = sent (kern s) g \<and> queued s' g = queued s g \<and> unlocked s' g = unlocked s g"
    and all: "(\<forall>f d w. fst (fst (sys_write K f d w)) = int (length d)) \<longrightarrow> queued s' ?fd = []"
    by blast
  have "worker_inv sent (\<forall>f d w. fst (fst (sys_write K f d w)) = int (length d)) s0 s'"
  proof (rule worker_invI)
    fix g
    show "sent (kern s') g @ queued s' g = sent (kern s0) g @ queued s0 g"
      using this_fd others [of g] inv(5) [of g] by (cases "g = ?fd") simp_all
    show "sent (kern s') g = sent (kern s0) g" if "g \<notin> readyToWriteSet s0"
      using that fd others [of g] inv(3) inv(6) [of g] by (cases "g = ?fd") auto
    show "unlocked s' g \<and> g \<noteq> -1" if "g \<in> readyToWriteSet s'"
      using that others [of g] inv(4) [of g] ready' by auto
    show "queued s' g = []" if "\<forall>f d w. fst (fst (sys_write K f d w)) = int (length d)"
      "g \<in> readyToWriteSet s0" "g \<notin> readyToWriteSet s'"
      using that all others [of g] inv(7) [of g] ready' by (cases "g = ?fd") auto
  qed (use inv(1-3) stop ready' in auto)
  moreover have "card (readyToWriteSet s') < card (readyToWriteSet s)"
    unfolding ready' by (rule card_Diff1_less [OF fin fd])
  ultimately show ?thesis using turn by blast
qed

lemma worker_inv_waits:
  assumes "worker_inv sent b s0 s" and "readyToWriteSet s = {}"
  shows "write_queue_worker_turn K s = (Inl Blocked, s)"
  using worker_invD(1) [OF assms(1)] assms(2) by (simp add: write_queue_worker_turn_def)

end

sublocale eagain_sockets \<subseteq> worker: turns "write_queue_worker_turn K"
  "worker_inv sent (\<forall>f d w. fst (fst (sys_write K f d w)) = int (length d)) s0" "\<lambda>s. card (readyToWriteSet s)"
  for s0 :: "('a, 'z) ts2_scheme"
proof
  fix s s' :: "('a, 'z) ts2_scheme"
  let ?inv = "worker_inv sent (\<forall>f d w. fst (fst (sys_write K f d w)) = int (length d)) s0"
  assume "?inv s" and turn: "write_queue_worker_turn K s = (Inr True, s')"
  then have "readyToWriteSet s \<noteq> {}" by (auto simp: worker_inv_waits)
  from worker_inv_turn [OF \<open>?inv s\<close> this] turn
  show "?inv s' \<and> card (readyToWriteSet s') < card (readyToWriteSet s)" by auto
qed

context eagain_sockets
begin

lemma worker_returns:
  fixes s :: "('a, 'z) ts2_scheme"
  assumes inv: "worker_inv sent (\<forall>f d w. fst (fst (sys_write K f d w)) = int (length d)) s0 s"
  shows "\<exists>s'. write_queue_worker K s = Some (Inl Blocked, s') \<and> readyToWriteSet s' = {}
    \<and> worker_inv sent (\<forall>f d w. fst (fst (sys_write K f d w)) = int (length d)) s0 s'"
proof -
  from worker.run_turns_last [OF inv] obtain t r s' where
    run: "run_turns (write_queue_worker_turn K) s = Some (r, s')" and r: "r \<noteq> Inr True"
    and t: "worker_inv sent (\<forall>f d w. fst (fst (sys_write K f d w)) = int (length d)) s0 t"
      "write_queue_worker_turn K t = (r, s')"
    by blast
  have "readyToWriteSet t = {}" using worker_inv_turn [OF t(1)] t(2) r by auto
  with worker_inv_waits [OF t(1)] t run show ?thesis by (auto simp: write_queue_worker_def)
qed

end

text \<open>The reference kernels on which no connection is reset: one with bounded buffers, one with room for everything.\<close>

interpretation all_steady: eagain_sockets steady_kernel out
  by unfold_locales (auto simp: steady_kernel_def Let_def split: if_splits)

interpretation all_roomy: eagain_sockets roomy_kernel out
  by unfold_locales (auto simp: roomy_kernel_def)

section \<open>Properties of the write queue worker\<close>

text \<open>
  C1. The write queue worker serves every ready socket and then waits. Whatever the kernel takes, it gets to its
  wait with no ready socket left; on every socket the bytes sent followed by the bytes that still wait are the
  same sequence as before; nothing is written to a socket that was not ready. When the kernel takes every buffer
  whole, all that waited for the ready sockets has been sent, in order.
\<close>

theorem write_queue_worker_serves_all:
  assumes "eagain_sockets K sent" and "\<not> stopServer s" and "finite (readyToWriteSet s)"
    and "\<forall>fd\<in>readyToWriteSet s. unlocked s fd \<and> fd \<noteq> -1"
  shows "\<exists>s'. write_queue_worker K s = Some (Inl Blocked, s') \<and> readyToWriteSet s' = {}
    \<and> (\<forall>g. sent (kern s') g @ queued s' g = sent (kern s) g @ queued s g)
    \<and> (\<forall>g. g \<notin> readyToWriteSet s \<longrightarrow> sent (kern s') g = sent (kern s) g)
    \<and> ((\<forall>f d w. fst (fst (sys_write K f d w)) = int (length d)) \<longrightarrow>
        (\<forall>g\<in>readyToWriteSet s. sent (kern s') g = sent (kern s) g @ queued s g))"
proof -
  have "worker_inv sent (\<forall>f d w. fst (fst (sys_write K f d w)) = int (length d)) s s"
    by (rule worker_invI) (use assms in blast)+
  from eagain_sockets.worker_returns [OF assms(1) this] obtain s' where
    run: "write_queue_worker K s = Some (Inl Blocked, s')" and ready: "readyToWriteSet s' = {}"
    and inv: "worker_inv sent (\<forall>f d w. fst (fst (sys_write K f d w)) = int (length d)) s s'"
    by blast
  note inv = worker_invD(5,6,7) [OF inv]
  have "sent (kern s') g = sent (kern s) g @ queued s g"
    if "\<forall>f d w. fst (fst (sys_write K f d w)) = int (length d)" "g \<in> readyToWriteSet s" for g
    using inv(1) [of g] inv(3) [OF that] ready by simp
  with run ready inv(1,2) show ?thesis by blast
qed

theorem write_queue_worker_serves_all_witness:
  "\<exists>s'. write_queue_worker roomy_kernel demo_ts2 = Some (Inl Blocked, s') \<and> out (kern s') 5 = [1, 2, 3, 4, 5, 6]"
proof -
  have "\<forall>fd\<in>readyToWriteSet demo_ts2. unlocked demo_ts2 fd \<and> fd \<noteq> -1" by (simp add: unlocked_def)
  from write_queue_worker_serves_all [OF all_roomy.eagain_sockets_axioms _ _ this]
  obtain s' where s': "write_queue_worker roomy_kernel demo_ts2 = Some (Inl Blocked, s')"
    "(\<forall>f d w. fst (fst (sys_write roomy_kernel f d w)) = int (length d)) \<longrightarrow>
      out (kern s') 5 = out (kern demo_ts2) 5 @ queued demo_ts2 5" by auto
  then have "out (kern s') 5 = [1, 2, 3, 4, 5, 6]" by (simp add: roomy_kernel_def queued_def sim0_def)
  with s'(1) show ?thesis by blast
qed

end
