(* ===== verification/EchoServer.thy ===== *)
theory EchoServer
  imports Lifecycle
begin

text \<open>
  Model of the callback of the demonstration program \<^verbatim>\<open>main/main.cpp\<close>, an echo server over a plain
  \<^verbatim>\<open>IGenericServer\<close>. It composes \<^verbatim>\<open>read\<close>, \<^verbatim>\<open>write\<close> and \<^verbatim>\<open>close\<close>, and the dispatcher calls it.
\<close>

section \<open>Definitions\<close>

text \<open>The loop over the buffers; the result of \<^verbatim>\<open>write\<close> is not looked at.\<close>

fun echo_items ::
  "'w kernel \<Rightarrow> fd \<Rightarrow> byte list list \<Rightarrow> ('w, 'z) server_scheme \<Rightarrow> ('w, 'z) server_scheme" where
  "echo_items K fd [] s = s"
| "echo_items K fd (item # data) s =
     echo_items K fd data (snd (snd (IGenericServer_write_vector (\<lambda>b. [b]) K fd item s)))"

text \<open>A \<^verbatim>\<open>read\<close> that does not return blocks the callback.\<close>

definition my_listener :: "'w kernel \<Rightarrow> ('w, 'z) callback" where
  "my_listener K le s = (case job le of
      CLOSE_SOCKET \<Rightarrow> (None, IGenericServer_close K (le_fd le) s)
    | AVAILABLE_FOR_READ \<Rightarrow>
        (case IGenericServer_read K (le_fd le) 4096 s of
           None \<Rightarrow> (Some Blocked, s)
         | Some (data, s1) \<Rightarrow> (None, echo_items K (le_fd le) data s1))
    | _ \<Rightarrow> (None, s))"

section \<open>Lemmas\<close>

lemma write_vector_bytes [simp]:
  "IGenericServer_write_vector (\<lambda>b. [b]) K fd data s = IGenericServer_write K fd data s"
  by (simp add: IGenericServer_write_vector_def)

lemma echo_items_frame: "io_frame s (echo_items K fd data s)"
  by (induction data arbitrary: s) (auto intro: io_frame_trans [OF IGenericServer_write_frame])

context posix_kernel
begin

lemma write_loop_pending: "pending (kern (snd (snd (write_loop K fd p k s)))) = pending (kern s)"
proof (induction "length p" arbitrary: p k s rule: less_induct)
  case less
  obtain c e w where w: "sys_write K fd p (kern s) = ((c, e), w)" by (metis surj_pair)
  show ?case
  proof (cases "0 < c \<and> c < int (length p)")
    case True
    then have "length (drop (nat c) p) < length p" by auto
    from True less [OF this] w write_keeps_pending [OF w] show ?thesis
      by (simp add: write_loop.simps [of K fd p] syscall_def)
  next
    case False
    with w write_keeps_pending [OF w] show ?thesis by (auto simp: write_loop.simps [of K fd p] syscall_def)
  qed
qed

lemma IGenericServer_write_pending:
  "pending (kern (snd (snd (IGenericServer_write K fd data s)))) = pending (kern s)"
  using write_loop_pending [of fd data 0 "set_IO fd s"]
  by (cases "write_loop K fd data 0 (set_IO fd s)") (simp add: IGenericServer_write_def)

lemma echo_items_pending: "pending (kern (echo_items K fd data s)) = pending (kern s)"
  by (induction data arbitrary: s) (simp_all add: IGenericServer_write_pending)

text \<open>The loop of \<^verbatim>\<open>read\<close> sends nothing.\<close>

lemma read_loop_sent:
  assumes "read_loop K fd n result s = Some r"
  shows "sent (kern (snd r)) = sent (kern s)"
proof -
  have "K = K \<longrightarrow> sent (kern (snd r)) = sent (kern s)"
  proof (rule read_loop.raw_induct [where P = "\<lambda>K' fd n result s r.
      K' = K \<longrightarrow> sent (kern (snd r)) = sent (kern s)", OF _ assms], intro impI)
    fix rec K' fd' n' res r' and t :: "('w, 'z) server_scheme"
    assume ih: "\<And>K' fd n res t r. rec K' fd n res t = Some r \<Longrightarrow> K' = K \<longrightarrow> sent (kern (snd r)) = sent (kern t)"
      and body: "(let (c, d, s1) = syscall_out (sys_read K' fd' (read_size n')) t
        in if c = -1 \<and> (errno s1 = EAGAIN \<or> errno s1 = EWOULDBLOCK) then Some (res, s1)
        else if c = -1 then Some (res @ [filled n' [] n'], s1)
        else if c = 0 then Some (res, s1)
        else rec K' fd' n' (res @ [filled n' d (nat c)]) s1) = Some r'"
      and K: "K' = K"
    obtain c d s1 where sys: "syscall_out (sys_read K fd' (read_size n')) t = (c, d, s1)"
      by (cases "syscall_out (sys_read K fd' (read_size n')) t")
    obtain q w where rd: "sys_read K fd' (read_size n') (kern t) = (q, w)" by (cases "sys_read K fd' (read_size n') (kern t)")
    with sys have s1: "sent (kern s1) = sent (kern t)"
      using read_keeps_sent [OF rd] by (auto simp: syscall_out_eq)
    from body sys K have "snd r' = s1 \<or> rec K fd' n' (res @ [filled n' d (nat c)]) s1 = Some r'"
      by (auto split: if_splits)
    then show "sent (kern (snd r')) = sent (kern t)"
      using s1 ih [of K fd' n' "res @ [filled n' d (nat c)]" s1 r'] by auto
  qed
  then show ?thesis by simp
qed

text \<open>When the kernel takes every buffer whole, the echo is complete and in order.\<close>

lemma echo_items_sent:
  fixes s :: "('w, 'z) server_scheme"
  assumes "\<And>b (t :: ('w, 'z) server_scheme). fst (IGenericServer_write K fd b t) = int (length b)"
  shows "sent (kern (echo_items K fd data s)) fd = sent (kern s) fd @ concat data"
proof (induction data arbitrary: s)
  case (Cons item data)
  obtain r e s1 where w: "IGenericServer_write K fd item s = (r, e, s1)"
    by (cases "IGenericServer_write K fd item s")
  with assms [of item s] have r: "r = int (length item)" by simp
  from IGenericServer_write_sent [OF w] r have "sent (kern s1) fd = sent (kern s) fd @ item" by auto
  with Cons w show ?case by simp
qed simp

end

context available_read
begin

text \<open>On a connection that has not failed, \<^verbatim>\<open>read\<close> returns all there is.\<close>

lemma read_everything:
  "\<exists>good s1. IGenericServer_read K fd 4096 s = Some (good, s1) \<and> concat good = pending (kern s) fd
    \<and> pending (kern s1) fd = [] \<and> io_frame s s1"
proof -
  have "(4096::nat) < 2 ^ 31" by simp
  from read_loop_total [OF this, of fd "[]" "set_IO fd s"] obtain good tail s1 w where
    rd: "read_loop K fd 4096 [] (set_IO fd s) = Some (good @ tail, s1)"
    "pending (kern s) fd = concat good @ pending (kern s1) fd" "last_read K fd 4096 w tail s1" "io_frame (set_IO fd s) s1"
    unfolding append_Nil set_IO_os by blast
  with last_read_all [OF _ rd(3)] io_frame_trans [OF io_frame_set_IO rd(4)] show ?thesis
    by (simp add: IGenericServer_read_def)
qed

end

text \<open>The callback keeps the counter of connections right.\<close>

interpretation echo_counts: counting_callback "my_listener K" for K
proof
  fix t t' :: "('a, 'b) server_scheme" and le
  assume inv: "conn_inv t" and le: "job le = SOCKET_IS_CLOSED \<or> le_fd le \<in> incoming_conn_fd t"
    and cb: "my_listener K le t = (None, t')"
  have io: "conn_inv (echo_items K f data s1)" if "read_loop K f 4096 [] (set_IO f t) = Some (data, s1)" for f data s1
    using read_loop_frame [OF that] inv
    by (auto intro: conn_inv_io [OF io_frame_trans [OF io_frame_set_IO io_frame_trans [OF _ echo_items_frame]]])
  show "conn_inv t'"
    using inv le cb conn_inv_close [OF inv, of "le_fd le" K] io
    by (cases "job le") (auto simp: my_listener_def IGenericServer_read_def split: option.splits)
qed

section \<open>Properties\<close>

text \<open>
  C9. The echo server echoes: on any event of a connection that the dispatcher reports as readable, everything the
  peer has sent is read, so that nothing is left to read, and is sent back, in order and complete; the connections
  of the server are as before. This is for a connection that has not failed and whose socket takes what is written.
  An event of a connection that is writable, also when it is readable at the same time, is ignored: nothing is read
  or sent.
\<close>

theorem echo_server_echoes:
  fixes s :: "('w, 'z) server_scheme"
  assumes "posix_kernel K sent pending opened" and "available_read K pending"
    and "\<And>b (t :: ('w, 'z) server_scheme). fst (IGenericServer_write K (ev_fd ev) b t) = int (length b)"
    and "ev_fd ev \<noteq> fd_no (listen_sock s)" and "job_of (ev_events ev) = Some j" and "j \<noteq> CLOSE_SOCKET"
    and "handle_event K (my_listener K) ev s = (r, s')"
  shows "r = None \<and> (if j = AVAILABLE_FOR_READ
    then pending (kern s') (ev_fd ev) = []
      \<and> sent (kern s') (ev_fd ev) = sent (kern s) (ev_fd ev) @ pending (kern s) (ev_fd ev)
      \<and> incoming_conn_fd s' = incoming_conn_fd s \<and> activeConnections s' = activeConnections s
    else s' = s)"
proof -
  let ?fd = "ev_fd ev"
  have h: "handle_event K (my_listener K) ev s =
      my_listener K \<lparr>srv = Is_IGenericServer, le_fd = ?fd, job = j, events = ev_events ev\<rparr> s"
    and j: "j = AVAILABLE_FOR_READ \<or> j = AVAILABLE_FOR_WRITE \<or> j = AVAILABLE_FOR_READ_AND_WRITE"
    using assms(4-6) by (auto simp: handle_event_def socket_event_def job_of_def split: if_splits)
  show ?thesis
  proof (cases "j = AVAILABLE_FOR_READ")
    case False
    with h j assms(7) show ?thesis by (auto simp: my_listener_def)
  next
    case True
    from available_read.read_everything [OF assms(2), of ?fd s] obtain good s1 where
      rd: "IGenericServer_read K ?fd 4096 s = Some (good, s1)" "concat good = pending (kern s) ?fd"
      "pending (kern s1) ?fd = []" "io_frame s s1" by blast
    from rd(1) have st: "sent (kern s1) = sent (kern s)"
      using posix_kernel.read_loop_sent [OF assms(1)] by (fastforce simp: IGenericServer_read_def)
    from True h rd(1) assms(7) have "r = None" "s' = echo_items K ?fd good s1" by (simp_all add: my_listener_def)
    with True rd st posix_kernel.echo_items_sent [OF assms(1,3), of good s1]
      posix_kernel.echo_items_pending [OF assms(1), of ?fd good s1]
      io_frame_trans [OF rd(4) echo_items_frame [of s1 K ?fd good]]
    show ?thesis by (auto simp: io_frame_def)
  qed
qed

definition echo_demo :: "sim server" where
  "echo_demo = demo_server\<lparr>kern := sim0\<lparr>inp := (\<lambda>_. [104, 105])\<rparr>\<rparr>"

theorem echo_server_echoes_witness:
  "\<exists>s'. handle_event echo_kernel (my_listener echo_kernel) \<lparr>ev_fd = 5, ev_events = EPOLLIN\<rparr> echo_demo = (None, s')
     \<and> inp (kern s') 5 = [] \<and> out (kern s') 5 = [104, 105]"
proof -
  let ?ev = "\<lparr>ev_fd = 5, ev_events = EPOLLIN\<rparr>"
  obtain r s' where h: "handle_event echo_kernel (my_listener echo_kernel) ?ev echo_demo = (r, s')"
    by (cases "handle_event echo_kernel (my_listener echo_kernel) ?ev echo_demo")
  have w: "fst (IGenericServer_write echo_kernel (ev_fd ?ev) b t) = int (length b)" for b and t :: "sim server"
    by (auto simp: IGenericServer_write_def write_loop.simps echo_kernel_def syscall_eq Let_def)
  have n: "ev_fd ?ev \<noteq> fd_no (listen_sock echo_demo)" "job_of (ev_events ?ev) = Some AVAILABLE_FOR_READ"
    "AVAILABLE_FOR_READ \<noteq> CLOSE_SOCKET"
    by (simp_all add: echo_demo_def demo_server_def job_of_def epoll_defs)
  from echo_server_echoes [OF echo.posix_kernel_axioms echo_avail.available_read_axioms w n h] h show ?thesis
    by (auto simp: echo_demo_def sim0_def)
qed

text \<open>
  The demonstration program does not react when a socket becomes readable and writable at once, which
  is what the kernel reports for a connection registered for both: the data stays unread and nothing is
  sent.
\<close>

lemma my_listener_ignores_read_write:
  assumes "fd \<noteq> fd_no (listen_sock s)"
  shows "handle_event K (my_listener K) \<lparr>ev_fd = fd, ev_events = EPOLLIN OR EPOLLOUT\<rparr> s = (None, s)"
  using assms by (simp add: handle_event_def socket_event_def my_listener_def epoll_defs)

lemma my_listener_ignores_read_write_witness:
  "handle_event sim_kernel (my_listener sim_kernel) \<lparr>ev_fd = 5, ev_events = EPOLLIN OR EPOLLOUT\<rparr> demo_server =
     (None, demo_server)"
  by (rule my_listener_ignores_read_write) (simp add: demo_server_def)

end
