(* ===== verification/Delivery.thy ===== *)
theory Delivery
  imports Thread_Loops EchoServer
begin

text \<open>
  The way of an event from the dispatcher to the user: \<^verbatim>\<open>ThreadedServer2::internal_callback\<close>, the producer of the work
  queue, the deque, the loop of a consumer, the callback of the user. The callback is any function that
  satisfies the contract \<open>queue_callback\<close>: it may read, write, close sockets of the work queue or of the
  server below, and fail. The echo server's callback and the one of the repository's test of the work queue do.
\<close>

section \<open>The loop of a consumer\<close>

definition consumer ::
  "(('w, 'z) wq_scheme \<Rightarrow> item \<Rightarrow> item) \<Rightarrow> ('w, ('z wq_ext) ts2_ext) callback \<Rightarrow> ('w, 'z) wq_scheme
    \<Rightarrow> (bool outcome \<times> ('w, 'z) wq_scheme) option" where
  "consumer slot callback_function = run_turns (consumer_turn slot callback_function)"

text \<open>The calls of the user's callback are recorded in a field behind those of the work queue.\<close>

record 'w logged = "'w wq" +
  calls :: "listen_event list"

definition logging ::
  "('w, ('z logged_ext) wq_ext ts2_ext) callback \<Rightarrow> ('w, ('z logged_ext) wq_ext ts2_ext) callback" where
  "logging callback_function le s = callback_function le (s\<lparr>calls := calls s @ [le]\<rparr>)"

text \<open>The event that a consumer makes of an item.\<close>

definition item_event :: "item \<Rightarrow> listen_event" where
  "item_event i = \<lparr>srv = Is_WorkQueue, le_fd = it_fd i, job = it_job i, events = 0\<rparr>"

text \<open>The items of the sockets in \<open>B\<close> are marked.\<close>

definition marked :: "fd set \<Rightarrow> item \<Rightarrow> item" where
  "marked B i = (if it_fd i \<in> B then i\<lparr>process := False\<rparr> else i)"

lemma marked_simps [simp]:
  "item_event (marked B i) = item_event i" "it_fd (marked B i) = it_fd i" "marked {} i = i"
  "process (marked B i) \<longleftrightarrow> process i \<and> it_fd i \<notin> B"
  by (simp_all add: marked_def item_event_def)

lemma map_marked_empty [simp]: "map (marked {}) is = is"
  by (simp add: map_idI)

lemma item_event_fd [simp]: "le_fd (item_event i) = it_fd i"
  by (simp add: item_event_def)

text \<open>
  A callback of a work queue. Called with \<open>le\<close>, it calls \<^verbatim>\<open>WorkQueue::close\<close> for no other sockets than those in
  \<open>closes le\<close>; it neither puts events into the deque nor stops the work queue.
\<close>

locale queue_callback =
  fixes cb :: "('w, ('z logged_ext) wq_ext ts2_ext) callback" and closes :: "listen_event \<Rightarrow> fd set"
  assumes cb_items: "\<exists>B \<subseteq> closes le. items (snd (cb le s)) = map (marked B) (items s)"
    and cb_flag: "consumers_must_terminate (snd (cb le s)) = consumers_must_terminate s"
    and cb_calls: "calls (snd (cb le s)) = calls s"

text \<open>The events of the sockets that none of the calls \<open>new\<close> closes.\<close>

definition of_open :: "(listen_event \<Rightarrow> fd set) \<Rightarrow> listen_event list \<Rightarrow> listen_event list \<Rightarrow> listen_event list" where
  "of_open closes new les = filter (\<lambda>e. le_fd e \<notin> \<Union> (closes ` set new)) les"

lemma of_open_append [simp]: "of_open closes new (xs @ ys) = of_open closes new xs @ of_open closes new ys"
  by (simp add: of_open_def)

lemma of_open_more:
  assumes "of_open closes new xs = of_open closes new ys"
  shows "of_open closes (new @ zs) xs = of_open closes (new @ zs) ys"
proof -
  have "of_open closes (new @ zs) us = of_open closes (new @ zs) (of_open closes new us)" for us
    by (auto simp: of_open_def intro: filter_cong)
  with assms show ?thesis by metis
qed

text \<open>
  How far a consumer is with the events \<open>U\<close> that were in the deque: it has treated the first \<open>n\<close> of them and made the
  calls \<open>new\<close>, at most one for each. When its references read the removed elements, the calls are
  those \<open>n\<close> events, in order, except events of sockets that an earlier call closed.
\<close>

definition treated ::
  "(('w, 'z) logged_scheme \<Rightarrow> item \<Rightarrow> item) \<Rightarrow> (listen_event \<Rightarrow> fd set) \<Rightarrow> listen_event list \<Rightarrow> listen_event list
    \<Rightarrow> nat \<Rightarrow> listen_event list \<Rightarrow> ('w, 'z) logged_scheme \<Rightarrow> bool" where
  "treated slot closes U old n new s \<longleftrightarrow> calls s = old @ new \<and> length new \<le> n \<and> n \<le> length U
     \<and> map item_event (rev (items s)) = drop n U
     \<and> (\<forall>i \<in> set (items s). \<not> process i \<longrightarrow> it_fd i \<in> \<Union> (closes ` set new))
     \<and> ((\<forall>t i. slot t i = i) \<longrightarrow> subseq new (take n U) \<and> of_open closes new new = of_open closes new (take n U))"

definition consumer_inv ::
  "(('w, 'z) logged_scheme \<Rightarrow> item \<Rightarrow> item) \<Rightarrow> (listen_event \<Rightarrow> fd set) \<Rightarrow> listen_event list \<Rightarrow> listen_event list
    \<Rightarrow> ('w, 'z) logged_scheme \<Rightarrow> bool" where
  "consumer_inv slot closes U old s \<longleftrightarrow> \<not> consumers_must_terminate s \<and> (\<exists>n new. treated slot closes U old n new s)"

lemma treated_next:
  assumes "treated slot closes U old n new s" and "items s = q @ [i]"
  shows "Suc n \<le> length U \<and> take (Suc n) U = take n U @ [item_event i] \<and> drop (Suc n) U = map item_event (rev q)"
proof -
  from assms have d: "drop n U = item_event i # map item_event (rev q)" by (simp add: treated_def)
  then have n: "n < length U" by (metis drop_all list.distinct(1) not_le)
  with d have "U ! n = item_event i" "drop (Suc n) U = map item_event (rev q)"
    by (metis Cons_nth_drop_Suc list.inject)+
  with n show ?thesis by (simp add: take_Suc_conv_app_nth)
qed

text \<open>An element that is taken and not delivered, and one that is.\<close>

lemma treated_skip:
  assumes t: "treated slot closes U old n new s" and q: "items s = q @ [i]"
    and skip: "\<not> process (slot (s\<lparr>items := q\<rparr>) i)"
  shows "treated slot closes U old (Suc n) new (s\<lparr>items := q\<rparr>)"
proof -
  have "subseq new (take (Suc n) U) \<and> of_open closes new new = of_open closes new (take (Suc n) U)"
    if intact: "\<forall>t i. slot t i = i"
  proof -
    from intact skip t q have "it_fd i \<in> \<Union> (closes ` set new)" by (auto simp: treated_def)
    then have "of_open closes new [item_event i] = []" by (auto simp: of_open_def)
    moreover have "subseq new (take n U)" "of_open closes new new = of_open closes new (take n U)"
      using t intact by (simp_all add: treated_def)
    ultimately show ?thesis using treated_next [OF t q] by (simp add: list_emb_prefix)
  qed
  with t q treated_next [OF t q] show ?thesis by (auto simp: treated_def)
qed

context queue_callback
begin

lemma treated_call:
  assumes t: "treated slot closes U old n new s" and q: "items s = q @ [i]"
    and x: "x = slot (s\<lparr>items := q\<rparr>) i"
  shows "treated slot closes U old (Suc n) (new @ [item_event x])
     (snd (logging cb (item_event x) (s\<lparr>items := q\<rparr>)))" (is "treated _ _ _ _ _ ?new ?s")
proof -
  let ?t = "s\<lparr>items := q, calls := calls s @ [item_event x]\<rparr>"
  have s: "?s = snd (cb (item_event x) ?t)" by (simp add: logging_def)
  from cb_items [of "item_event x" ?t] obtain B where
    B: "B \<subseteq> closes (item_event x)" "items ?s = map (marked B) q" unfolding s by auto
  have calls: "calls ?s = old @ ?new" using cb_calls t unfolding s by (simp add: treated_def)
  have keys: "map item_event (rev (items ?s)) = drop (Suc n) U"
    using treated_next [OF t q] by (simp add: B(2) rev_map comp_def)
  have marks: "\<forall>j \<in> set (items ?s). \<not> process j \<longrightarrow> it_fd j \<in> \<Union> (closes ` set ?new)"
    using t q B(1) by (auto simp: B(2) treated_def)
  have "subseq ?new (take (Suc n) U) \<and> of_open closes ?new ?new = of_open closes ?new (take (Suc n) U)"
    if intact: "\<forall>t i. slot t i = i"
  proof -
    from intact t have "subseq new (take n U)" "of_open closes new new = of_open closes new (take n U)"
      by (simp_all add: treated_def)
    then show ?thesis using treated_next [OF t q] of_open_more [of closes new new "take n U" "[item_event x]"]
      by (simp add: x intact list_emb_append_mono)
  qed
  with t calls keys marks treated_next [OF t q] show ?thesis unfolding treated_def by auto
qed

lemma consumer_turn_step:
  assumes "consumer_inv slot closes U old s" and q: "items s = q @ [i]"
  shows "\<exists>r s'. consumer_turn slot (logging cb) s = (r, s') \<and> consumer_inv slot closes U old s'
    \<and> length (items s') = length q \<and> ((\<forall>le t. fst (cb le t) = None) \<longrightarrow> r = Inr True)"
proof -
  from assms obtain n new where flag: "\<not> consumers_must_terminate s" and t: "treated slot closes U old n new s"
    by (auto simp: consumer_inv_def)
  let ?x = "slot (s\<lparr>items := q\<rparr>) i"
  have take: "consumer_take slot s = Some (?x, s\<lparr>items := q\<rparr>)"
    using q by (simp add: consumer_take_def take_back_def Let_def)
  show ?thesis
  proof (cases "process ?x")
    case True
    obtain r s' where cb: "logging cb (item_event ?x) (s\<lparr>items := q\<rparr>) = (r, s')"
      by (cases "logging cb (item_event ?x) (s\<lparr>items := q\<rparr>)")
    from treated_call [OF t q refl] cb have t': "treated slot closes U old (Suc n) (new @ [item_event ?x]) s'" by simp
    then have "length (items s') = length q"
      using treated_next [OF t q] by (metis treated_def length_map length_rev)
    moreover have "\<not> consumers_must_terminate s'"
      using cb flag cb_flag [of "item_event ?x" "s\<lparr>items := q, calls := calls s @ [item_event ?x]\<rparr>"]
      by (simp add: logging_def)
    ultimately have inv: "consumer_inv slot closes U old s'" "length (items s') = length q"
      using t' by (auto simp: consumer_inv_def)
    have "(\<forall>le t. fst (cb le t) = None) \<longrightarrow> r = None"
      using cb by (metis logging_def fst_conv)
    moreover have "consumer_turn slot (logging cb) s = (case r of Some a \<Rightarrow> (Inl a, s') | None \<Rightarrow> (Inr True, s'))"
      using True take cb flag by (simp add: consumer_turn_def consumer_process_def item_event_def [symmetric] split: option.split)
    ultimately show ?thesis using inv
      by (intro exI [of _ "case r of Some a \<Rightarrow> Inl a | None \<Rightarrow> Inr True"] exI [of _ s']) (cases r; simp)
  next
    case False
    with flag take treated_skip [OF t q False] show ?thesis
      by (auto simp: consumer_turn_def consumer_process_def consumer_inv_def)
  qed
qed

lemma consumer_turn_waits:
  assumes "consumer_inv slot closes U old s" and "items s = []"
  shows "consumer_turn slot (logging cb) s = (Inl Blocked, s)"
  using assms by (simp add: consumer_inv_def consumer_turn_def consumer_take_def take_back_def)

end

sublocale queue_callback \<subseteq> loop: turns "consumer_turn slot (logging cb)" "consumer_inv slot closes U old"
    "\<lambda>s. length (items s)" for slot U old
proof
  fix s s' assume inv: "consumer_inv slot closes U old s" and turn: "consumer_turn slot (logging cb) s = (Inr True, s')"
  then have "items s \<noteq> []" by (auto simp: consumer_turn_waits)
  then obtain q i where "items s = q @ [i]" by (metis rev_exhaust)
  from consumer_turn_step [OF inv this] this turn
  show "consumer_inv slot closes U old s' \<and> length (items s') < length (items s)" by auto
qed

context queue_callback
begin

lemma consumer_delivers:
  assumes inv: "consumer_inv slot closes U old s"
  shows "\<exists>r s'. consumer slot (logging cb) s = Some (r, s') \<and> consumer_inv slot closes U old s'
    \<and> ((\<forall>le t. fst (cb le t) = None) \<longrightarrow> r = Inl Blocked \<and> items s' = [])"
proof -
  from loop.run_turns_last [OF inv] obtain t r s' where
    run: "run_turns (consumer_turn slot (logging cb)) s = Some (r, s')" and r: "r \<noteq> Inr True"
    and t: "consumer_inv slot closes U old t" "consumer_turn slot (logging cb) t = (r, s')" by blast
  show ?thesis
  proof (cases "items t = []")
    case True
    with consumer_turn_waits [OF t(1)] t run show ?thesis by (auto simp: consumer_def)
  next
    case False
    then obtain q i where "items t = q @ [i]" by (metis rev_exhaust)
    from consumer_turn_step [OF t(1) this] t(2) r run show ?thesis by (auto simp: consumer_def)
  qed
qed

end

section \<open>From the dispatcher to the deque\<close>

text \<open>The listening thread of a work queue handles events one after the other.\<close>

definition produce_all :: "listen_event list \<Rightarrow> ('w, 'z) wq_scheme \<Rightarrow> ('w, 'z) wq_scheme" where
  "produce_all les s = fold (\<lambda>le s. snd (internal_callback producer_callback le s)) les s"

text \<open>What the user is to see of an event of the dispatcher.\<close>

definition user_events :: "listen_event \<Rightarrow> listen_event list" where
  "user_events le =
     (if job le = AVAILABLE_FOR_WRITE then []
      else [\<lparr>srv = Is_WorkQueue, le_fd = le_fd le,
             job = if job le = AVAILABLE_FOR_READ_AND_WRITE then AVAILABLE_FOR_READ else job le, events = 0\<rparr>])"

lemma unlocked_put [simp]:
  "unlocked (s\<lparr>internalSocketData := (internalSocketData s)(fd \<mapsto> sd)\<rparr>) g
    \<longleftrightarrow> (if g = fd then uses sd \<le> 0 else unlocked s g)"
  by (simp add: unlocked_def)

lemma cleanup_unlocked:
  assumes "unlocked s fd"
  shows "ThreadedServer2_cleanup fd s =
    (None, s\<lparr>internalSocketData := (internalSocketData s)(fd \<mapsto> \<lparr>uses = -1, writeQueue = []\<rparr>)\<rparr>)"
proof (cases "internalSocketData s fd")
  case None
  then show ?thesis
    by (simp add: ThreadedServer2_cleanup_def get_socket_data_eq put_socket_data_def SocketData_defs SocketData_lock_def
        SocketData_release_def)
next
  case (Some sd)
  with assms have "\<not> 0 < uses sd" by (simp add: unlocked_def)
  with Some show ?thesis
    by (cases sd) (simp add: ThreadedServer2_cleanup_def get_socket_data_eq put_socket_data_def SocketData_defs
        SocketData_lock_def SocketData_release_def)
qed

lemma get_socket_data_unlocked:
  assumes "unlocked s fd"
  shows "snd (get_socket_data fd s) = s
    \<or> snd (get_socket_data fd s) = s\<lparr>internalSocketData := (internalSocketData s)(fd \<mapsto> SocketData_new)\<rparr>"
  by (simp add: get_socket_data_eq put_socket_data_def split: option.split)

text \<open>One event: the listening thread is not held up, and the deque gets what the user is to see.\<close>

lemma produce_one:
  fixes s :: "('w, 'z) logged_scheme"
  assumes "\<And>fd. unlocked s fd"
  shows "\<exists>s' q. internal_callback producer_callback le s = (None, s') \<and> (\<forall>fd. unlocked s' fd)
    \<and> items s' = q @ items s \<and> map item_event (rev q) = user_events le \<and> (\<forall>i \<in> set q. process i)
    \<and> consumers_must_terminate s' = consumers_must_terminate s \<and> calls s' = calls s"
proof (cases "job le")
  case NEW_SOCKET
  with get_socket_data_unlocked [OF assms, of "le_fd le"] assms show ?thesis
    by (auto simp: internal_callback_def producer_callback_def push_front_def user_events_def item_event_def
        unlocked_def SocketData_new_def Let_def)
next
  case SOCKET_IS_CLOSED
  with cleanup_unlocked [OF assms, of "le_fd le"] assms show ?thesis
    by (simp add: internal_callback_def producer_callback_def push_front_def user_events_def item_event_def
        unlocked_def Let_def)
qed (use assms in \<open>simp_all add: internal_callback_def producer_callback_def push_front_def user_events_def item_event_def
        unlocked_def Let_def\<close>)

lemma produce_all_items:
  fixes s :: "('w, 'z) logged_scheme"
  assumes "\<And>fd. unlocked s fd"
  shows "(\<forall>fd. unlocked (produce_all les s) fd)
    \<and> map item_event (rev (items (produce_all les s))) = map item_event (rev (items s)) @ concat (map user_events les)
    \<and> ((\<forall>i \<in> set (items s). process i) \<longrightarrow> (\<forall>i \<in> set (items (produce_all les s)). process i))
    \<and> consumers_must_terminate (produce_all les s) = consumers_must_terminate s
    \<and> calls (produce_all les s) = calls s"
  using assms
proof (induction les arbitrary: s)
  case (Cons le les)
  from produce_one [OF Cons.prems, of le] obtain s' q where
    one: "internal_callback producer_callback le s = (None, s')" "\<And>fd. unlocked s' fd" "items s' = q @ items s"
      "map item_event (rev q) = user_events le" "\<forall>i \<in> set q. process i"
      "consumers_must_terminate s' = consumers_must_terminate s" "calls s' = calls s"
    by blast
  then have "produce_all (le # les) s = produce_all les s'" by (simp add: produce_all_def)
  with Cons.IH [OF one(2)] one(3-7) show ?case by auto
qed (auto simp: produce_all_def)

section \<open>Two callbacks\<close>

text \<open>The echo server's callback works on the server only.\<close>

lemma logged_fields_more:
  fixes s t :: "('w, 'z) logged_scheme"
  assumes "wq.more t = wq.more s"
  shows "calls t = calls s"
  using assms by (cases s; cases t; simp)

lemma ts2_more_io:
  fixes s t :: "('w, 'z) ts2_scheme"
  assumes "server.more t = server.more s"
  shows "ts2.more t = ts2.more s"
  using assms by (cases s; cases t; simp)

lemma my_listener_more: "server.more (snd (my_listener K le s)) = server.more s"
proof (cases "IGenericServer_read K (le_fd le) 4096 s")
  case None
  then show ?thesis by (cases "job le") (simp_all add: my_listener_def IGenericServer_close_fields)
next
  case (Some p)
  obtain good s1 where p: "p = (good, s1)" by (cases p)
  with Some have rd: "IGenericServer_read K (le_fd le) 4096 s = Some (good, s1)" by simp
  with IGenericServer_read_more [OF rd] echo_items_frame [of s1 K "le_fd le" good] show ?thesis
    by (cases "job le") (simp_all add: my_listener_def io_frame_def IGenericServer_close_fields)
qed

interpretation echo_callback: queue_callback "my_listener K" "\<lambda>le. {}" for K
proof
  fix le and s :: "('a, 'b) logged_scheme"
  note more = ts2_more_io [OF my_listener_more [of K le s]]
  show "\<exists>B \<subseteq> {}. items (snd (my_listener K le s)) = map (marked B) (items s)"
    by (simp add: wq_fields_more(1) [OF more])
  show "consumers_must_terminate (snd (my_listener K le s)) = consumers_must_terminate s"
    by (rule wq_fields_more(2) [OF more])
  show "calls (snd (my_listener K le s)) = calls s" by (rule logged_fields_more [OF wq_fields_more(3) [OF more]])
qed

text \<open>It returns when the input is finite.\<close>

lemma my_listener_returns:
  assumes "read_syscall K pending"
  shows "fst (my_listener K le s) = None"
proof -
  obtain good s1 where "IGenericServer_read K (le_fd le) 4096 s = Some (good, s1)"
    using read_syscall.read_loop_total [OF assms, of 4096 "le_fd le" "[]" "set_IO (le_fd le) s"]
    by (auto simp: IGenericServer_read_def)
  then show ?thesis by (cases "job le") (simp_all add: my_listener_def)
qed

text \<open>
  The callback of \<^verbatim>\<open>test/testlibnbuss/workqueue_test.cpp\<close>, which writes with \<^verbatim>\<open>ThreadedServer2::write\<close> and closes with
  \<^verbatim>\<open>WorkQueue::close\<close>.
\<close>

fun queue_echo_items ::
  "'w kernel \<Rightarrow> fd \<Rightarrow> byte list list \<Rightarrow> ('w, 'z) wq_scheme \<Rightarrow> ('w, 'z) wq_scheme" where
  "queue_echo_items K fd [] s = s"
| "queue_echo_items K fd (item # data) s =
     queue_echo_items K fd data (snd (ThreadedServer2_write_vector (\<lambda>b. [b]) K fd item s))"

definition queue_listener :: "'w kernel \<Rightarrow> ('w, ('z wq_ext) ts2_ext) callback" where
  "queue_listener K le s = (case job le of
      CLOSE_SOCKET \<Rightarrow> WorkQueue_close K (le_fd le) s
    | AVAILABLE_FOR_READ \<Rightarrow>
        (case IGenericServer_read K (le_fd le) (1024 * 16) s of
           None \<Rightarrow> (Some Blocked, s)
         | Some (data, s1) \<Rightarrow> (None, queue_echo_items K (le_fd le) data s1))
    | _ \<Rightarrow> (None, s))"

lemma ThreadedServer2_write_more:
  fixes s :: "('w, 'z) ts2_scheme"
  shows "ts2.more (snd (ThreadedServer2_write K fd data s)) = ts2.more s"
proof -
  have wr: "ts2.more (snd (snd (IGenericServer_write K fd data t))) = ts2.more t" for t :: "('w, 'z) ts2_scheme"
    by (rule ts2_more_io) (use IGenericServer_write_frame [of t K fd data] in \<open>simp add: io_frame_def\<close>)
  have "ts2.more (snd (snd (write_critical_section (IGenericServer_write K) fd data q t))) = ts2.more t"
    for q and t :: "('w, 'z) ts2_scheme"
    using wr [of t] by (cases "IGenericServer_write K fd data t") (simp add: write_critical_section_def Let_def)
  moreover have "ts2.more (snd (get_socket_data fd s)) = ts2.more s"
    by (simp add: get_socket_data_eq put_socket_data_def split: option.split)
  ultimately show ?thesis
    by (simp add: ThreadedServer2_write_def case_prod_beta Let_def)
qed

lemma queue_echo_items_more: "ts2.more (queue_echo_items K fd data s) = ts2.more s"
  by (induction data arbitrary: s) (simp_all add: ThreadedServer2_write_vector_def ThreadedServer2_write_more)

lemma queue_listener_more:
  "job le \<noteq> CLOSE_SOCKET \<Longrightarrow> ts2.more (snd (queue_listener K le s)) = ts2.more s"
  by (cases "job le"; cases "IGenericServer_read K (le_fd le) (1024 * 16) s")
    (auto simp: queue_listener_def queue_echo_items_more dest!: IGenericServer_read_more ts2_more_io)

interpretation queue_listener: queue_callback "queue_listener K"
    "\<lambda>le. if job le = CLOSE_SOCKET then {le_fd le} else {}" for K
proof
  fix le and s :: "('a, 'b) logged_scheme"
  let ?s = "snd (queue_listener K le s)"
  have "items ?s = map (marked (if job le = CLOSE_SOCKET then {le_fd le} else {})) (items s)
    \<and> consumers_must_terminate ?s = consumers_must_terminate s \<and> wq.more ?s = wq.more s"
  proof (cases "job le = CLOSE_SOCKET")
    case True
    then show ?thesis by (simp add: queue_listener_def items_closed marked_def)
  next
    case False
    with wq_fields_more [OF queue_listener_more [OF False, of K s]] show ?thesis by simp
  qed
  then show "\<exists>B \<subseteq> (if job le = CLOSE_SOCKET then {le_fd le} else {}). items ?s = map (marked B) (items s)"
    and "consumers_must_terminate ?s = consumers_must_terminate s" and "calls ?s = calls s"
    by (blast, simp, blast intro: logged_fields_more)
qed

section \<open>Properties\<close>


definition demo_logged :: "sim logged" where
  "demo_logged = wq.extend demo_wq (logged.fields [])"


end
