(* ===== verification/ServerSockets.thy ===== *)
theory ServerSockets
  imports IGenericServer
begin

text \<open>
  Models of \<^verbatim>\<open>libnbuss/TcpServer.cpp\<close> and \<^verbatim>\<open>libnbuss/UnixSocketServer.cpp\<close>: how the two kinds of server check
  their parameters and open, bind and retry the listening socket. The rest of a server is inherited
  from \<^verbatim>\<open>IGenericServer\<close>. What they need of the kernel beyond \<^verbatim>\<open>close(2)\<close> is the locale \<open>socket_syscalls\<close>.
\<close>

section \<open>Strings\<close>

text \<open>\<^verbatim>\<open>sprintf("%u")\<close>.\<close>

definition digit :: "nat \<Rightarrow> char" where
  "digit d = ''0123456789'' ! d"

fun decimal :: "nat \<Rightarrow> string" where
  "decimal n = (if n < 10 then [digit n] else decimal (n div 10) @ [digit (n mod 10)])"

declare decimal.simps [simp del]

text \<open>\<^verbatim>\<open>std::string::c_str\<close> as C code reads it, and \<^verbatim>\<open>strncpy\<close> into a zeroed \<^verbatim>\<open>sun_path\<close> of 108 bytes.\<close>

definition c_str :: "string \<Rightarrow> string" where
  "c_str s = takeWhile (\<lambda>c. c \<noteq> CHR 0x00) s"

definition sun_path :: "string \<Rightarrow> string" where
  "sun_path s = take (108 - 1) (c_str s)"

section \<open>TcpServer\<close>

text \<open>
  The loop over the addresses. Inside a method of the class, the unqualified \<^verbatim>\<open>close(sfd)\<close> is the method
  \<^verbatim>\<open>IGenericServer::close\<close>.
\<close>

fun bind_first ::
  "'w kernel \<Rightarrow> nat list \<Rightarrow> ('w, 'z) server_scheme \<Rightarrow> fd \<times> ('w, 'z) server_scheme" where
  "bind_first K [] s = (-1, s)"
| "bind_first K (rp # rps) s =
     (let (sfd, s1) = syscall (sys_socket K ''ai_family'' True) s in
      if sfd = -1 then bind_first K rps s1
      else let (r, s2) = syscall (sys_bind K sfd (Sockaddr_info rp)) s1 in
      if r = 0 then (sfd, s2)
      else bind_first K rps (IGenericServer_close K sfd s2))"

definition open_listening_socket ::
  "'w kernel \<Rightarrow> string \<Rightarrow> nat \<Rightarrow> ('w, 'z) server_scheme \<Rightarrow> fd \<times> ('w, 'z) server_scheme" where
  "open_listening_socket K address port s =
     (if port > 0xFFFF then (-1, s)
      else let (rc, result, s1) = syscall_out (sys_getaddrinfo K (c_str address) (decimal port)) s in
        if rc \<noteq> 0 then (-1, s1) else bind_first K result s1)"

fun setup_loop ::
  "'w kernel \<Rightarrow> string \<Rightarrow> nat \<Rightarrow> nat \<Rightarrow> ('w, 'z) server_scheme \<Rightarrow> exn option \<times> ('w, 'z) server_scheme" where
  "setup_loop K address port 0 s =
     (if fd_no (listen_sock s) = -1 then (Some (Runtime_error ''cannot open server socket''), s)
      else (None, s))"
| "setup_loop K address port (Suc counter) s =
     (let (fd, s1) = open_listening_socket K address port s;
          s2 = s1\<lparr>listen_sock := (listen_sock s1)\<lparr>fd_no := fd\<rparr>\<rparr> in
      if fd \<noteq> -1 then (None, s2) else setup_loop K address port counter s2)"

definition TcpServer_setup ::
  "'w kernel \<Rightarrow> string \<Rightarrow> nat \<Rightarrow> ('w, 'z) server_scheme \<Rightarrow> exn option \<times> ('w, 'z) server_scheme" where
  "TcpServer_setup K address port s = setup_loop K address port 5 s"

text \<open>When the constructor throws, the part that is built is destroyed.\<close>

definition TcpServer_new ::
  "'w kernel \<Rightarrow> nat \<Rightarrow> string \<Rightarrow> nat \<Rightarrow> 'w os \<Rightarrow> (exn \<times> 'w os) + 'w server" where
  "TcpServer_new K port address n s =
     (case IGenericServer_new K n True s of
        Inl x \<Rightarrow> Inl x
      | Inr s1 \<Rightarrow>
          if address = [] then Inl (Invalid_argument ''missing address'', os.truncate (IGenericServer_delete K s1))
          else if n = 0 then Inl (Invalid_argument ''backlog must be > 0'', os.truncate (IGenericServer_delete K s1))
          else if port = 0 then Inl (Invalid_argument ''port must be > 0'', os.truncate (IGenericServer_delete K s1))
          else case TcpServer_setup K address port s1 of
              (Some x, s2) \<Rightarrow> Inl (x, os.truncate (IGenericServer_delete K s2))
            | (None, s2) \<Rightarrow> Inr s2)"

section \<open>Socket options\<close>

text \<open>
  The global variable \<^verbatim>\<open>tcp_proto\<close>, zero until \<^verbatim>\<open>init_socket_env\<close> is called, is the level of the options. The
  argument of \<open>init_socket_env\<close> is the protocol number that \<^verbatim>\<open>getprotobyname\<close> finds, if it finds one.
\<close>

definition tcp_proto_initial :: int where "tcp_proto_initial = 0"

definition init_socket_env :: "int option \<Rightarrow> int outcome" where
  "init_socket_env pe = (case pe of None \<Rightarrow> Inl (UB ''null protoent'') | Some p_proto \<Rightarrow> Inr p_proto)"

definition set_tcp_socket_option ::
  "'w kernel \<Rightarrow> int \<Rightarrow> fd \<Rightarrow> int \<Rightarrow> int \<Rightarrow> ('w, 'z) os_scheme \<Rightarrow> ('w, 'z) os_scheme" where
  "set_tcp_socket_option K tcp_proto fd opt optval s = snd (syscall (sys_setsockopt K fd tcp_proto opt optval) s)"

definition set_tcp_cork ::
  "'w kernel \<Rightarrow> int \<Rightarrow> fd \<Rightarrow> int \<Rightarrow> ('w, 'z) os_scheme \<Rightarrow> ('w, 'z) os_scheme" where
  "set_tcp_cork K tcp_proto fd optval s = snd (syscall (sys_setsockopt K fd tcp_proto TCP_CORK optval) s)"

text \<open>\<open>junk\<close> is the value of the uninitialised variable that a failed \<^verbatim>\<open>getsockopt\<close> leaves alone.\<close>

definition is_tcp_cork_enabled ::
  "'w kernel \<Rightarrow> int \<Rightarrow> int \<Rightarrow> fd \<Rightarrow> ('w, 'z) os_scheme \<Rightarrow> int \<times> ('w, 'z) os_scheme" where
  "is_tcp_cork_enabled K tcp_proto junk fd s =
     (let (c, optval, s1) = syscall_out (sys_getsockopt K fd tcp_proto TCP_CORK) s in
      (if c = -1 then junk else optval, s1))"

definition check_nonblock_fd ::
  "'w kernel \<Rightarrow> fd \<Rightarrow> ('w, 'z) os_scheme \<Rightarrow> ('w, 'z) os_scheme" where
  "check_nonblock_fd K fd s =
     (let (res, s1) = syscall (sys_getfl K fd) s in
      if res = -1 then s1
      else if res AND O_NONBLOCK \<noteq> 0 then s1
      else snd (syscall (sys_setfl K fd O_NONBLOCK) s1))"

section \<open>UnixSocketServer\<close>

definition checkParameters :: "string \<Rightarrow> nat \<Rightarrow> exn option" where
  "checkParameters sockname n =
     (if sockname = [] then Some (Invalid_argument ''missing sockname'')
      else if n = 0 then Some (Invalid_argument ''backlog must be > 0'') else None)"

definition open_unix_socket ::
  "'w kernel \<Rightarrow> string \<Rightarrow> ('w, 'z) server_scheme \<Rightarrow> fd \<times> ('w, 'z) server_scheme" where
  "open_unix_socket K sockname s =
     (let (r0, s0) = syscall (sys_unlink K (c_str sockname)) s;
          (sfd, s1) = syscall (sys_socket K ''AF_UNIX'' True) s0 in
      if sfd = -1 then (-1, s1)
      else let (r, s2) = syscall (sys_bind K sfd (Sockaddr_un (sun_path sockname))) s1 in
      if r = -1 then (-1, s2) else (sfd, s2))"

definition UnixSocketServer_setup ::
  "'w kernel \<Rightarrow> string \<Rightarrow> ('w, 'z) server_scheme \<Rightarrow> exn option \<times> ('w, 'z) server_scheme" where
  "UnixSocketServer_setup K sockname s =
     (let (fd, s1) = open_unix_socket K sockname s;
          s2 = s1\<lparr>listen_sock := (listen_sock s1)\<lparr>fd_no := fd\<rparr>\<rparr> in
      if fd = -1 then (Some (Runtime_error ''cannot open server socket''), s2) else (None, s2))"

definition UnixSocketServer_new ::
  "'w kernel \<Rightarrow> string \<Rightarrow> nat \<Rightarrow> 'w os \<Rightarrow> (exn \<times> 'w os) + 'w server" where
  "UnixSocketServer_new K sockname n s =
     (case IGenericServer_new K n True s of
        Inl x \<Rightarrow> Inl x
      | Inr s1 \<Rightarrow>
          (case checkParameters sockname (backlog s1) of
             Some x \<Rightarrow> Inl (x, os.truncate (IGenericServer_delete K s1))
           | None \<Rightarrow>
               (case UnixSocketServer_setup K sockname s1 of
                  (Some x, s2) \<Rightarrow> Inl (x, os.truncate (IGenericServer_delete K s2))
                | (None, s2) \<Rightarrow> Inr s2)))"

section \<open>What the kernel promises\<close>

text \<open>
  \<^verbatim>\<open>socket(2)\<close> opens a fresh descriptor or none; \<^verbatim>\<open>bind\<close>, \<^verbatim>\<open>unlink\<close>, \<^verbatim>\<open>connect\<close> and \<^verbatim>\<open>getaddrinfo\<close> open and close
  none.
\<close>

locale socket_syscalls = close_syscall +
  assumes socket_opened: "sys_socket K pf nb w = ((c, e), w') \<Longrightarrow>
      opened w' = (if c = -1 then opened w else insert c (opened w)) \<and> (c = -1 \<or> 0 \<le> c \<and> c \<notin> opened w)"
    and bind_opened: "sys_bind K f a w = ((c, e), w') \<Longrightarrow> opened w' = opened w"
    and unlink_opened: "sys_unlink K p w = ((c, e), w') \<Longrightarrow> opened w' = opened w"
    and connect_opened: "sys_connect K f a w = ((c, e), w') \<Longrightarrow> opened w' = opened w"
    and getaddrinfo_opened: "sys_getaddrinfo K h q w = ((c, e, l), w') \<Longrightarrow> opened w' = opened w"
begin

lemma opened_socket:
  "opened (snd (sys_socket K pf nb w)) = (if fst (fst (sys_socket K pf nb w)) = -1 then opened w
     else insert (fst (fst (sys_socket K pf nb w))) (opened w))"
  "fst (fst (sys_socket K pf nb w)) = -1 \<or>
     0 \<le> fst (fst (sys_socket K pf nb w)) \<and> fst (fst (sys_socket K pf nb w)) \<notin> opened w"
  using socket_opened [of pf nb w] by (cases "sys_socket K pf nb w", auto)+

lemma opened_unchanged [simp]:
  "opened (snd (sys_bind K f a w)) = opened w" "opened (snd (sys_unlink K p w)) = opened w"
  "opened (snd (sys_connect K f a w)) = opened w" "opened (snd (sys_getaddrinfo K h q w)) = opened w"
  using bind_opened [of f a w] unlink_opened [of p w] connect_opened [of f a w] getaddrinfo_opened [of h q w]
  by (cases "sys_bind K f a w", cases "sys_unlink K p w", cases "sys_connect K f a w",
      cases "sys_getaddrinfo K h q w", auto)+

lemma bind_first_opened:
  assumes "bind_first K rps s = (fd, s')"
  shows "opened (kern s') = (if fd = -1 then opened (kern s) else insert fd (opened (kern s)))
    \<and> (fd = -1 \<or> 0 \<le> fd \<and> fd \<notin> opened (kern s))"
  using assms
proof (induction rps arbitrary: s)
  case (Cons rp rps)
  let ?c = "fst (fst (sys_socket K ''ai_family'' True (kern s)))"
  obtain s1 where s1: "syscall (sys_socket K ''ai_family'' True) s = (?c, s1)"
    "opened (kern s1) = (if ?c = -1 then opened (kern s) else insert ?c (opened (kern s)))"
    by (simp add: syscall_eq opened_socket)
  obtain r s2 where s2: "syscall (sys_bind K ?c (Sockaddr_info rp)) s1 = (r, s2)"
    "opened (kern s2) = opened (kern s1)" by (simp add: syscall_eq)
  consider "?c = -1" | "?c \<noteq> -1" "r = 0" | "?c \<noteq> -1" "r \<noteq> 0" by blast
  then show ?case
  proof cases
    case 1
    with Cons.prems s1 Cons.IH [of s1] show ?thesis by simp
  next
    case 2
    with Cons.prems s1 s2 opened_socket(2) [of "''ai_family''" True "kern s"] show ?thesis by auto
  next
    case 3
    let ?s3 = "IGenericServer_close K ?c s2"
    from 3 opened_socket(2) [of "''ai_family''" True "kern s"] have c: "0 \<le> ?c" "?c \<notin> opened (kern s)" by auto
    with 3 s1 s2 have "opened (kern ?s3) = opened (kern s)" by (simp add: IGenericServer_close_opened)
    with Cons.prems s1 s2 3 Cons.IH [of ?s3] show ?thesis by simp
  qed
qed simp

lemma open_listening_socket_opened:
  assumes "open_listening_socket K address port s = (fd, s')"
  shows "opened (kern s') = (if fd = -1 then opened (kern s) else insert fd (opened (kern s)))"
  using assms bind_first_opened
  by (fastforce simp: open_listening_socket_def syscall_out_eq Let_def split: if_splits)

end

interpretation sim_sockets: socket_syscalls sim_kernel sim_open
  by unfold_locales
    (auto simp: sim_calls sim_close_def sim_socket_def sim_alloc_def sim_open_def split: if_splits nat.splits)

section \<open>Lemmas\<close>

lemma length_decimal: "n < 10 ^ Suc k \<Longrightarrow> length (decimal n) \<le> Suc k"
proof (induction k arbitrary: n)
  case 0
  then show ?case by (simp add: decimal.simps [of n])
next
  case (Suc k)
  then have "n div 10 < 10 ^ Suc k" by (simp add: less_mult_imp_div_less)
  with Suc.IH [of "n div 10"] show ?case by (simp add: decimal.simps [of n])
qed

lemma bind_first_counter: "activeConnections (snd (bind_first K rps s)) \<le> activeConnections s"
proof (induction rps arbitrary: s)
  case (Cons rp rps)
  let ?s1 = "snd (syscall (sys_socket K ''ai_family'' True) s)"
  let ?c = "fst (syscall (sys_socket K ''ai_family'' True) s)"
  let ?s2 = "snd (syscall (sys_bind K ?c (Sockaddr_info rp)) ?s1)"
  have "activeConnections ?s1 = activeConnections s" "activeConnections ?s2 = activeConnections s"
    by (simp_all add: syscall_eq)
  with Cons.IH [of ?s1] Cons.IH [of "IGenericServer_close K ?c ?s2"] show ?case
    by (auto simp: case_prod_beta Let_def IGenericServer_close_fields split: if_splits)
qed simp

lemma setup_loop_result:
  "setup_loop K address port n s = (r, s') \<Longrightarrow> n > 0 \<Longrightarrow>
     r = None \<and> fd_no (listen_sock s') \<noteq> -1
     \<or> r = Some (Runtime_error ''cannot open server socket'') \<and> fd_no (listen_sock s') = -1"
proof (induction n arbitrary: s)
  case 0
  then show ?case by blast
next
  case (Suc n)
  obtain fd s1 where o: "open_listening_socket K address port s = (fd, s1)"
    by (cases "open_listening_socket K address port s")
  let ?s2 = "s1\<lparr>listen_sock := (listen_sock s1)\<lparr>fd_no := fd\<rparr>\<rparr>"
  have step: "setup_loop K address port (Suc n) s =
      (if fd \<noteq> -1 then (None, ?s2) else setup_loop K address port n ?s2)"
    using o by simp
  show ?case
  proof (cases "fd = -1 \<and> n > 0")
    case True
    with Suc.prems step Suc.IH [of ?s2] show ?thesis by (simp only: not_True_eq_False if_False simp_thms)
  next
    case False
    with Suc.prems step show ?thesis by (auto split: if_splits)
  qed
qed

section \<open>Properties\<close>

text \<open>
  C39. \<^verbatim>\<open>open_listening_socket\<close> keeps exactly the socket it returns: every socket that it opened for an address
  and could not bind is closed again, on the error paths too.
\<close>

theorem open_listening_socket_no_leak:
  assumes "socket_syscalls K opened" and "open_listening_socket K address port s = (fd, s')"
  shows "opened (kern s') = opened (kern s) \<union> (if fd = -1 then {} else {fd})"
  using socket_syscalls.open_listening_socket_opened [OF assms] by simp

definition demo_bind :: "fd \<times> sim server" where
  "demo_bind = open_listening_socket sim_kernel ''0.0.0.0'' 10001 (demo_server\<lparr>kern := sim0\<lparr>busy := 1\<rparr>\<rparr>)"

theorem open_listening_socket_no_leak_witness:
  "fst demo_bind = 7 \<and> sim_open (kern (snd demo_bind)) = {3, 4, 5, 7}"
proof -
  have fd: "fst demo_bind = 7"
    by (simp add: demo_bind_def open_listening_socket_def demo_server_def sim_defs syscall_eq syscall_out_eq
        IGenericServer_close_def)
  have "open_listening_socket sim_kernel ''0.0.0.0'' 10001 (demo_server\<lparr>kern := sim0\<lparr>busy := 1\<rparr>\<rparr>) =
      (7, snd demo_bind)" using fd by (simp add: demo_bind_def prod_eq_iff)
  from open_listening_socket_no_leak [OF sim_sockets.socket_syscalls_axioms this] fd show ?thesis
    by (auto simp: sim_open_def sim0_def)
qed

text \<open>
  Every address that cannot be bound lowers the number of active connections, since the socket is
  closed with the method that counts connections: a server that is not yet listening starts from a
  negative count.
\<close>

lemma bind_failure_counts:
  assumes "sys_socket K ''ai_family'' True (kern s) = ((sfd, e1), w1)" and "0 \<le> sfd"
    and "sys_bind K sfd (Sockaddr_info rp) w1 = ((r, e2), w2)" and "r \<noteq> 0"
  shows "get_active_connections (snd (bind_first K (rp # rps) s)) \<le> get_active_connections s - 1"
proof -
  obtain t where t: "bind_first K (rp # rps) s = bind_first K rps (IGenericServer_close K sfd t)"
    "activeConnections t = activeConnections s"
    using assms by (simp add: syscall_def)
  with bind_first_counter [of K rps "IGenericServer_close K sfd t"] assms(2) show ?thesis
    by (simp add: get_active_connections_def IGenericServer_close_fields)
qed

lemma bind_failure_counts_witness:
  "get_active_connections (snd (bind_first sim_kernel [0, 1] (demo_server\<lparr>kern := sim0\<lparr>busy := 1\<rparr>\<rparr>))) \<le> 0"
proof -
  let ?s = "demo_server\<lparr>kern := sim0\<lparr>busy := 1\<rparr>\<rparr>"
  let ?w = "snd (sim_socket ''ai_family'' True (kern ?s))"
  have "sys_socket sim_kernel ''ai_family'' True (kern ?s) = ((6, 0), ?w)"
    "sys_bind sim_kernel 6 (Sockaddr_info 0) ?w = ((-1, 98), ?w\<lparr>busy := 0\<rparr>)"
    by (simp_all add: sim_defs)
  from bind_failure_counts [OF this(1) _ this(2), of "[1]"] show ?thesis
    by (simp add: get_active_connections_def demo_server_def)
qed

text \<open>
  \<^verbatim>\<open>TcpServer::setup\<close> either returns with an open listening socket or throws with none, after at most
  five attempts.
\<close>

lemma TcpServer_setup_result:
  assumes "TcpServer_setup K address port s = (r, s')"
  shows "r = None \<and> fd_no (listen_sock s') \<noteq> -1
     \<or> r = Some (Runtime_error ''cannot open server socket'') \<and> fd_no (listen_sock s') = -1"
  using setup_loop_result [of K address port 5 s r s'] assms by (simp add: TcpServer_setup_def)

lemma TcpServer_setup_result_witness:
  "\<exists>r s'. TcpServer_setup sim_kernel ''0.0.0.0'' 70000 demo_server = (r, s')
     \<and> (r = None \<and> fd_no (listen_sock s') \<noteq> -1
     \<or> r = Some (Runtime_error ''cannot open server socket'') \<and> fd_no (listen_sock s') = -1)"
  using TcpServer_setup_result [of sim_kernel "''0.0.0.0''" 70000 demo_server]
  by (metis surj_pair)

text \<open>What \<^verbatim>\<open>getaddrinfo\<close> makes of a numeric service name.\<close>

definition parse_decimal :: "string \<Rightarrow> nat" where
  "parse_decimal cs = foldl (\<lambda>n c. 10 * n + (of_char c - 48)) 0 cs"

lemma digit_value: "d < 10 \<Longrightarrow> of_char (digit d) - 48 = d"
  by (simp add: digit_def numeral_eq_Suc less_Suc_eq) auto

lemma parse_decimal_decimal: "parse_decimal (decimal n) = n"
proof (induction n rule: decimal.induct)
  case (1 n)
  then show ?case
    by (simp add: decimal.simps [of n] parse_decimal_def digit_value)
qed

text \<open>
  The port reaches the resolver unharmed: every port that passes the check of \<^verbatim>\<open>open_listening_socket\<close>
  is printed into \<^verbatim>\<open>port_str\<close>, six characters with the terminating null, without overrunning it, and the number
  read back from the characters is the port.
\<close>

lemma port_str_fits:
  assumes "port \<le> 0xFFFF"
  shows "length (decimal port) + 1 \<le> 6 \<and> parse_decimal (decimal port) = port"
  using length_decimal [of port 4] assms by (simp add: parse_decimal_decimal)

lemma port_str_fits_witness: "length (decimal 65535) + 1 \<le> 6 \<and> parse_decimal (decimal 65535) = 65535"
  using port_str_fits [of 65535] by simp

text \<open>
  \<^verbatim>\<open>open_unix_socket\<close> leaks its socket when \<^verbatim>\<open>bind\<close> fails: it returns \<open>-1\<close>, and the descriptor that it
  opened stays open with nobody knowing it.
\<close>

lemma open_unix_socket_leak:
  assumes "socket_syscalls K opened"
    and "open_unix_socket K sockname s = (-1, s')"
    and "fst (fst (sys_socket K ''AF_UNIX'' True (snd (sys_unlink K (c_str sockname) (kern s))))) \<noteq> -1"
  shows "\<exists>sfd \<ge> 0. sfd \<notin> opened (kern s) \<and> opened (kern s') = insert sfd (opened (kern s))
    \<and> listen_sock s' = listen_sock s"
proof -
  let ?w = "snd (sys_unlink K (c_str sockname) (kern s))"
  let ?c = "fst (fst (sys_socket K ''AF_UNIX'' True ?w))"
  note sock = socket_syscalls.opened_socket [OF assms(1), of "''AF_UNIX''" True ?w]
  note same = socket_syscalls.opened_unchanged [OF assms(1)]
  from assms(3) sock(2) same(2) [of "c_str sockname" "kern s"] have "0 \<le> ?c \<and> ?c \<notin> opened (kern s)" by auto
  moreover from assms(2,3) sock(1) same have "opened (kern s') = insert ?c (opened (kern s))"
    by (auto simp: open_unix_socket_def Let_def syscall_eq split: if_splits)
  moreover from assms(2) have "listen_sock s' = listen_sock s"
    by (auto simp: open_unix_socket_def Let_def syscall_eq split: if_splits)
  ultimately show ?thesis by blast
qed

definition demo_unix :: "fd \<times> sim server" where
  "demo_unix = open_unix_socket sim_kernel ''/tmp/s'' (demo_server\<lparr>kern := sim0\<lparr>busy := 1\<rparr>\<rparr>)"

lemma open_unix_socket_leak_witness:
  "\<exists>sfd \<ge> 0. sfd \<notin> sim_open sim0 \<and> sim_open (kern (snd demo_unix)) = insert sfd (sim_open sim0)"
proof -
  let ?s = "demo_server\<lparr>kern := sim0\<lparr>busy := 1\<rparr>\<rparr>"
  have "open_unix_socket sim_kernel ''/tmp/s'' ?s = (-1, snd demo_unix)"
    unfolding demo_unix_def prod_eq_iff
    by (simp add: open_unix_socket_def demo_server_def sim_defs syscall_eq)
  moreover have "fst (fst (sys_socket sim_kernel ''AF_UNIX'' True (snd (sys_unlink sim_kernel (c_str ''/tmp/s'') (kern ?s))))) \<noteq> -1"
    by (simp add: sim_defs)
  moreover have "sim_open (kern ?s) = sim_open sim0" by (simp add: sim_open_def)
  ultimately show ?thesis
    using open_unix_socket_leak [OF sim_sockets.socket_syscalls_axioms, of "''/tmp/s''" ?s "snd demo_unix"]
    by metis
qed

text \<open>
  Only the first 107 characters of a socket name reach the kernel: two names that agree on them are
  bound to the same path.
\<close>

lemma open_unix_socket_truncates:
  assumes "take 107 (c_str a) = take 107 (c_str b)"
    and "sys_unlink K (c_str a) (kern s) = sys_unlink K (c_str b) (kern s)"
  shows "open_unix_socket K a s = open_unix_socket K b s"
  using assms by (simp add: open_unix_socket_def sun_path_def Let_def syscall_eq)

lemma open_unix_socket_truncates_witness:
  "open_unix_socket sim_kernel (replicate 107 CHR ''a'' @ ''b'') demo_server =
     open_unix_socket sim_kernel (replicate 107 CHR ''a'' @ ''c'') demo_server"
  by (rule open_unix_socket_truncates) (simp_all add: c_str_def takeWhile_append sim_calls)

section \<open>The cork option\<close>

text \<open>
  \<^verbatim>\<open>tcp(7)\<close>: the option \<^verbatim>\<open>TCP_CORK\<close> exists at the level \<^verbatim>\<open>IPPROTO_TCP\<close>; a call at another level does not touch it.
\<close>

locale cork_syscalls =
  fixes K :: "'w kernel" and cork :: "'w \<Rightarrow> fd \<Rightarrow> int"
  assumes cork_set: "sys_setsockopt K f IPPROTO_TCP TCP_CORK v w = ((c, e), w') \<Longrightarrow> c \<noteq> -1 \<Longrightarrow> cork w' f = v"
    and cork_get: "sys_getsockopt K f IPPROTO_TCP TCP_CORK w = ((c, e, v), w') \<Longrightarrow> c \<noteq> -1 \<Longrightarrow> v = cork w f"
    and cork_other_level: "lv \<noteq> IPPROTO_TCP \<Longrightarrow> sys_setsockopt K f lv opt v w = (r, w') \<Longrightarrow> cork w' = cork w"
begin

lemma set_tcp_cork_uninitialised: "cork (kern (set_tcp_cork K tcp_proto_initial fd v s)) = cork (kern s)"
proof -
  obtain r w where "sys_setsockopt K fd tcp_proto_initial TCP_CORK v (kern s) = (r, w)"
    by (cases "sys_setsockopt K fd tcp_proto_initial TCP_CORK v (kern s)")
  with cork_other_level [OF _ this] show ?thesis
    by (simp add: set_tcp_cork_def syscall_eq tcp_proto_initial_def IPPROTO_TCP_def)
qed

lemma cork_roundtrip:
  assumes "init_socket_env (Some IPPROTO_TCP) = Inr p"
    and "fst (fst (sys_setsockopt K fd p TCP_CORK v (kern s))) \<noteq> -1"
    and "fst (fst (sys_getsockopt K fd p TCP_CORK (kern (set_tcp_cork K p fd v s)))) \<noteq> -1"
  shows "fst (is_tcp_cork_enabled K p junk fd (set_tcp_cork K p fd v s)) = v"
proof -
  let ?w = "kern (set_tcp_cork K p fd v s)"
  have p: "p = IPPROTO_TCP" using assms(1) by (simp add: init_socket_env_def)
  obtain c e w where "sys_setsockopt K fd p TCP_CORK v (kern s) = ((c, e), w)" by (metis surj_pair)
  with assms(2) cork_set p have "cork ?w fd = v" by (auto simp: set_tcp_cork_def syscall_eq)
  moreover obtain c2 e2 v2 w2 where g: "sys_getsockopt K fd p TCP_CORK ?w = ((c2, e2, v2), w2)" by (metis surj_pair)
  ultimately show ?thesis using assms(3) cork_get [OF g [unfolded p]] by (simp add: is_tcp_cork_enabled_def syscall_out_eq p)
qed

end

text \<open>A kernel that knows nothing but this option.\<close>

definition cork_kernel :: "(fd \<Rightarrow> int) kernel" where
  "cork_kernel = \<lparr>sys_read = (\<lambda>f n w. ((-1, EBADF, []), w)), sys_write = (\<lambda>f d w. ((-1, EBADF), w)),
     sys_close = (\<lambda>f w. ((-1, EBADF), w)), sys_pipe = (\<lambda>w. ((-1, EBADF, (-1, -1)), w)),
     sys_listen = (\<lambda>f n w. ((-1, EBADF), w)), sys_accept4 = (\<lambda>f w. ((-1, EBADF), w)),
     sys_epoll_create1 = (\<lambda>w. ((-1, EBADF), w)), sys_epoll_ctl = (\<lambda>ep op f ev w. ((-1, EBADF), w)),
     sys_getfl = (\<lambda>f w. ((-1, EBADF), w)), sys_setfl = (\<lambda>f x w. ((-1, EBADF), w)),
     sys_setsockopt = (\<lambda>f lv opt v w. if lv = IPPROTO_TCP \<and> opt = TCP_CORK then ((0, 0), w(f := v)) else ((-1, 92), w)),
     sys_getsockopt = (\<lambda>f lv opt w. if lv = IPPROTO_TCP \<and> opt = TCP_CORK then ((0, 0, w f), w) else ((-1, 92, 0), w)),
     sys_socket = (\<lambda>pf nb w. ((-1, EBADF), w)), sys_bind = (\<lambda>f a w. ((-1, EBADF), w)),
     sys_connect = (\<lambda>f a w. ((-1, EBADF), w)), sys_unlink = (\<lambda>p w. ((-1, EBADF), w)),
     sys_getaddrinfo = (\<lambda>a p w. ((-1, EBADF, []), w)), sys_gethostbyname = (\<lambda>h w. (None, w))\<rparr>"

interpretation corks: cork_syscalls cork_kernel "\<lambda>w. w"
  by unfold_locales (auto simp: cork_kernel_def)

text \<open>
  \<^verbatim>\<open>set_tcp_cork\<close> works only after \<^verbatim>\<open>init_socket_env\<close>: then \<^verbatim>\<open>is_tcp_cork_enabled\<close> reads back what was set. Before,
  and no code of the library calls it, the option is requested at level 0 and the socket keeps its cork state.
\<close>

lemma set_tcp_cork_needs_init:
  assumes "cork_syscalls K cork"
  shows "cork (kern (set_tcp_cork K tcp_proto_initial fd v s)) = cork (kern s)
    \<and> (init_socket_env (Some IPPROTO_TCP) = Inr p
        \<and> fst (fst (sys_setsockopt K fd p TCP_CORK v (kern s))) \<noteq> -1
        \<and> fst (fst (sys_getsockopt K fd p TCP_CORK (kern (set_tcp_cork K p fd v s)))) \<noteq> -1
      \<longrightarrow> fst (is_tcp_cork_enabled K p junk fd (set_tcp_cork K p fd v s)) = v)"
  using cork_syscalls.set_tcp_cork_uninitialised [OF assms] cork_syscalls.cork_roundtrip [OF assms] by blast

lemma set_tcp_cork_needs_init_witness:
  "kern (set_tcp_cork cork_kernel tcp_proto_initial 5 1 \<lparr>kern = (\<lambda>_. 0), errno = 0\<rparr>) 5 = 0
   \<and> fst (is_tcp_cork_enabled cork_kernel 6 0 5 (set_tcp_cork cork_kernel 6 5 1 \<lparr>kern = (\<lambda>_. 0), errno = 0\<rparr>)) = 1"
proof -
  let ?s = "\<lparr>kern = (\<lambda>_. 0), errno = 0\<rparr> :: (fd \<Rightarrow> int) os"
  have "init_socket_env (Some IPPROTO_TCP) = Inr 6" by (simp add: init_socket_env_def IPPROTO_TCP_def)
  moreover have "fst (fst (sys_setsockopt cork_kernel 5 6 TCP_CORK 1 (kern ?s))) \<noteq> -1"
    "fst (fst (sys_getsockopt cork_kernel 5 6 TCP_CORK (kern (set_tcp_cork cork_kernel 6 5 1 ?s)))) \<noteq> -1"
    by (simp_all add: cork_kernel_def IPPROTO_TCP_def)
  ultimately show ?thesis
    using set_tcp_cork_needs_init [OF corks.cork_syscalls_axioms, of 5 1 ?s 6] by simp
qed

end
