(* ===== verification/C_Client.thy ===== *)
theory C_Client
  imports ServerSockets
begin

text \<open>
  Model of the stand-alone client \<^verbatim>\<open>unix_socket_client/unixsocketclient.c\<close>, which sends its arguments to a
  Unix socket, asks for a result and prints the answer. Memory that the program reads is a list of
  bytes; \<open>junk\<close> is the indeterminate contents of its buffer, which it does not initialise.
\<close>

section \<open>Definitions\<close>

definition SOCKET_NAME :: string where "SOCKET_NAME = ''/tmp/mysocket.sock''"

definition BUFFER_SIZE :: nat where "BUFFER_SIZE = 12"

datatype exit_code = EXIT_SUCCESS | EXIT_FAILURE

text \<open>The process, with the lines it has printed to its standard output.\<close>

record 'w process = "'w os" +
  stdout :: "byte list list"

definition strlen :: "byte list \<Rightarrow> nat" where
  "strlen m = length (takeWhile (\<lambda>b. b \<noteq> 0) m)"

definition strcpy :: "byte list \<Rightarrow> string \<Rightarrow> byte list" where
  "strcpy buffer src = map of_char src @ [0] @ drop (length src + 1) buffer"

text \<open>\<^verbatim>\<open>printf\<close> with a format that ends in \<^verbatim>\<open>%s\<close> and a new line.\<close>

definition printf_s :: "string \<Rightarrow> byte list \<Rightarrow> ('w, 'z) process_scheme \<Rightarrow> ('w, 'z) process_scheme" where
  "printf_s text m s = s\<lparr>stdout := stdout s @ [map of_char text @ takeWhile (\<lambda>b. b \<noteq> 0) m @ [10]]\<rparr>"

text \<open>The loop over the arguments; it is left at the first write that fails.\<close>

fun send_args ::
  "'w kernel \<Rightarrow> fd \<Rightarrow> byte list list \<Rightarrow> ('w, 'z) process_scheme \<Rightarrow> ('w, 'z) process_scheme" where
  "send_args K fd [] s = s"
| "send_args K fd (a # as) s =
     (let (ret, s1) = syscall (sys_write K fd (take (strlen a + 1) a)) (printf_s ''writing param: '' a s) in
      if ret = -1 then s1 else send_args K fd as s1)"

text \<open>What follows the connection: the arguments, the request, the answer.\<close>

definition C_client_session ::
  "'w kernel \<Rightarrow> fd \<Rightarrow> byte list list \<Rightarrow> byte list \<Rightarrow> ('w, 'z) process_scheme
    \<Rightarrow> exit_code \<times> ('w, 'z) process_scheme" where
  "C_client_session K fd argv junk s =
     (let s1 = send_args K fd (drop 1 argv) s;
          buffer = strcpy junk ''END'';
          (ret2, s2) = syscall (sys_write K fd (take (strlen buffer + 1) buffer)) s1 in
      if ret2 = -1 then (EXIT_FAILURE, s2)
      else let (ret3, d, s3) = syscall_out (sys_read K fd BUFFER_SIZE) s2 in
      if ret3 = -1 then (EXIT_FAILURE, s3)
      else let buffer1 = take (nat ret3) d @ drop (nat ret3) buffer;
               s4 = printf_s ''Result = '' (buffer1[BUFFER_SIZE - 1 := 0]) s3
        in (EXIT_SUCCESS, snd (syscall (sys_close K fd) s4)))"

definition C_client_main ::
  "'w kernel \<Rightarrow> byte list list \<Rightarrow> byte list \<Rightarrow> ('w, 'z) process_scheme
    \<Rightarrow> exit_code \<times> ('w, 'z) process_scheme" where
  "C_client_main K argv junk s =
     (let (data_socket, s1) = syscall (sys_socket K ''AF_UNIX'' False) s in
      if data_socket = -1 then (EXIT_FAILURE, s1)
      else let (ret, s2) = syscall (sys_connect K data_socket (Sockaddr_un (sun_path SOCKET_NAME))) s1 in
      if ret = -1 then (EXIT_FAILURE, s2)
      else C_client_session K data_socket argv junk s2)"

section \<open>The format of a request\<close>

text \<open>
  An argument is memory that holds a null-terminated string. A request is the arguments, each with its
  null, and the string \<^verbatim>\<open>END\<close>. A receiver takes it apart at the nulls.
\<close>

definition c_string :: "byte list \<Rightarrow> byte list" where
  "c_string a = a @ [0]"

definition END_bytes :: "byte list" where
  "END_bytes = [69, 78, 68]"

definition request :: "byte list list \<Rightarrow> byte list" where
  "request as = concat (map c_string (as @ [END_bytes]))"

fun nul_fields :: "byte list \<Rightarrow> byte list list" where
  "nul_fields [] = []"
| "nul_fields (b # bs) =
     (if b = 0 then [] # nul_fields bs
      else case nul_fields bs of [] \<Rightarrow> [[b]] | f # fs \<Rightarrow> (b # f) # fs)"

lemma nul_fields_c_string: "0 \<notin> set a \<Longrightarrow> nul_fields (c_string a @ bs) = a # nul_fields bs"
  by (induction a) (auto simp: c_string_def)

lemma nul_fields_request: "(\<And>a. a \<in> set as \<Longrightarrow> 0 \<notin> set a) \<Longrightarrow> nul_fields (request as) = as @ [END_bytes]"
proof (induction as)
  case Nil
  show ?case using nul_fields_c_string [of END_bytes "[]"] by (simp add: request_def END_bytes_def)
next
  case (Cons a as)
  then have "nul_fields (request as) = as @ [END_bytes]" by simp
  with nul_fields_c_string [of a "request as"] Cons.prems show ?case by (simp add: request_def)
qed

lemma strlen_c_string: "0 \<notin> set a \<Longrightarrow> strlen (c_string a @ m) = length a"
  by (simp add: strlen_def c_string_def takeWhile_append takeWhile_eq_all_conv)

lemma c_string_whole: "0 \<notin> set a \<Longrightarrow> take (Suc (strlen (c_string a @ m))) (c_string a @ m) = c_string a"
  using strlen_c_string [of a m] by (simp add: c_string_def)

lemma strcpy_END: "strcpy junk ''END'' = c_string END_bytes @ drop 4 junk"
  by (simp add: strcpy_def c_string_def END_bytes_def eval_nat_numeral)

lemma END_whole: "take (strlen (strcpy junk ''END'') + 1) (strcpy junk ''END'') = c_string END_bytes"
  using c_string_whole [of END_bytes "drop 4 junk"] unfolding strcpy_END by (simp add: END_bytes_def)

section \<open>What the client sends and prints\<close>

context posix_kernel
begin

lemma send_args_sent:
  assumes "\<And>a. a \<in> set as \<Longrightarrow> 0 \<notin> set a" and full: "\<And>d w. written fd d w = int (length d)"
  shows "sent (kern (send_args K fd (map c_string as) s)) fd = sent (kern s) fd @ concat (map c_string as)"
  using assms(1)
proof (induction as arbitrary: s)
  case (Cons a as)
  let ?s = "printf_s ''writing param: '' (c_string a) s"
  obtain s1 where s1: "syscall (sys_write K fd (c_string a)) ?s = (int (length (c_string a)), s1)"
    "sent (kern s1) fd = sent (kern s) fd @ c_string a"
    by (simp add: syscall_eq full sent_write printf_s_def)
  with Cons c_string_whole [of a "[]"] show ?case by simp
qed simp

lemma send_args_pending: "pending (kern (send_args K fd as s)) = pending (kern s)"
proof (induction as arbitrary: s)
  case (Cons a as)
  obtain r w where w: "sys_write K fd (take (strlen a + 1) a) (kern s) = (r, w)"
    by (cases "sys_write K fd (take (strlen a + 1) a) (kern s)")
  with Cons write_keeps_pending [OF w] show ?case by (simp add: syscall_eq printf_s_def)
qed simp

end

text \<open>
  A session that ends well, taken apart: the state after the arguments, after the request and after the
  answer.
\<close>

lemma C_client_session_success:
  assumes "C_client_session K fd argv junk s = (EXIT_SUCCESS, s')"
  obtains e w2 c e3 d w3
  where "fst (fst (sys_write K fd (c_string END_bytes) (kern (send_args K fd (drop 1 argv) s)))) \<noteq> -1"
    and "w2 = snd (sys_write K fd (c_string END_bytes) (kern (send_args K fd (drop 1 argv) s)))"
    and "sys_read K fd BUFFER_SIZE w2 = ((c, e3, d), w3)" and "c \<noteq> -1"
    and "kern s' = snd (sys_close K fd w3)"
    and "stdout s' = stdout (send_args K fd (drop 1 argv) s) @ [map of_char ''Result = '' @
           takeWhile (\<lambda>b. b \<noteq> 0) ((take (nat c) d @ drop (nat c) (c_string END_bytes @ drop 4 junk))[BUFFER_SIZE - 1 := 0]) @ [10]]"
proof -
  let ?w2 = "snd (sys_write K fd (c_string END_bytes) (kern (send_args K fd (drop 1 argv) s)))"
  obtain c e3 d w3 where r: "sys_read K fd BUFFER_SIZE ?w2 = ((c, e3, d), w3)" by (metis surj_pair)
  from assms r that [OF _ refl r] show thesis
    unfolding C_client_session_def Let_def END_whole
    by (auto simp: syscall_eq syscall_out_eq printf_s_def strcpy_END split: if_splits)
qed

lemma C_client_session_runs:
  assumes "fst (fst (sys_write K fd (c_string END_bytes) (kern (send_args K fd (drop 1 argv) s)))) \<noteq> -1"
    and "sys_read K fd BUFFER_SIZE (snd (sys_write K fd (c_string END_bytes) (kern (send_args K fd (drop 1 argv) s)))) =
      ((c, e, d), w)" and "c \<noteq> -1"
  shows "\<exists>s'. C_client_session K fd argv junk s = (EXIT_SUCCESS, s')
    \<and> last (stdout s') = map of_char ''Result = '' @ takeWhile (\<lambda>b. b \<noteq> 0)
        ((take (nat c) d @ drop (nat c) (c_string END_bytes @ drop 4 junk))[BUFFER_SIZE - 1 := 0]) @ [10]"
  using assms unfolding C_client_session_def Let_def END_whole
  by (simp add: syscall_eq syscall_out_eq printf_s_def strcpy_END)

text \<open>A buffer whose last byte is overwritten with a null reads as a string of what stands before it.\<close>

lemma c_string_of_buffer:
  fixes xs :: "byte list"
  assumes "length xs = BUFFER_SIZE"
  shows "takeWhile (\<lambda>b. b \<noteq> 0) (xs[BUFFER_SIZE - 1 := 0]) = takeWhile (\<lambda>b. b \<noteq> 0) (take (BUFFER_SIZE - 1) xs)"
proof -
  have "xs[BUFFER_SIZE - 1 := 0] = take (BUFFER_SIZE - 1) xs @ [0]"
    using assms by (simp add: upd_conv_take_nth_drop BUFFER_SIZE_def)
  then show ?thesis
    by (simp add: takeWhile_tail)
qed

context posix_kernel
begin

lemma C_client_session_result:
  assumes "C_client_session K fd argv junk s = (EXIT_SUCCESS, s')" and "length junk = BUFFER_SIZE"
  shows "\<exists>d rest. pending (kern s) fd = d @ rest \<and> length d \<le> BUFFER_SIZE
    \<and> stdout s' = stdout (send_args K fd (drop 1 argv) s) @ [map of_char ''Result = '' @ takeWhile (\<lambda>b. b \<noteq> 0)
         (take (BUFFER_SIZE - 1) (d @ drop (length d) (c_string END_bytes @ drop 4 junk))) @ [10]]"
proof -
  from C_client_session_success [OF assms(1)] obtain w2 c e3 d w3
    where w2: "w2 = snd (sys_write K fd (c_string END_bytes) (kern (send_args K fd (drop 1 argv) s)))"
      and rd: "sys_read K fd BUFFER_SIZE w2 = ((c, e3, d), w3)" and c: "c \<noteq> -1"
      and out: "stdout s' = stdout (send_args K fd (drop 1 argv) s) @ [map of_char ''Result = '' @
           takeWhile (\<lambda>b. b \<noteq> 0) ((take (nat c) d @ drop (nat c) (c_string END_bytes @ drop 4 junk))[BUFFER_SIZE - 1 := 0]) @ [10]]"
    by metis
  have pw: "pending w2 = pending (kern s)"
    using w2 send_args_pending write_keeps_pending by (metis prod.collapse)
  from read_range [OF rd] c have "0 \<le> c" "nat c \<le> BUFFER_SIZE" by auto
  with read_data [OF rd] read_pending [OF rd, of fd] pw
  have d: "length d = nat c" "pending (kern s) fd = d @ pending w3 fd" "length d \<le> BUFFER_SIZE" by auto
  have "length (d @ drop (length d) (c_string END_bytes @ drop 4 junk)) = BUFFER_SIZE"
    using d(3) assms(2) by (simp add: c_string_def END_bytes_def BUFFER_SIZE_def)
  from out d(1) c_string_of_buffer [OF this] d(2,3) show ?thesis by auto
qed

end

context posix_streams
begin

lemma C_client_session_sent:
  assumes "C_client_session K fd (map c_string (prog # as)) junk s = (EXIT_SUCCESS, s')"
    and "\<And>a. a \<in> set as \<Longrightarrow> 0 \<notin> set a" and full: "\<And>d w. written fd d w = int (length d)"
  shows "sent (kern s') fd = sent (kern s) fd @ request as"
proof -
  let ?s1 = "send_args K fd (map c_string as) s"
  have args: "drop 1 (map c_string (prog # as)) = map c_string as" by simp
  obtain w2 c e3 d w3 where "w2 = snd (sys_write K fd (c_string END_bytes) (kern ?s1))"
      and rd: "sys_read K fd BUFFER_SIZE w2 = ((c, e3, d), w3)"
      and s': "kern s' = snd (sys_close K fd w3)"
    by (rule C_client_session_success [OF assms(1), unfolded args])
  then have "sent w2 fd = sent (kern ?s1) fd @ c_string END_bytes"
    by (simp add: sent_write full)
  moreover have "sent (kern s') = sent w2"
    using s' rd sent_read [of fd BUFFER_SIZE w2] by (simp add: sent_close)
  ultimately show ?thesis
    using send_args_sent [of as fd s] assms(2) full by (simp add: request_def)
qed

end

section \<open>Properties\<close>

text \<open>
  C17. What the C client sends can be read back. A session that ends well, on a socket that takes every
  write whole, appends to the stream the arguments after the program name and the string \<^verbatim>\<open>END\<close>, and a
  receiver that cuts the stream at the null bytes gets exactly these strings.
\<close>

theorem C_client_request_roundtrip:
  assumes "posix_streams K sent pending opened"
    and "\<And>d w. fst (fst (sys_write K fd d w)) = int (length d)"
    and "\<And>a. a \<in> set as \<Longrightarrow> 0 \<notin> set a"
    and "C_client_session K fd (map c_string (prog # as)) junk s = (EXIT_SUCCESS, s')"
  shows "\<exists>r. sent (kern s') fd = sent (kern s) fd @ r \<and> nul_fields r = as @ [END_bytes]"
  using posix_streams.C_client_session_sent [OF assms(1,4,3,2)] nul_fields_request [OF assms(3)] by blast

definition demo_process :: "sim process" where
  "demo_process = \<lparr>kern = sim0\<lparr>inp := (\<lambda>_. [111, 107])\<rparr>, errno = 0, stdout = []\<rparr>"

definition demo_argv :: "byte list list" where
  "demo_argv = map c_string [[99], [97, 98], [99, 100]]"

lemmas C_client_eval = C_client_session_def strcpy_def BUFFER_SIZE_def demo_argv_def demo_process_def c_string_def
  printf_s_def syscall_eq syscall_out_eq echo_kernel_def sim_calls sim_close_def sim0_def strlen_def Let_def

theorem C_client_request_roundtrip_witness:
  "\<exists>s'. C_client_session echo_kernel 5 demo_argv (replicate 12 255) demo_process = (EXIT_SUCCESS, s')
     \<and> nul_fields (out (kern s') 5) = [[97, 98], [99, 100], END_bytes]"
proof -
  let ?p = "C_client_session echo_kernel 5 (map c_string ([99] # [[97, 98], [99, 100]])) (replicate 12 255) demo_process"
  have ok: "fst ?p = EXIT_SUCCESS" by (simp add: C_client_eval)
  then have r: "?p = (EXIT_SUCCESS, snd ?p)" by (simp add: prod_eq_iff)
  have full: "fst (fst (sys_write echo_kernel 5 d w)) = int (length d)" for d w by (simp add: echo_kernel_def)
  have nz: "a \<in> set [[97, 98], [99, 100]] \<Longrightarrow> (0 :: byte) \<notin> set a" for a by auto
  from C_client_request_roundtrip [OF echo.posix_streams_axioms full nz r] r show ?thesis
    by (auto simp: demo_argv_def demo_process_def sim0_def)
qed

text \<open>
  C19. The result that the C client prints. It reads at most 12 bytes of the answer into its buffer of 12 bytes
  and prints at most 11 characters of it, whatever the server sends; but an answer without a null byte is
  continued with what was in the buffer before, the string \<^verbatim>\<open>END\<close> and uninitialised bytes.
\<close>

theorem C_client_result_bounds:
  assumes "posix_kernel K sent pending opened" and "length junk = BUFFER_SIZE"
    and "C_client_session K fd argv junk s = (EXIT_SUCCESS, s')"
  shows "\<exists>d rest text. pending (kern s) fd = d @ rest \<and> length d \<le> BUFFER_SIZE
    \<and> stdout s' = stdout (send_args K fd (drop 1 argv) s) @ [map of_char ''Result = '' @ text @ [10]]
    \<and> length text \<le> 11
    \<and> text = takeWhile (\<lambda>b. b \<noteq> 0) (take 11 (d @ drop (length d) (c_string END_bytes @ drop 4 junk)))"
proof -
  from posix_kernel.C_client_session_result [OF assms(1,3,2)] obtain d rest where
    d: "pending (kern s) fd = d @ rest" "length d \<le> BUFFER_SIZE"
    "stdout s' = stdout (send_args K fd (drop 1 argv) s) @ [map of_char ''Result = '' @ takeWhile (\<lambda>b. b \<noteq> 0)
         (take 11 (d @ drop (length d) (c_string END_bytes @ drop 4 junk))) @ [10]]"
    by (auto simp: BUFFER_SIZE_def)
  have "length (takeWhile (\<lambda>b. b \<noteq> 0) (take 11 (d @ drop (length d) (c_string END_bytes @ drop 4 junk)))) \<le> 11"
    by (rule le_trans [OF length_takeWhile_le]) simp
  with d show ?thesis by blast
qed

theorem C_client_result_bounds_witness:
  "\<exists>s' text. C_client_session echo_kernel 5 demo_argv (replicate 12 255) demo_process = (EXIT_SUCCESS, s')
     \<and> last (stdout s') = map of_char ''Result = '' @ text @ [10] \<and> length text \<le> 11"
proof -
  let ?p = "C_client_session echo_kernel 5 demo_argv (replicate 12 255) demo_process"
  have "fst ?p = EXIT_SUCCESS" by (simp add: C_client_eval)
  then have r: "?p = (EXIT_SUCCESS, snd ?p)" by (simp add: prod_eq_iff)
  from C_client_result_bounds [OF echo.posix_kernel_axioms _ r] r show ?thesis
    by (auto simp: BUFFER_SIZE_def)
qed

text \<open>
  The client takes the end of the stream for an answer: when the server closes the connection
  without sending anything, it reports success and prints its own request as the result.
\<close>

lemma C_client_end_of_file:
  assumes "posix_kernel K sent pending opened" and "length junk = BUFFER_SIZE"
    and "C_client_session K fd argv junk s = (EXIT_SUCCESS, s')" and "pending (kern s) fd = []"
  shows "last (stdout s') = map of_char ''Result = END'' @ [10]"
  using posix_kernel.C_client_session_result [OF assms(1,3,2)] assms(4)
  by (auto simp: c_string_def END_bytes_def BUFFER_SIZE_def)

text \<open>
  A short write is not continued. An argument that is cut loses its null byte, and the receiver
  takes it and the following string for one.
\<close>

lemma C_client_short_write_merges:
  "nul_fields (out (kern (snd (C_client_session (echo_kernel\<lparr>sys_write := (\<lambda>f d. sys_write echo_kernel f (take 2 d))\<rparr>)
     5 (map c_string [[99], [97, 98], [99, 100]]) junk demo_process))) 5) = [[97, 98, 99, 100, 69, 78]]"
  by (simp add: C_client_eval)

end
