(* ===== verification/Clients.thy ===== *)
theory Clients
  imports ServerSockets
begin

text \<open>
  Models of the client side: \<^verbatim>\<open>libnbuss/BaseClient.cpp\<close>, \<^verbatim>\<open>libnbuss/UnixSocketClient.cpp\<close> and
  \<^verbatim>\<open>libnbuss/TcpClient.cpp\<close>. A client is its socket, the flag for non-blocking mode, and the system it
  runs on. The contract of the status flags of a descriptor is the locale \<open>fcntl_syscalls\<close>.
\<close>

section \<open>BaseClient\<close>

record 'w client = "'w os" +
  data_socket :: fd
  nonBlockingSocket :: bool

definition BaseClient_new :: "bool \<Rightarrow> 'w os \<Rightarrow> 'w client" where
  "BaseClient_new nonBlocking s = os.extend s (client.fields (-1) nonBlocking)"

text \<open>
  The loop of \<^verbatim>\<open>write\<close>; \<open>k\<close> is the distance \<^verbatim>\<open>p - data\<close>, which grows by the partial writes only.
\<close>

function client_write_loop ::
  "'w kernel \<Rightarrow> fd \<Rightarrow> byte list \<Rightarrow> nat \<Rightarrow> ('w, 'z) client_scheme
    \<Rightarrow> int \<times> nat \<times> ('w, 'z) client_scheme" where
  "client_write_loop K fd p k s =
     (let (c, s1) = syscall (sys_write K fd p) s in
      if c > 0 \<and> c < int (length p) then client_write_loop K fd (drop (nat c) p) (k + nat c) s1
      else (c, k, s1))"
  by pat_completeness auto
termination
  by (relation "measure (\<lambda>(K, fd, p, k, s). length p)") auto

declare client_write_loop.simps [simp del]

definition BaseClient_write ::
  "'w kernel \<Rightarrow> byte list \<Rightarrow> ('w, 'z) client_scheme \<Rightarrow> int \<times> errno \<times> ('w, 'z) client_scheme" where
  "BaseClient_write K data s =
     (if data_socket s = -1 then (-1, -1, s)
      else let (c, k, s1) = client_write_loop K (data_socket s) data 0 s in
        if c = -1 \<and> (errno s1 = EAGAIN \<or> errno s1 = EWOULDBLOCK)
        then (if k > 0 then int k else -1, errno s1, s1)
        else if c = -1 then (-1, errno s1, s1)
        else (to_int (int k), errno s1, s1))"

text \<open>The overloads for vectors and strings; \<open>enc\<close> gives the bytes of one element.\<close>

definition BaseClient_write_vector ::
  "('t \<Rightarrow> byte list) \<Rightarrow> 'w kernel \<Rightarrow> 't list \<Rightarrow> ('w, 'z) client_scheme
    \<Rightarrow> int \<times> errno \<times> ('w, 'z) client_scheme" where
  "BaseClient_write_vector enc K data s = BaseClient_write K (concat (map enc data)) s"

definition BaseClient_write_string ::
  "'w kernel \<Rightarrow> string \<Rightarrow> ('w, 'z) client_scheme \<Rightarrow> int \<times> errno \<times> ('w, 'z) client_scheme" where
  "BaseClient_write_string K data s = BaseClient_write K (map of_char data) s"

definition BaseClient_read ::
  "'w kernel \<Rightarrow> int \<Rightarrow> ('w, 'z) client_scheme \<Rightarrow> (exn + byte list) \<times> ('w, 'z) client_scheme" where
  "BaseClient_read K buffer_size s =
     (if buffer_size \<le> 0 then (Inl (Invalid_argument ''invalid buffer_size''), s)
      else let n = nat buffer_size;
               (c, d, s1) = syscall_out (sys_read K (data_socket s) n) s in
        if c = -1 \<and> (errno s1 = EAGAIN \<or> errno s1 = EWOULDBLOCK) then (Inr [], s1)
        else if c = -1 then (Inl (Runtime_error ''read error''), s1)
        else (Inr (filled n d (nat c)), s1))"

definition BaseClient_close ::
  "'w kernel \<Rightarrow> ('w, 'z) client_scheme \<Rightarrow> ('w, 'z) client_scheme" where
  "BaseClient_close K s =
     (if data_socket s \<ge> 0 then (snd (syscall (sys_close K (data_socket s)) s))\<lparr>data_socket := -1\<rparr> else s)"

definition BaseClient_delete ::
  "'w kernel \<Rightarrow> ('w, 'z) client_scheme \<Rightarrow> ('w, 'z) client_scheme" where
  "BaseClient_delete K s = BaseClient_close K s"

section \<open>UnixSocketClient\<close>

record 'w unix_client = "'w client" +
  sockname :: string

definition UnixSocketClient_new :: "bool \<Rightarrow> 'w os \<Rightarrow> 'w unix_client" where
  "UnixSocketClient_new nonBlocking s =
     client.extend (BaseClient_new nonBlocking s) (unix_client.fields [])"

definition UnixSocketClient_connect ::
  "'w kernel \<Rightarrow> string \<Rightarrow> ('w, 'z) unix_client_scheme \<Rightarrow> exn option \<times> ('w, 'z) unix_client_scheme" where
  "UnixSocketClient_connect K name s =
     (if name = [] then (Some (Invalid_argument ''missing sockname''), s)
      else let s0 = s\<lparr>sockname := name\<rparr>;
               (fd, s1) = syscall (sys_socket K ''AF_UNIX'' (nonBlockingSocket s0)) s0;
               s2 = s1\<lparr>data_socket := fd\<rparr> in
        if fd = -1 then (Some (Runtime_error ''socket error''), s2)
        else let (ret, s3) = syscall (sys_connect K fd (Sockaddr_un (sun_path name))) s2 in
        if ret = -1 then (Some (Runtime_error ''connect error''), s3) else (None, s3))"

definition UnixSocketClient_write ::
  "'w kernel \<Rightarrow> byte list \<Rightarrow> ('w, 'z) unix_client_scheme \<Rightarrow> int \<times> errno \<times> ('w, 'z) unix_client_scheme" where
  "UnixSocketClient_write K data s =
     (if length data \<le> 4096 then BaseClient_write K data s
      else let (res1, s1) = (if nonBlockingSocket s then set_fd_non_blocking K (data_socket s) False s else (0, s)) in
        if nonBlockingSocket s \<and> res1 = -1 then (-1, -1, s1)
        else let (r, e, s2) = BaseClient_write K data s1;
                 (res3, s3) = (if nonBlockingSocket s2 then set_fd_non_blocking K (data_socket s2) True s2 else (0, s2)) in
        if nonBlockingSocket s2 \<and> res3 = -1 then (-1, -1, s3)
        else (to_int r, e, s3))"

definition UnixSocketClient_write_vector ::
  "('t \<Rightarrow> byte list) \<Rightarrow> 'w kernel \<Rightarrow> 't list \<Rightarrow> ('w, 'z) unix_client_scheme
    \<Rightarrow> int \<times> errno \<times> ('w, 'z) unix_client_scheme" where
  "UnixSocketClient_write_vector enc K data s = UnixSocketClient_write K (concat (map enc data)) s"

section \<open>TcpClient\<close>

record 'w tcp_client = "'w client" +
  tcp_port :: nat
  hostname :: string

definition TcpClient_new :: "bool \<Rightarrow> 'w os \<Rightarrow> 'w tcp_client" where
  "TcpClient_new nonBlocking s = client.extend (BaseClient_new nonBlocking s) (tcp_client.fields 0 [])"

text \<open>
  \<open>tcp_known\<close> says whether \<^verbatim>\<open>getprotobyname\<close> finds the protocol; its result is used without a test. The
  address is copied with the size of a pointer, eight bytes.
\<close>

definition TcpClient_connect ::
  "'w kernel \<Rightarrow> bool \<Rightarrow> string \<Rightarrow> nat \<Rightarrow> ('w, 'z) tcp_client_scheme
    \<Rightarrow> abrupt option \<times> ('w, 'z) tcp_client_scheme" where
  "TcpClient_connect K tcp_known host port s =
     (if host = [] then (Some (Throw (Invalid_argument ''missing hostname'')), s)
      else if port > 65535 then (Some (Throw (Invalid_argument ''wrong port'')), s)
      else let s0 = s\<lparr>hostname := host\<rparr> in
      if \<not> tcp_known then (Some (UB ''null protoent''), s0)
      else let (fd, s1) = syscall (sys_socket K ''PF_INET'' False) s0;
               s2 = s1\<lparr>data_socket := fd\<rparr> in
      if fd = -1 then (Some (Throw (Runtime_error ''socket: error'')), s2)
      else case sys_gethostbyname K (c_str host) (kern s2) of
          (None, w) \<Rightarrow> (Some (Throw (Runtime_error ''gethostbyname: error resolving hostname'')), s2\<lparr>kern := w\<rparr>)
        | (Some addr, w) \<Rightarrow>
            (let (ret, s3) = syscall (sys_connect K fd (Sockaddr_in port (take 8 addr))) (s2\<lparr>kern := w\<rparr>) in
             if ret = -1 then (Some (Throw (Runtime_error ''connect: error connecting to server'')), s3)
             else (None, s3)))"

section \<open>Status flags\<close>

text \<open>
  \<^verbatim>\<open>fcntl(2)\<close>: \<^verbatim>\<open>F_GETFL\<close> returns the flags or \<open>-1\<close> and changes nothing, \<^verbatim>\<open>F_SETFL\<close> stores them when it does
  not fail, and writing leaves them alone.
\<close>

locale fcntl_syscalls =
  fixes K :: "'w kernel" and flags_of :: "'w \<Rightarrow> fd \<Rightarrow> int"
  assumes getfl_flags: "sys_getfl K f w = ((c, e), w') \<Longrightarrow> (c = -1 \<or> c = flags_of w f) \<and> flags_of w' = flags_of w"
    and setfl_flags: "sys_setfl K f x w = ((c, e), w') \<Longrightarrow> c \<noteq> -1 \<Longrightarrow> flags_of w' f = x"
    and write_flags: "sys_write K f d w = ((c, e), w') \<Longrightarrow> flags_of w' = flags_of w"
begin

lemma set_fd_non_blocking_flags:
  assumes "set_fd_non_blocking K fd nb s = (r, s')" and "r \<noteq> -1"
  shows "flags_of (kern s') fd = (if nb then flags_of (kern s) fd AND O_NONBLOCK else 0)"
proof -
  obtain c e w where g: "sys_getfl K fd (kern s) = ((c, e), w)" by (metis surj_pair)
  obtain c2 e2 w2 where t: "sys_setfl K fd (c AND (if nb then O_NONBLOCK else logical_not O_NONBLOCK)) w =
      ((c2, e2), w2)" by (metis surj_pair)
  from assms g t have "c \<noteq> -1" "kern s' = w2" "c2 \<noteq> -1"
    by (auto simp: set_fd_non_blocking_def syscall_def split: if_splits)
  with getfl_flags [OF g] setfl_flags [OF t] show ?thesis
    by (simp add: logical_not_def O_NONBLOCK_def)
qed

lemma client_write_loop_flags: "flags_of (kern (snd (snd (client_write_loop K fd p k s)))) = flags_of (kern s)"
proof (induction "length p" arbitrary: p k s rule: less_induct)
  case less
  obtain c e w where w: "sys_write K fd p (kern s) = ((c, e), w)" by (metis surj_pair)
  show ?case
  proof (cases "0 < c \<and> c < int (length p)")
    case True
    then have "length (drop (nat c) p) < length p" by auto
    from True less [OF this] w write_flags [OF w] show ?thesis
      by (simp add: client_write_loop.simps [of K fd p] syscall_def)
  next
    case False
    with w write_flags [OF w] show ?thesis
      by (auto simp: client_write_loop.simps [of K fd p] syscall_def)
  qed
qed

end

interpretation sim_fcntl: fcntl_syscalls sim_kernel flags
  by unfold_locales (auto simp: sim_calls sim_write_def Let_def split: if_splits)

section \<open>Lemmas\<close>

lemma client_write_loop_frame:
  "data_socket (snd (snd (client_write_loop K fd p k s))) = data_socket s
   \<and> nonBlockingSocket (snd (snd (client_write_loop K fd p k s))) = nonBlockingSocket s"
proof (induction "length p" arbitrary: p k s rule: less_induct)
  case less
  obtain c e w where w: "sys_write K fd p (kern s) = ((c, e), w)" by (metis surj_pair)
  show ?case
  proof (cases "0 < c \<and> c < int (length p)")
    case True
    then have "length (drop (nat c) p) < length p" by auto
    from True less [OF this] w show ?thesis
      by (simp add: client_write_loop.simps [of K fd p] syscall_def)
  next
    case False
    with w show ?thesis by (auto simp: client_write_loop.simps [of K fd p] syscall_def)
  qed
qed

lemma BaseClient_write_state:
  "snd (snd (BaseClient_write K data s)) =
     (if data_socket s = -1 then s else snd (snd (client_write_loop K (data_socket s) data 0 s)))"
  by (simp add: BaseClient_write_def Let_def split: prod.split)

lemma to_int_0 [simp]: "to_int 0 = 0"
  using to_int_id [of 0] by simp

context write_syscall
begin

lemma client_write_loop_sent:
  assumes "client_write_loop K fd p k s = (c, k', s')"
  shows "\<exists>j. k \<le> k' \<and> k' \<le> k + j \<and> j \<le> length p \<and> -1 \<le> c \<and> (c = -1 \<longrightarrow> k' = k + j) \<and> (c > 0 \<longrightarrow> j = length p)
    \<and> sent (kern s') fd = sent (kern s) fd @ take j p"
  using assms
proof (induction "length p" arbitrary: p k s rule: less_induct)
  case less
  let ?c = "written fd p (kern s)"
  obtain s1 where sys: "syscall (sys_write K fd p) s = (?c, s1)"
    and k1: "kern s1 = snd (sys_write K fd p (kern s))" by (simp add: syscall_eq)
  show ?case
  proof (cases "?c > 0 \<and> ?c < int (length p)")
    case True
    with less.prems sys have rest: "client_write_loop K fd (drop (nat ?c) p) (k + nat ?c) s1 = (c, k', s')"
      by (simp add: client_write_loop.simps [of K fd p k s])
    have "length (drop (nat ?c) p) < length p" using True by auto
    from less.hyps [OF this rest] obtain j where j: "k + nat ?c \<le> k'" "k' \<le> k + nat ?c + j"
      "j \<le> length (drop (nat ?c) p)" "-1 \<le> c" "c = -1 \<longrightarrow> k' = k + nat ?c + j"
      "c > 0 \<longrightarrow> j = length (drop (nat ?c) p)"
      "sent (kern s') fd = sent (kern s1) fd @ take j (drop (nat ?c) p)" by blast
    have i: "nat ?c \<le> length p" using True by auto
    have "sent (kern s') fd = sent (kern s) fd @ take (nat ?c + j) p"
      using j(7) by (simp add: k1 sent_write flip: take_append_drop_take [OF i])
    with j(1-6) i show ?thesis by (intro exI [of _ "nat ?c + j"]) auto
  next
    case False
    with less.prems sys have "c = ?c" "k' = k" "s' = s1"
      by (auto simp: client_write_loop.simps [of K fd p k s])
    with False written_range [of fd p "kern s"] show ?thesis
      by (intro exI [of _ "nat ?c"]) (auto simp: k1 sent_write)
  qed
qed

end

section \<open>Properties\<close>

text \<open>
  \<^verbatim>\<open>BaseClient::write\<close> sends a prefix of its data, and its result never exceeds the length of that prefix,
  for data of less than 2 GiB; but when the last system call succeeds the result leaves out what that call
  wrote.
\<close>

lemma BaseClient_write_prefix:
  assumes "write_syscall K sent" and "BaseClient_write K data s = (r, e, s')" and "length data < 2 ^ 31"
  shows "\<exists>k \<le> length data. sent (kern s') (data_socket s) = sent (kern s) (data_socket s) @ take k data
    \<and> -1 \<le> r \<and> r \<le> int k"
proof (cases "data_socket s = -1")
  case True
  with assms(2) show ?thesis by (auto simp: BaseClient_write_def intro!: exI [of _ 0])
next
  case False
  obtain c k' s1 where l: "client_write_loop K (data_socket s) data 0 s = (c, k', s1)"
    by (cases "client_write_loop K (data_socket s) data 0 s")
  from write_syscall.client_write_loop_sent [OF assms(1) l] obtain j where
    j: "k' \<le> j" "j \<le> length data" "sent (kern s1) (data_socket s) = sent (kern s) (data_socket s) @ take j data"
    by auto
  with assms(3) have "to_int (int k') = int k'" by (simp add: to_int_id)
  with assms(2) False l j show ?thesis
    by (auto simp: BaseClient_write_def split: if_splits intro!: exI [of _ j])
qed

definition demo_client :: "sim unix_client" where
  "demo_client = (UnixSocketClient_new True \<lparr>kern = sim0\<lparr>flags := (\<lambda>_. O_NONBLOCK)\<rparr>, errno = 0\<rparr>)\<lparr>data_socket := 5\<rparr>"

lemma demo_client_simps [simp]: "data_socket demo_client = 5" "nonBlockingSocket demo_client = True"
  "kern demo_client = sim0\<lparr>flags := (\<lambda>_. O_NONBLOCK)\<rparr>"
  by (simp_all add: demo_client_def UnixSocketClient_new_def BaseClient_new_def client.extend_def
      client.fields_def unix_client.fields_def os.extend_def)

lemma BaseClient_write_prefix_witness:
  "\<exists>k \<le> length [1, 2, 3 :: byte]. out (kern (snd (snd (BaseClient_write sim_kernel [1, 2, 3] demo_client)))) 5 = take k [1, 2, 3]
    \<and> fst (BaseClient_write sim_kernel [1, 2, 3] demo_client) \<le> int k"
proof -
  obtain r e s' where w: "BaseClient_write sim_kernel [1, 2, 3] demo_client = (r, e, s')"
    by (cases "BaseClient_write sim_kernel [1, 2, 3] demo_client")
  have "length [1, 2, 3 :: byte] < 2 ^ 31" by simp
  from BaseClient_write_prefix [OF sim_is_kernel(1) w this]
  obtain k where "k \<le> length [1, 2, 3 :: byte]" "out (kern s') 5 = out sim0 5 @ take k [1, 2, 3]" "r \<le> int k"
    by auto
  with w show ?thesis by (intro exI [of _ k]) (simp add: sim0_def)
qed

text \<open>
  When the kernel takes all the data at once, \<^verbatim>\<open>BaseClient::write\<close> reports that it wrote nothing.
\<close>

lemma BaseClient_write_reports_zero:
  assumes "data_socket s \<noteq> -1" and "sys_write K (data_socket s) data (kern s) = ((int (length data), e), w)"
  shows "fst (BaseClient_write K data s) = 0"
  using assms
  by (simp add: BaseClient_write_def client_write_loop.simps [of K _ data] syscall_def to_int_id)

lemma BaseClient_write_reports_zero_witness:
  "fst (BaseClient_write sim_kernel [1, 2, 3] demo_client) = 0
   \<and> out (snd (sys_write sim_kernel 5 [1, 2, 3] (kern demo_client))) 5 = [1, 2, 3]"
proof -
  have w: "sys_write sim_kernel (data_socket demo_client) [1, 2, 3] (kern demo_client) =
      ((int (length [1, 2, 3 :: byte]), 0), snd (sys_write sim_kernel 5 [1, 2, 3] (kern demo_client)))"
    by (simp add: sim_defs)
  have "data_socket demo_client \<noteq> -1" by simp
  from BaseClient_write_reports_zero [OF this w] show ?thesis by (simp add: sim_defs)
qed



text \<open>
  \<^verbatim>\<open>BaseClient::close\<close> closes the socket of the client and nothing else, and closing again, as the
  destructor does, has no effect.
\<close>

lemma BaseClient_close_once:
  assumes "close_syscall K opened" and "0 \<le> data_socket s"
  shows "opened (kern (BaseClient_close K s)) = opened (kern s) - {data_socket s}
    \<and> BaseClient_delete K (BaseClient_close K s) = BaseClient_close K s"
  using assms(2) close_syscall.opened_close [OF assms(1)]
  by (simp add: BaseClient_close_def BaseClient_delete_def syscall_eq)

lemma BaseClient_close_once_witness:
  "open_fds (kern (BaseClient_close sim_kernel demo_client)) = {3, 4}"
proof -
  have "open_fds (kern demo_client) - {data_socket demo_client} = {3, 4}" by (auto simp: sim0_def)
  with BaseClient_close_once [OF sim_is_kernel(3), of demo_client] show ?thesis by simp
qed

text \<open>
  Connecting a client that is already connected opens a new socket and forgets the old one, which
  stays open.
\<close>

lemma UnixSocketClient_reconnect_leaks:
  assumes "socket_syscalls K opened" and "data_socket s \<in> opened (kern s)"
    and "UnixSocketClient_connect K name s = (None, s')"
  shows "data_socket s \<in> opened (kern s') \<and> data_socket s' \<in> opened (kern s') \<and> data_socket s' \<noteq> data_socket s"
proof -
  let ?c = "fst (fst (sys_socket K ''AF_UNIX'' (nonBlockingSocket s) (kern s)))"
  note sock = socket_syscalls.opened_socket [OF assms(1), of "''AF_UNIX''" "nonBlockingSocket s" "kern s"]
  note same = socket_syscalls.opened_unchanged(3) [OF assms(1)]
  from assms(3) sock(1) same have c: "?c \<noteq> -1" "data_socket s' = ?c" "opened (kern s') = insert ?c (opened (kern s))"
    by (auto simp: UnixSocketClient_connect_def Let_def syscall_eq split: if_splits)
  with assms(2) sock(2) show ?thesis by auto
qed

definition demo_reconnected :: "sim unix_client" where
  "demo_reconnected = snd (UnixSocketClient_connect sim_kernel ''/tmp/s'' demo_client)"

lemma UnixSocketClient_reconnect_leaks_witness:
  "5 \<in> sim_open (kern demo_reconnected) \<and> data_socket demo_reconnected \<noteq> 5"
proof -
  have c: "UnixSocketClient_connect sim_kernel ''/tmp/s'' demo_client = (None, demo_reconnected)"
    unfolding demo_reconnected_def prod_eq_iff
    by (simp add: UnixSocketClient_connect_def syscall_eq sim_defs)
  have "data_socket demo_client \<in> sim_open (kern demo_client)" by (simp add: sim_open_def sim0_def)
  from UnixSocketClient_reconnect_leaks [OF sim_sockets.socket_syscalls_axioms this c] show ?thesis by simp
qed

text \<open>
  A \<^verbatim>\<open>UnixSocketClient\<close> in non-blocking mode is in blocking mode after it has written more than 4096
  bytes: the mode is switched for the call and cannot be switched back.
\<close>

lemma UnixSocketClient_write_stays_blocking:
  assumes "fcntl_syscalls K flags_of" and "nonBlockingSocket s" and "length data > 4096"
    and "UnixSocketClient_write K data s = (r, e, s')" and "data_socket s \<noteq> -1" and "r \<noteq> -1"
  shows "flags_of (kern s') (data_socket s) AND O_NONBLOCK = 0"
proof -
  let ?fd = "data_socket s"
  obtain r1 s1 where f1: "set_fd_non_blocking K ?fd False s = (r1, s1)"
    by (cases "set_fd_non_blocking K ?fd False s")
  have s1: "data_socket s1 = ?fd" "nonBlockingSocket s1 = nonBlockingSocket s"
    using f1 by (auto simp: set_fd_non_blocking_def Let_def syscall_eq split: if_splits)
  obtain r2 e2 s2 where w: "BaseClient_write K data s1 = (r2, e2, s2)"
    by (cases "BaseClient_write K data s1")
  then have s2: "s2 = snd (snd (client_write_loop K ?fd data 0 s1))"
    using BaseClient_write_state [of K data s1] s1 assms(5) by simp
  then have s2f: "data_socket s2 = ?fd" "nonBlockingSocket s2" "flags_of (kern s2) = flags_of (kern s1)"
    using client_write_loop_frame [of K ?fd data 0 s1] s1 assms(2)
      fcntl_syscalls.client_write_loop_flags [OF assms(1), of ?fd data 0 s1] by simp_all
  obtain r3 s3 where f3: "set_fd_non_blocking K ?fd True s2 = (r3, s3)"
    by (cases "set_fd_non_blocking K ?fd True s2")
  from assms(2-4,6) f1 w s2f f3 have "r1 \<noteq> -1" "r3 \<noteq> -1" "s' = s3"
    by (auto simp: UnixSocketClient_write_def split: if_splits)
  with fcntl_syscalls.set_fd_non_blocking_flags [OF assms(1) f1] s2f(3)
    fcntl_syscalls.set_fd_non_blocking_flags [OF assms(1) f3] show ?thesis by simp
qed

definition bulk_kernel :: "sim kernel" where
  "bulk_kernel = sim_kernel\<lparr>sys_write := (\<lambda>f d w. ((int (length d), 0), w))\<rparr>"

interpretation bulk_fcntl: fcntl_syscalls bulk_kernel flags
  by unfold_locales (auto simp: bulk_kernel_def sim_calls split: if_splits)

definition demo_big :: "int \<times> errno \<times> sim unix_client" where
  "demo_big = UnixSocketClient_write bulk_kernel (replicate 5000 0) demo_client"

lemma UnixSocketClient_write_stays_blocking_witness:
  "flags (kern demo_client) 5 AND O_NONBLOCK \<noteq> 0 \<and> flags (kern (snd (snd demo_big))) 5 AND O_NONBLOCK = 0"
proof -
  have w: "UnixSocketClient_write bulk_kernel (replicate 5000 0) demo_client =
      (fst demo_big, fst (snd demo_big), snd (snd demo_big))" by (simp add: demo_big_def)
  have "fst demo_big \<noteq> -1"
    by (simp add: demo_big_def UnixSocketClient_write_def set_fd_non_blocking_def bulk_kernel_def sim_calls
        BaseClient_write_def client_write_loop.simps syscall_eq sim0_def O_NONBLOCK_def to_int_def logical_not_def)
  with UnixSocketClient_write_stays_blocking [OF bulk_fcntl.fcntl_syscalls_axioms _ _ w] show ?thesis
    by (simp add: O_NONBLOCK_def)
qed

text \<open>
  \<^verbatim>\<open>TcpClient::connect\<close> ignores the mode the client was built with: it makes the same calls, to the same
  end, whatever \<^verbatim>\<open>nonBlockingSocket\<close> says, and it never stores the port.
\<close>

lemma TcpClient_connect_ignores_mode:
  "fst (TcpClient_connect K known host port (s\<lparr>nonBlockingSocket := b\<rparr>)) = fst (TcpClient_connect K known host port s)
   \<and> kern (snd (TcpClient_connect K known host port (s\<lparr>nonBlockingSocket := b\<rparr>))) =
       kern (snd (TcpClient_connect K known host port s))
   \<and> tcp_port (snd (TcpClient_connect K known host port s)) = tcp_port s"
  by (simp add: TcpClient_connect_def Let_def syscall_eq split: prod.split option.split)

text \<open>
  The parameters of \<^verbatim>\<open>TcpClient::connect\<close> are checked before anything happens: a missing host name or a
  port above 65535 is refused with no system call and no change of the client.
\<close>

lemma TcpClient_connect_checks:
  "host = [] \<or> port > 65535 \<longleftrightarrow>
     (\<exists>m. TcpClient_connect K known host port s = (Some (Throw (Invalid_argument m)), s))"
  by (auto simp: TcpClient_connect_def Let_def syscall_eq split: prod.splits option.splits if_splits)

end
