(* ===== verification/Wire.thy ===== *)
theory Wire
  imports Clients
begin

text \<open>
  What one end writes and the other end reads: the typed overloads \<^verbatim>\<open>BaseClient::write<T>\<close> and
  \<^verbatim>\<open>IGenericServer::read_one_buffer_t<T>\<close> as an encoder and a decoder of a byte stream. The
  representation of an element in memory is the contract \<open>fixed_width\<close>, interpreted on characters and
  on the 16 bit words of a little-endian machine.
\<close>

section \<open>Elements of fixed width\<close>

locale fixed_width =
  fixes sz :: nat and enc :: "'t \<Rightarrow> byte list" and dec :: "byte list \<Rightarrow> 't"
  assumes width_pos: "0 < sz"
    and enc_width: "length (enc x) = sz"
    and dec_enc: "dec (enc x) = x"
begin

lemma length_encoded: "length (concat (map enc xs)) = length xs * sz"
  by (induction xs) (simp_all add: enc_width)

lemma chunks_encoded: "chunks sz (length xs) (concat (map enc xs) @ bs) = map enc xs"
  by (induction xs) (simp_all add: enc_width)

lemma decode_encoded: "map dec (chunks sz (length xs) (concat (map enc xs) @ bs)) = xs"
  by (simp add: chunks_encoded dec_enc comp_def)

lemma chunks_prefix: "k * sz \<le> length d \<Longrightarrow> chunks sz k (d @ bs) = chunks sz k d"
proof (induction k arbitrary: d)
  case (Suc k)
  then have "sz \<le> length d" "k * sz \<le> length (drop sz d)" by simp_all
  with Suc.IH [of "drop sz d"] show ?case by simp
qed simp

text \<open>The elements that are complete in the first \<open>c\<close> bytes of a stream of elements.\<close>

lemma decode_prefix:
  assumes "c \<le> length xs * sz"
  shows "map dec (chunks sz (c div sz) (take c (concat (map enc xs)) @ bs)) = take (c div sz) xs"
proof -
  let ?k = "c div sz" and ?b = "concat (map enc xs)"
  have k: "?k * sz \<le> c" by (simp add: mult.commute)
  have "?k * sz \<le> length xs * sz" using k assms by linarith
  then have len: "?k \<le> length xs" using width_pos by simp
  have split: "?b = concat (map enc (take ?k xs)) @ concat (map enc (drop ?k xs))"
    by (simp flip: concat_append map_append)
  have pre: "take (?k * sz) ?b = concat (map enc (take ?k xs))"
    using length_encoded [of "take ?k xs"] len by (subst split) simp
  have c: "take c ?b = take (?k * sz) ?b @ drop (?k * sz) (take c ?b)"
    using k by (metis append_take_drop_id min.absorb1 take_take)
  have "chunks sz ?k (take c ?b @ bs) = map enc (take ?k xs)"
    using chunks_encoded [of "take ?k xs" "drop (?k * sz) (take c ?b) @ bs"] len
    by (subst c) (simp add: pre)
  then show ?thesis by (simp add: dec_enc comp_def)
qed

end

definition enc_char :: "char \<Rightarrow> byte list" where
  "enc_char c = [of_char c]"

definition dec_char :: "byte list \<Rightarrow> char" where
  "dec_char bs = char_of (unat (hd bs))"

lemma dec_enc_char: "dec_char (enc_char c) = c"
proof -
  have "unat (of_char c :: byte) = of_char c"
    by (subst of_nat_of_char [symmetric]) (simp add: unat_of_nat)
  then show ?thesis by (simp add: dec_char_def enc_char_def)
qed

interpretation char_codec: fixed_width 1 enc_char dec_char
  by unfold_locales (simp_all add: dec_enc_char, simp add: enc_char_def)

definition enc_u16 :: "u16 \<Rightarrow> byte list" where
  "enc_u16 x = [ucast x, ucast (drop_bit 8 x)]"

definition dec_u16 :: "byte list \<Rightarrow> u16" where
  "dec_u16 bs = ucast (bs ! 0) OR push_bit 8 (ucast (bs ! 1))"

lemma dec_enc_u16: "dec_u16 (enc_u16 x) = x"
  by (rule bit_word_eqI) (auto simp: dec_u16_def enc_u16_def bit_simps)

interpretation u16_codec: fixed_width 2 enc_u16 dec_u16
  by unfold_locales (simp_all add: dec_enc_u16, simp add: enc_u16_def)

section \<open>Both ends\<close>

text \<open>A socket that takes every write whole gets all of the data.\<close>

context write_syscall
begin

lemma BaseClient_write_full:
  assumes "\<And>w. written (data_socket s) data w = int (length data)" and "data_socket s \<noteq> -1"
    and "BaseClient_write K data s = (r, e, s')"
  shows "sent (kern s') (data_socket s) = sent (kern s) (data_socket s) @ data \<and> data_socket s' = data_socket s"
  using assms
  by (auto simp: BaseClient_write_def client_write_loop.simps [of K _ data] syscall_eq sent_write Let_def split: if_splits)

end

context read_syscall
begin

lemma read_one_buffer_t_stream:
  assumes "fixed_width sz enc dec" and "read_one_buffer_t sz dec K fd n t = (ys, c, t')" and "0 \<le> c"
    and "pending (kern t) fd = concat (map enc xs)"
  shows "ys = take (nat c div sz) xs \<and> pending (kern t') fd = drop (nat c) (concat (map enc xs)) \<and> nat c \<le> n * sz"
proof -
  let ?b = "concat (map enc xs)"
  obtain c' e d w where rd: "sys_read K fd (n * sz) (kern t) = ((c', e, d), w)" by (metis surj_pair)
  with assms(2) have c: "c' = c" "kern t' = w"
    and ys: "0 \<le> c \<Longrightarrow> ys = map dec (chunks sz (nat c div sz) (filled (n * sz) d (n * sz)))"
    by (auto simp: read_one_buffer_t_def syscall_out_def)
  from read_range [OF rd] read_data [OF rd] read_pending [OF rd, of fd] assms(3,4) c
  have d: "length d = nat c" "?b = d @ pending w fd" "nat c \<le> n * sz"
    by (auto simp: nat_le_iff simp del: of_nat_mult)
  then have pre: "d = take (nat c) ?b" "pending w fd = drop (nat c) ?b" by auto
  have len: "nat c \<le> length xs * sz"
    using fixed_width.length_encoded [OF assms(1), of xs] d by simp
  have "filled (n * sz) d (n * sz) = d @ replicate (n * sz - length d) 0"
    using d(3) by (simp add: filled_def d(1))
  with ys [OF assms(3)] fixed_width.decode_prefix [OF assms(1) len] pre d(3) c show ?thesis by simp
qed

end

section \<open>Properties\<close>

text \<open>
  C16. A vector written by a client with \<^verbatim>\<open>write<T>\<close> is read back by the server with \<^verbatim>\<open>read_one_buffer_t<T>\<close>, for
  every element type of fixed width. The two ends may live in different kernels; the stream connects
  them. The elements returned are the complete ones among the bytes that \<^verbatim>\<open>read(2)\<close> delivered: all of them when
  it delivers everything, and the bytes of an element that is delivered in part are consumed with it.
\<close>

theorem write_vector_roundtrip:
  assumes "write_syscall K sent" and "read_syscall K' pending" and "fixed_width sz enc dec"
    and "\<And>d w. fst (fst (sys_write K (data_socket s) d w)) = int (length d)" and "data_socket s \<noteq> -1"
    and "BaseClient_write_vector enc K data s = (r, e, s')"
    and "sent (kern s') (data_socket s) = sent (kern s) (data_socket s) @ pending (kern t) fd"
    and "read_one_buffer_t sz dec K' fd n t = (ys, c, t')" and "0 \<le> c"
  shows "ys = take (nat c div sz) data
    \<and> pending (kern t') fd = drop (nat c) (concat (map enc data))
    \<and> (nat c = length data * sz \<longrightarrow> ys = data \<and> pending (kern t') fd = [])"
proof -
  from write_syscall.BaseClient_write_full [OF assms(1,4,5)] assms(6,7)
  have p: "pending (kern t) fd = concat (map enc data)" by (simp add: BaseClient_write_vector_def)
  note rd = read_syscall.read_one_buffer_t_stream [OF assms(2,3,8,9) p]
  moreover have "length data * sz div sz = length data"
    using fixed_width.width_pos [OF assms(3)] by simp
  ultimately show ?thesis
    using fixed_width.length_encoded [OF assms(3), of data] by auto
qed

definition demo_vector :: "u16 list" where
  "demo_vector = [513, 1027]"

definition wire_client :: "int \<times> errno \<times> sim unix_client" where
  "wire_client = BaseClient_write_vector enc_u16 echo_kernel demo_vector demo_client"

definition wire_server :: "sim server" where
  "wire_server = demo_server\<lparr>kern := sim0\<lparr>inp := (\<lambda>_. out (kern (snd (snd wire_client))) 5)\<rparr>\<rparr>"

lemma wire_bytes: "out (kern (snd (snd wire_client))) 5 = [1, 2, 3, 4]"
  by (simp add: wire_client_def BaseClient_write_vector_def BaseClient_write_def client_write_loop.simps
      echo_kernel_def syscall_eq demo_vector_def enc_u16_def sim0_def Let_def drop_bit_eq_div unsigned_ucast_eq)

theorem write_vector_roundtrip_witness:
  "fst (read_one_buffer_t 2 dec_u16 echo_kernel 5 8 wire_server) = [513, 1027]"
proof -
  let ?r = "read_one_buffer_t 2 dec_u16 echo_kernel 5 8 wire_server"
  have full: "fst (fst (sys_write echo_kernel (data_socket demo_client) d w)) = int (length d)" for d w
    by (simp add: echo_kernel_def)
  have w: "BaseClient_write_vector enc_u16 echo_kernel demo_vector demo_client =
      (fst wire_client, fst (snd wire_client), snd (snd wire_client))" by (simp add: wire_client_def)
  have c: "fst (snd ?r) = 4"
    by (simp add: read_one_buffer_t_def echo_kernel_def syscall_out_eq wire_server_def wire_bytes set_IO_def Let_def)
  have r: "?r = (fst ?r, fst (snd ?r), snd (snd ?r))" by simp
  have str: "out (kern (snd (snd wire_client))) (data_socket demo_client) =
      out (kern demo_client) (data_socket demo_client) @ inp (kern wire_server) 5"
    by (simp add: wire_server_def sim0_def)
  have ds: "data_socket demo_client \<noteq> -1" by simp
  have nn: "0 \<le> fst (snd ?r)" using c by simp
  from write_vector_roundtrip [OF echo.write_syscall_axioms echo.read_syscall_axioms u16_codec.fixed_width_axioms
      full ds w str r nn] c show ?thesis by (simp add: demo_vector_def)
qed

end
