(* ===== verification/Server_Type.thy ===== *)
theory Server_Type
  imports Listen ServerSockets
begin

text \<open>
  The representation invariant of a server object. The methods of \<^verbatim>\<open>IGenericServer\<close>, called in any order by
  any thread and interleaved with the steps of the thread that runs \<^verbatim>\<open>listen\<close>, are the step relation \<open>server_step\<close>;
  the constructors of the three classes give its initial states. The clean-up of \<^verbatim>\<open>listen\<close> is four steps, between which
  other threads act.
\<close>

section \<open>Well-formed servers\<close>

text \<open>
  A connection is a descriptor, the backlog is positive, the two descriptors of the server are open or
  \<open>-1\<close>, and marks of smart close exist only with smart close.
\<close>

definition fields_wf :: "('w, 'z) server_scheme \<Rightarrow> bool" where
  "fields_wf s \<longleftrightarrow> finite (incoming_conn_fd s) \<and> incoming_conn_fd s \<subseteq> {0..} \<and> 0 < backlog s
     \<and> -1 \<le> fd_no (listen_sock s) \<and> -1 \<le> fd_no (epollfd s)
     \<and> (\<not> use_smart_close s \<longrightarrow> is_socket_IO s = Map.empty)"

text \<open>
  Where the thread that runs \<^verbatim>\<open>listen\<close> is: there is none, it has set up and serves events, or it has done so many parts
  of the clean-up. A server that serves has a listening socket and an epoll instance. During the clean-up a server
  whose flag \<^verbatim>\<open>is_listening\<close> is still set has those that it has not closed yet. Otherwise the flag is not set.
\<close>

datatype listening_thread = Idle | Serving | Closing nat

definition server_wf :: "listening_thread \<times> ('w, 'z) server_scheme \<Rightarrow> bool" where
  "server_wf = (\<lambda>(th, s). fields_wf s \<and> (case th of
      Idle \<Rightarrow> \<not> is_listening s
    | Serving \<Rightarrow> fd_no (listen_sock s) \<noteq> -1 \<and> fd_no (epollfd s) \<noteq> -1
    | Closing k \<Rightarrow> is_listening s \<longrightarrow> (k < 2 \<longrightarrow> fd_no (epollfd s) \<noteq> -1) \<and> (k < 3 \<longrightarrow> fd_no (listen_sock s) \<noteq> -1)))"

text \<open>Calls that make a descriptor return it or \<open>-1\<close>.\<close>

locale fd_results =
  fixes K :: "'w kernel"
  assumes accept_result: "-1 \<le> fst (fst (sys_accept4 K f w))"
    and epoll_create_result: "-1 \<le> fst (fst (sys_epoll_create1 K w))"
    and socket_result: "-1 \<le> fst (fst (sys_socket K pf nb w))"

text \<open>The initial states, and everything that can happen to a server.\<close>

definition server_made :: "'w kernel \<Rightarrow> 'w server \<Rightarrow> bool" where
  "server_made K s \<longleftrightarrow> (\<exists>n smart u. IGenericServer_new K n smart u = Inr s)
     \<or> (\<exists>port address n u. TcpServer_new K port address n u = Inr s)
     \<or> (\<exists>sockname n u. UnixSocketServer_new K sockname n u = Inr s)"

text \<open>Methods that any thread may call at any time.\<close>

inductive method_step :: "'w kernel \<Rightarrow> ('w, 'z) server_scheme \<Rightarrow> ('w, 'z) server_scheme \<Rightarrow> bool" for K where
  st_read: "IGenericServer_read K fd n s = Some (bs, t) \<Longrightarrow> method_step K s t"
| st_read_one: "method_step K s (snd (read_one_buffer K fd n s))"
| st_read_t: "method_step K s (snd (snd (read_one_buffer_t sz (\<lambda>bs. bs) K fd n s)))"
| st_write: "method_step K s (snd (snd (IGenericServer_write K fd data s)))"
| st_close: "method_step K s (IGenericServer_close K fd s)"
| st_remove: "method_step K s (snd (remove_from_epoll K fd has_errno s))"
| st_non_blocking: "method_step K s (snd (set_fd_non_blocking K fd nb s))"
| st_get_buffers: "method_step K s (snd (snd (snd (get_buffers_size K fd x y s))))"
| st_set_buffer: "method_step K s (snd (set_send_buffer_size K fd n s))"
| st_terminate: "method_step K s (snd (terminate_begin K s))"
| st_terminated: "method_step K s (terminate_end s)"
| st_world: "method_step K s (s\<lparr>kern := w, errno := e\<rparr>)"

text \<open>
  The thread of \<^verbatim>\<open>listen\<close>: set-up, events, and the clean-up part by part, after a return, an exception of the loop or a
  failure of the set-up. One thread at a time runs \<^verbatim>\<open>listen\<close>.
\<close>

inductive server_step ::
  "'w kernel \<Rightarrow> listening_thread \<times> ('w, 'z) server_scheme \<Rightarrow> listening_thread \<times> ('w, 'z) server_scheme \<Rightarrow> bool" for K where
  st_method: "method_step K s t \<Longrightarrow> server_step K (th, s) (th, t)"
| st_listen: "fd_no (listen_sock s) \<noteq> -1 \<Longrightarrow> listen_setup K s = (None, t) \<Longrightarrow> server_step K (Idle, s) (Serving, t)"
| st_listen_fails: "fd_no (listen_sock s) \<noteq> -1 \<Longrightarrow> listen_setup K s = (Some e, t) \<Longrightarrow>
    server_step K (Idle, s) (Closing 0, t)"
| st_event: "server_step K (Serving, s) (Serving, snd (handle_event K (\<lambda>le t. (None, t)) ev s))"
| st_leave: "server_step K (Serving, s) (Closing 0, s)"
| st_connections: "server_step K (Closing 0, s) (Closing 1, closeSockets_connections K s)"
| st_epollfd: "server_step K (Closing 1, s) (Closing 2, closeSockets_epollfd K s)"
| st_listen_sock: "server_step K (Closing 2, s) (Closing 3, closeSockets_listen_sock K s)"
| st_flag: "server_step K (Closing 3, s) (Idle, closeSockets_flag s)"

text \<open>
  In a step \<open>st_event\<close> the callback does nothing. That is no restriction, since the dispatcher calls the
  callback last: what a callback does are further steps.
\<close>

lemma handle_event_callback_last:
  "handle_event K callback ev s = (None, snd (handle_event K (\<lambda>le t. (None, t)) ev s))
   \<or> fst (handle_event K (\<lambda>le t. (None, t)) ev s) \<noteq> None
      \<and> handle_event K callback ev s = handle_event K (\<lambda>le t. (None, t)) ev s
   \<or> (\<exists>le. handle_event K callback ev s = callback le (snd (handle_event K (\<lambda>le t. (None, t)) ev s)))"
proof (cases "ev_fd ev = fd_no (listen_sock s)")
  case True
  then show ?thesis
    by (simp add: handle_event_def accept_event_def Let_def syscall_eq) blast
next
  case False
  then show ?thesis
    by (cases "smart_closes ev s")
      (auto simp: handle_event_def socket_event_smart_close socket_event_job split: option.split)
qed

section \<open>Preservation\<close>

lemmas wf_defs = server_wf_def fields_wf_def

text \<open>A method leaves the descriptors of the server alone, and never sets the flag.\<close>

definition method_frame :: "('w, 'z) server_scheme \<Rightarrow> ('w, 'z) server_scheme \<Rightarrow> bool" where
  "method_frame s t \<longleftrightarrow> (fields_wf s \<longrightarrow> fields_wf t) \<and> listen_sock t = listen_sock s \<and> epollfd t = epollfd s
     \<and> (is_listening t \<longrightarrow> is_listening s)"

lemma server_wf_method: "method_frame s t \<Longrightarrow> server_wf (th, s) \<Longrightarrow> server_wf (th, t)"
  by (auto simp: method_frame_def server_wf_def split: listening_thread.splits)

lemma method_frame_io: "io_frame s t \<Longrightarrow> method_frame s t"
  by (simp add: io_frame_def method_frame_def fields_wf_def)

lemma io_frame_options:
  "io_frame s (snd (read_one_buffer K fd n s))" "io_frame s (snd (snd (read_one_buffer_t sz dec K fd n s)))"
  "io_frame s (snd (remove_from_epoll K fd has_errno s))" "io_frame s (snd (set_fd_non_blocking K fd nb s))"
  "io_frame s (snd (snd (snd (get_buffers_size K fd x y s))))" "io_frame s (snd (set_send_buffer_size K fd k s))"
  by (simp_all add: read_one_buffer_def read_one_buffer_t_def remove_from_epoll_def set_fd_non_blocking_def
      get_buffers_size_def set_send_buffer_size_def syscall_eqs io_frame_def Let_def set_IO_def split: prod.split)

lemma method_frame_close: "method_frame s (IGenericServer_close K fd s)"
  by (auto simp: method_frame_def fields_wf_def IGenericServer_close_def syscall_eq)

lemma method_frame_terminate: "method_frame s (snd (terminate_begin K s))" "method_frame s (terminate_end s)"
  by (simp_all add: method_frame_def fields_wf_def terminate_begin_def terminate_end_def UnixPipe_write_def syscall_eq)

lemma method_step_frame: "method_step K s t \<Longrightarrow> method_frame s t"
proof (induction rule: method_step.induct)
  case (st_read fd n s bs t)
  then show ?case by (metis IGenericServer_read_frame method_frame_io)
next
  case (st_world s w e)
  then show ?case by (simp add: method_frame_def fields_wf_def)
qed (simp_all only: method_frame_io io_frame_options IGenericServer_write_frame method_frame_close method_frame_terminate)

lemma FileDescriptor_close_range: "-1 \<le> fd_no d \<Longrightarrow> -1 \<le> fd_no (fst (snd (FileDescriptor_close K d s)))"
  by (simp add: FileDescriptor_close_def case_prod_beta Let_def)

lemma FileDescriptor_close_marks [simp]: "is_socket_IO (snd (snd (FileDescriptor_close K d s))) = is_socket_IO s"
  by (simp add: FileDescriptor_close_def syscall_eq)

text \<open>The four parts of the clean-up.\<close>

lemma server_wf_clean_up:
  "server_wf (Closing 0, s) \<Longrightarrow> server_wf (Closing 1, closeSockets_connections K s)"
  "server_wf (Closing 1, s) \<Longrightarrow> server_wf (Closing 2, closeSockets_epollfd K s)"
  "server_wf (Closing 2, s) \<Longrightarrow> server_wf (Closing 3, closeSockets_listen_sock K s)"
  "server_wf (Closing 3, s) \<Longrightarrow> server_wf (Idle, closeSockets_flag s)"
proof -
  show "server_wf (Closing 0, s) \<Longrightarrow> server_wf (Closing 1, closeSockets_connections K s)"
    using close_all_fields [of s K "sorted_list_of_set (incoming_conn_fd s)"]
    by (simp add: wf_defs closeSockets_connections_def io_frame_def)
  show "server_wf (Closing 1, s) \<Longrightarrow> server_wf (Closing 2, closeSockets_epollfd K s)"
    by (auto simp: wf_defs closeSockets_epollfd_def case_prod_beta Let_def FileDescriptor_close_range)
  show "server_wf (Closing 2, s) \<Longrightarrow> server_wf (Closing 3, closeSockets_listen_sock K s)"
    by (auto simp: wf_defs closeSockets_listen_sock_def case_prod_beta Let_def FileDescriptor_close_range)
  show "server_wf (Closing 3, s) \<Longrightarrow> server_wf (Idle, closeSockets_flag s)"
    by (auto simp: wf_defs closeSockets_flag_def)
qed

context fd_results
begin

lemma server_wf_listen:
  assumes "server_wf (Idle, s)" and "fd_no (listen_sock s) \<noteq> -1" and "listen_setup K s = (r, t)"
  shows "if r = None then server_wf (Serving, t) else server_wf (Closing 0, t)"
  using assms epoll_create_result
  by (auto simp: wf_defs listen_setup_def Let_def syscall_eq split: if_splits)

lemma server_wf_event:
  assumes "server_wf (Serving, s)"
  shows "server_wf (Serving, snd (handle_event K (\<lambda>le t. (None, t)) ev s))"
proof (cases "ev_fd ev = fd_no (listen_sock s)")
  case True
  have "fst (fst (sys_accept4 K (fd_no (listen_sock s)) (kern s))) \<noteq> -1 \<Longrightarrow>
      0 \<le> fst (fst (sys_accept4 K (fd_no (listen_sock s)) (kern s)))"
    using accept_result [of "fd_no (listen_sock s)" "kern s"] by linarith
  with True assms show ?thesis
    by (simp add: handle_event_def accept_event_def Let_def syscall_eq wf_defs unset_IO_def)
next
  case False
  show ?thesis
  proof (cases "smart_closes ev s")
    case True
    with assms have "server_wf (Serving, s\<lparr>is_socket_IO := (is_socket_IO s)(ev_fd ev \<mapsto> False)\<rparr>)"
      by (simp add: wf_defs smart_closes_def)
    with True False show ?thesis
      by (simp add: handle_event_def socket_event_smart_close server_wf_method [OF method_frame_close])
  qed (use False assms in \<open>simp add: handle_event_def socket_event_job split: option.split\<close>)
qed

lemma server_wf_step: "server_step K x y \<Longrightarrow> server_wf x \<Longrightarrow> server_wf y"
proof (induction rule: server_step.induct)
  case (st_method s t th)
  then show ?case using server_wf_method [OF method_step_frame] by blast
next
  case (st_listen s t)
  then show ?case using server_wf_listen [of s None t] by simp
next
  case (st_listen_fails s e t)
  then show ?case using server_wf_listen [of s "Some e" t] by simp
next
  case (st_leave s)
  then show ?case by (simp add: server_wf_def)
qed (simp_all only: server_wf_event server_wf_clean_up)

text \<open>Opening the listening socket.\<close>

definition idle_wf :: "('w, 'z) server_scheme \<Rightarrow> bool" where
  "idle_wf s \<longleftrightarrow> fields_wf s \<and> \<not> is_listening s"

lemma idle_wf_syscall: "idle_wf (snd (syscall f s)) = idle_wf s"
  by (simp add: idle_wf_def fields_wf_def syscall_eq)

lemma idle_wf_close: "idle_wf s \<Longrightarrow> idle_wf (IGenericServer_close K fd s)"
  by (auto simp: idle_wf_def fields_wf_def IGenericServer_close_def syscall_eq)

lemma bind_first_wf:
  "bind_first K rps s = (fd, t) \<Longrightarrow> idle_wf s \<Longrightarrow> idle_wf t \<and> -1 \<le> fd"
proof (induction rps arbitrary: s)
  case (Cons rp rps)
  let ?c = "fst (syscall (sys_socket K ''ai_family'' True) s)"
  let ?s1 = "snd (syscall (sys_socket K ''ai_family'' True) s)"
  let ?s2 = "snd (syscall (sys_bind K ?c (Sockaddr_info rp)) ?s1)"
  have c: "-1 \<le> ?c" using socket_result by (simp add: syscall_eq)
  have s: "idle_wf ?s1" "idle_wf ?s2" using Cons.prems(2) by (simp_all add: idle_wf_syscall)
  then have "idle_wf (IGenericServer_close K ?c ?s2)" by (simp only: idle_wf_close)
  with s Cons.prems(1) Cons.IH [of ?s1] Cons.IH [of "IGenericServer_close K ?c ?s2"] c show ?case
    by (auto simp: case_prod_beta Let_def split: if_splits)
qed simp

lemma open_listening_socket_wf:
  assumes "open_listening_socket K address port s = (fd, t)" and "idle_wf s"
  shows "idle_wf t \<and> -1 \<le> fd"
proof -
  let ?s1 = "snd (snd (syscall_out (sys_getaddrinfo K (c_str address) (decimal port)) s))"
  have "idle_wf ?s1" using assms(2) by (simp add: idle_wf_def fields_wf_def syscall_out_eq)
  with assms bind_first_wf [of _ ?s1 fd t] show ?thesis
    by (auto simp: open_listening_socket_def case_prod_beta Let_def split: if_splits)
qed

lemma setup_loop_wf: "setup_loop K address port n s = (r, t) \<Longrightarrow> idle_wf s \<Longrightarrow> idle_wf t"
proof (induction n arbitrary: s)
  case (Suc n)
  obtain fd s1 where o: "open_listening_socket K address port s = (fd, s1)"
    by (cases "open_listening_socket K address port s")
  let ?s2 = "s1\<lparr>listen_sock := (listen_sock s1)\<lparr>fd_no := fd\<rparr>\<rparr>"
  have "idle_wf ?s2" using open_listening_socket_wf [OF o Suc.prems(2)] by (simp add: idle_wf_def fields_wf_def)
  with Suc.prems(1) o Suc.IH [of ?s2] show ?case by (auto simp: Let_def split: if_splits)
qed (auto split: if_splits)

lemma IGenericServer_new_wf: "IGenericServer_new K n smart u = Inr s \<Longrightarrow> idle_wf s"
  by (auto simp: IGenericServer_new_def idle_wf_def fields_wf_def FileDescriptor_new_def split: prod.splits if_splits)

lemma UnixSocketServer_setup_wf: "UnixSocketServer_setup K name s = (r, t) \<Longrightarrow> idle_wf s \<Longrightarrow> idle_wf t"
  using socket_result
  by (auto simp: UnixSocketServer_setup_def open_unix_socket_def idle_wf_def fields_wf_def syscall_eq Let_def
      split: if_splits)

lemma TcpServer_new_wf: "TcpServer_new K port address n u = Inr s \<Longrightarrow> idle_wf s"
  by (auto simp: TcpServer_new_def TcpServer_setup_def split: sum.splits if_splits option.splits prod.splits
      dest: IGenericServer_new_wf setup_loop_wf)

lemma UnixSocketServer_new_wf: "UnixSocketServer_new K sockname n u = Inr s \<Longrightarrow> idle_wf s"
  by (auto simp: UnixSocketServer_new_def split: sum.splits option.splits prod.splits
      dest: IGenericServer_new_wf UnixSocketServer_setup_wf)

lemma server_made_wf: "server_made K s \<Longrightarrow> server_wf (Idle, s)"
  using IGenericServer_new_wf TcpServer_new_wf UnixSocketServer_new_wf
  unfolding server_made_def server_wf_def by (auto simp: idle_wf_def)

end

abbreviation server_init :: "'w kernel \<Rightarrow> listening_thread \<times> 'w server \<Rightarrow> bool" where
  "server_init K x \<equiv> fst x = Idle \<and> server_made K (snd x)"

sublocale fd_results \<subseteq> wf: inductive_invariant "server_init K" "server_step K" server_wf
proof
  fix x :: "listening_thread \<times> 'w server"
  assume "server_init K x"
  then show "server_wf x" using server_made_wf [of "snd x"] by (cases x) simp
qed (simp add: server_wf_step)

context fd_results
begin

lemmas reachable_wf = wf.reachable_inv

end

interpretation sim_results: fd_results sim_kernel
  by unfold_locales (auto simp: sim_calls sim_alloc_def sim_socket_def split: nat.split)

section \<open>Properties\<close>

text \<open>
  C15. The representation invariant of a server: in every state that the methods of the class, the thread of
  \<^verbatim>\<open>listen\<close> and the other threads can bring about, from any of the constructors, the connections are a finite
  set of descriptors, the backlog is positive, the descriptors of the server are \<open>-1\<close> or valid, and the marks of
  smart close are empty when it is off. A server that serves events has its listening socket and its epoll
  instance; when no thread runs \<^verbatim>\<open>listen\<close>, the flag \<^verbatim>\<open>is_listening\<close> is not set; and the only states in which the flag is set
  and one of the two descriptors is gone are those of the clean-up, after it has closed that descriptor.
\<close>

theorem server_always_wf:
  assumes "fd_results K" and "reachable (server_init K) (server_step K) (th, s)"
  shows "server_wf (th, s)"
  using fd_results.reachable_wf [OF assms] .

definition sim_start :: "sim os" where
  "sim_start = \<lparr>kern = sim0, errno = 0\<rparr>"

text \<open>A server that listens and has closed its epoll instance.\<close>

theorem server_always_wf_witness:
  "\<exists>s t. UnixSocketServer_new sim_kernel ''/tmp/s'' 10 sim_start = Inr s \<and> listen_setup sim_kernel s = (None, t)
     \<and> server_wf (Closing 2, closeSockets_epollfd sim_kernel (closeSockets_connections sim_kernel t))"
proof -
  let ?r = "reachable (server_init sim_kernel) (server_step sim_kernel)"
  obtain s where s: "UnixSocketServer_new sim_kernel ''/tmp/s'' 10 sim_start = Inr s"
    and l: "fst (listen_setup sim_kernel s) = None" "fd_no (listen_sock s) \<noteq> -1"
    by (simp add: UnixSocketServer_new_def IGenericServer_new_def UnixPipe_new_def checkParameters_def sim_start_def
        UnixSocketServer_setup_def open_unix_socket_def syscall_eqs sim_defs listen_setup_def Let_def FileDescriptor_new_def)
  obtain t where t: "listen_setup sim_kernel s = (None, t)" using l(1) by (cases "listen_setup sim_kernel s") simp
  from s have "?r (Idle, s)" by (intro reach_init) (auto simp: server_made_def)
  from reach_step [OF this st_listen [OF l(2) t]] have "?r (Serving, t)" .
  from reach_step [OF this st_leave] have "?r (Closing 0, t)" .
  from reach_step [OF this st_connections] have "?r (Closing 1, closeSockets_connections sim_kernel t)" .
  from reach_step [OF this st_epollfd]
  have r: "?r (Closing 2, closeSockets_epollfd sim_kernel (closeSockets_connections sim_kernel t))" .
  from s t server_always_wf [OF sim_results.fd_results_axioms r] show ?thesis by blast
qed

end
