(* ===== verification/Main_Program.thy ===== *)
theory Main_Program
  imports EchoServer Clients
begin

text \<open>
  Model of the function \<^verbatim>\<open>main\<close> of \<^verbatim>\<open>main/main.cpp\<close>, which runs the echo server in a thread and talks to it
  with a client in the same process: server, dispatcher, callback and client composed over one
  kernel. The contract of connected sockets is the locale \<open>loopback\<close>, interpreted on a kernel with
  connections inside the process.
\<close>

section \<open>Definitions\<close>

text \<open>
  The two objects of an iteration share the kernel, which is kept in the server; \<open>client_op\<close> lends it to
  a method of the client.
\<close>

record ('w, 'c) main_state =
  ms_server :: "'w threaded_server"
  ms_client :: "('w, 'c) client_scheme"

type_synonym 'w tcp_main = "('w, unit tcp_client_ext) main_state"
type_synonym 'w unix_main = "('w, unit unix_client_ext) main_state"

definition client_op ::
  "(('w, 'c) client_scheme \<Rightarrow> 'a \<times> ('w, 'c) client_scheme) \<Rightarrow> ('w, 'c) main_state \<Rightarrow> 'a \<times> ('w, 'c) main_state" where
  "client_op f m = (let (r, c) = f ((ms_client m)\<lparr>kern := kern (ms_server m)\<rparr>)
     in (r, \<lparr>ms_server = (ms_server m)\<lparr>kern := kern c\<rparr>, ms_client = c\<rparr>))"

text \<open>Sequencing of calls that may end abruptly.\<close>

definition and_then :: "abrupt + 'a \<Rightarrow> ('a \<Rightarrow> abrupt + 'b) \<Rightarrow> abrupt + 'b" where
  "and_then r f = (case r of Inl a \<Rightarrow> Inl a | Inr x \<Rightarrow> f x)"

text \<open>
  A call on a descriptor in blocking mode does not return while a call in non-blocking mode would fail
  with \<^verbatim>\<open>EAGAIN\<close>.
\<close>

definition would_block :: "'w kernel \<Rightarrow> fd \<Rightarrow> nat \<Rightarrow> 'w \<Rightarrow> bool" where
  "would_block K f n w = (case sys_read K f n w of ((c, e, d), w') \<Rightarrow> c = -1 \<and> e = EAGAIN)"

definition test_message :: "byte list" where
  "test_message = map of_char ''test message''"

definition main_start :: "'w kernel \<Rightarrow> 'w os \<Rightarrow> abrupt + 'w threaded_server" where
  "main_start K s =
     (case TcpServer_new K 10001 ''0.0.0.0'' 10 s of
        Inl (x, s1) \<Rightarrow> Inl (Throw x)
      | Inr ts \<Rightarrow>
          (case ThreadedServer_start_begin (ThreadedServer_new ts) of
             (Some a, t) \<Rightarrow> Inl a | (None, t) \<Rightarrow> Inr t))"

definition main_connect :: "'w kernel \<Rightarrow> bool \<Rightarrow> 'w threaded_server \<Rightarrow> abrupt + 'w tcp_main" where
  "main_connect K tcp_known t =
     (case ThreadedServer_start_end t of
        (Some a, t1) \<Rightarrow> Inl a
      | (None, t1) \<Rightarrow>
          (case client_op (TcpClient_connect K tcp_known ''0.0.0.0'' 10001)
               \<lparr>ms_server = t1, ms_client = TcpClient_new False \<lparr>kern = kern t1, errno = 0\<rparr>\<rparr> of
             (Some a, m) \<Rightarrow> Inl a | (None, m) \<Rightarrow> Inr m))"

definition main_write :: "'w kernel \<Rightarrow> ('w, 'c) main_state \<Rightarrow> abrupt + ('w, 'c) main_state" where
  "main_write K m = Inr (snd (client_op
     (\<lambda>c. let (r, e, c1) = BaseClient_write_vector (\<lambda>b. [b]) K test_message c in (r, c1)) m))"

text \<open>The answer must have twelve bytes; then the client closes its socket.\<close>

definition main_read :: "'w kernel \<Rightarrow> ('w, 'c) main_state \<Rightarrow> abrupt + ('w, 'c) main_state" where
  "main_read K m =
     (if would_block K (data_socket (ms_client m)) 1024 (kern (ms_server m)) then Inl Blocked
      else case client_op (BaseClient_read K 1024) m of
             (Inl x, m1) \<Rightarrow> Inl (Throw x)
           | (Inr response, m1) \<Rightarrow>
               if length response \<noteq> 12 then Inl (Abort ''assert'')
               else Inr (snd (client_op (\<lambda>c. ((), BaseClient_close K c)) m1)))"

text \<open>The loop that spins on the number of connections, and \<^verbatim>\<open>stop\<close> up to the wait in \<^verbatim>\<open>terminate\<close>.\<close>

definition main_stop :: "'w kernel \<Rightarrow> ('w, 'c) main_state \<Rightarrow> abrupt + bool \<times> ('w, 'c) main_state" where
  "main_stop K m =
     (if get_active_connections (ms_server m) > 0 then Inl Blocked
      else let (waited, t) = ThreadedServer_stop_begin K (ms_server m) in Inr (waited, m\<lparr>ms_server := t\<rparr>))"

text \<open>The rest of \<^verbatim>\<open>stop\<close>, and the destructors at the end of the body of the loop.\<close>

definition main_join :: "'w kernel \<Rightarrow> bool \<times> ('w, 'c) main_state \<Rightarrow> abrupt + 'w os" where
  "main_join K x = (case x of (waited, m) \<Rightarrow>
     (case ThreadedServer_stop_end waited (ms_server m) of
        (Some a, t) \<Rightarrow> Inl a
      | (None, t) \<Rightarrow>
          (let m1 = snd (client_op (\<lambda>c. ((), BaseClient_delete K c)) (m\<lparr>ms_server := t\<rparr>))
           in Inr (os.truncate (IGenericServer_delete K (ms_server m1))))))"

text \<open>
  One iteration. \<open>sched i\<close> is what the listening thread does to the server between two statements of the main
  thread: while \<^verbatim>\<open>start\<close> waits for the server, before \<^verbatim>\<open>read\<close> returns, before the spinning ends and while
  \<^verbatim>\<open>terminate\<close> waits.
\<close>

definition on_server :: "('w threaded_server \<Rightarrow> 'w threaded_server) \<Rightarrow> ('w, 'c) main_state \<Rightarrow> ('w, 'c) main_state" where
  "on_server f m = m\<lparr>ms_server := f (ms_server m)\<rparr>"

definition main_iteration ::
  "'w kernel \<Rightarrow> bool \<Rightarrow> (nat \<Rightarrow> 'w threaded_server \<Rightarrow> 'w threaded_server) \<Rightarrow> 'w os \<Rightarrow> abrupt + 'w os" where
  "main_iteration K tcp_known sched s =
     and_then (main_start K s) (\<lambda>t.
     and_then (main_connect K tcp_known (sched 0 t)) (\<lambda>m1.
     and_then (main_write K m1) (\<lambda>m2.
     and_then (main_read K (on_server (sched 1) m2)) (\<lambda>m3.
     and_then (main_stop K (on_server (sched 2) m3)) (\<lambda>(waited, m4).
     main_join K (waited, on_server (sched 3) m4))))))"

fun main_loop ::
  "'w kernel \<Rightarrow> bool \<Rightarrow> (nat \<Rightarrow> nat \<Rightarrow> 'w threaded_server \<Rightarrow> 'w threaded_server) \<Rightarrow> nat \<Rightarrow> 'w os
    \<Rightarrow> abrupt + 'w os" where
  "main_loop K tcp_known sched 0 s = Inr s"
| "main_loop K tcp_known sched (Suc i) s =
     and_then (main_iteration K tcp_known (sched i) s) (main_loop K tcp_known sched i)"

definition main :: "'w kernel \<Rightarrow> bool \<Rightarrow> (nat \<Rightarrow> nat \<Rightarrow> 'w threaded_server \<Rightarrow> 'w threaded_server) \<Rightarrow> 'w os
    \<Rightarrow> abrupt + 'w os" where
  "main K tcp_known sched s = main_loop K tcp_known sched 10 s"

text \<open>
  The variant of an iteration that is compiled without \<^verbatim>\<open>USE_TCP\<close>: a server and a client on a Unix socket. It does not
  wait until the connection is closed before it stops the server.
\<close>

definition main_unix_start :: "'w kernel \<Rightarrow> 'w os \<Rightarrow> abrupt + 'w threaded_server" where
  "main_unix_start K s =
     (case UnixSocketServer_new K ''/tmp/mysocket.sock'' 10 s of
        Inl (x, s1) \<Rightarrow> Inl (Throw x)
      | Inr uss \<Rightarrow>
          (case ThreadedServer_start_begin (ThreadedServer_new uss) of
             (Some a, t) \<Rightarrow> Inl a | (None, t) \<Rightarrow> Inr t))"

definition main_unix_connect :: "'w kernel \<Rightarrow> 'w threaded_server \<Rightarrow> abrupt + 'w unix_main" where
  "main_unix_connect K t =
     (case ThreadedServer_start_end t of
        (Some a, t1) \<Rightarrow> Inl a
      | (None, t1) \<Rightarrow>
          (case client_op (UnixSocketClient_connect K ''/tmp/mysocket.sock'')
               \<lparr>ms_server = t1, ms_client = UnixSocketClient_new False \<lparr>kern = kern t1, errno = 0\<rparr>\<rparr> of
             (Some x, m) \<Rightarrow> Inl (Throw x) | (None, m) \<Rightarrow> Inr m))"

definition main_unix_write :: "'w kernel \<Rightarrow> 'w unix_main \<Rightarrow> abrupt + 'w unix_main" where
  "main_unix_write K m = Inr (snd (client_op
     (\<lambda>c. let (r, e, c1) = UnixSocketClient_write_vector (\<lambda>b. [b]) K test_message c in (r, c1)) m))"

definition main_unix_iteration ::
  "'w kernel \<Rightarrow> (nat \<Rightarrow> 'w threaded_server \<Rightarrow> 'w threaded_server) \<Rightarrow> 'w os \<Rightarrow> abrupt + 'w os" where
  "main_unix_iteration K sched s =
     and_then (main_unix_start K s) (\<lambda>t.
     and_then (main_unix_connect K (sched 0 t)) (\<lambda>m1.
     and_then (main_unix_write K m1) (\<lambda>m2.
     and_then (main_read K (on_server (sched 1) m2)) (\<lambda>m3.
       let (waited, t) = ThreadedServer_stop_begin K (ms_server m3)
       in main_join K (waited, on_server (sched 2) (m3\<lparr>ms_server := t\<rparr>))))))"

text \<open>The message is short, so the client writes it in the mode in which its socket is.\<close>

lemma main_unix_write_eq: "main_unix_write K m = main_write K m"
proof -
  have "length test_message \<le> 4096" by (simp add: test_message_def)
  then show ?thesis
    by (simp add: main_unix_write_def main_write_def UnixSocketClient_write_vector_def BaseClient_write_vector_def
        UnixSocketClient_write_def)
qed

section \<open>Connected sockets\<close>

text \<open>
  A connection has two ends in the same process. What is written at one end is to be read at the other;
  \<^verbatim>\<open>read(2)\<close> returns what is there, up to the size of the buffer; when there is nothing it fails with \<^verbatim>\<open>EAGAIN\<close>
  for as long as the other end is connected; accepting a connection and registering it move no data; closing a
  descriptor cuts its connection and no other.
\<close>

locale loopback = available_read K pending
  for K :: "'w kernel" and pending :: "'w \<Rightarrow> fd \<Rightarrow> byte list" +
  fixes peer :: "'w \<Rightarrow> fd \<Rightarrow> fd option"
  assumes write_delivers: "sys_write K f d w = ((c, e), w') \<Longrightarrow> peer w' = peer w
      \<and> pending w' g = (if peer w f = Some g then pending w g @ take (nat c) d else pending w g)"
    and read_peer: "sys_read K f n w = ((c, e, d), w') \<Longrightarrow> peer w' = peer w"
    and read_waits: "sys_read K f n w = ((c, e, d), w') \<Longrightarrow> pending w f = [] \<Longrightarrow> peer w f = Some g \<Longrightarrow> c = -1"
    and accept_quiet: "sys_accept4 K f w = ((c, e), w') \<Longrightarrow> peer w' = peer w \<and> pending w' = pending w"
    and epoll_ctl_quiet: "sys_epoll_ctl K ep op f ev w = ((c, e), w') \<Longrightarrow> peer w' = peer w \<and> pending w' = pending w"
    and close_cuts: "sys_close K f w = ((c, e), w') \<Longrightarrow> peer w' g = peer w g \<or> peer w' g = None"
    and close_quiet: "sys_close K f w = ((c, e), w') \<Longrightarrow> g \<noteq> f \<Longrightarrow> peer w g \<noteq> Some f \<Longrightarrow>
      peer w' g = peer w g \<and> pending w' g = pending w g"
begin

lemma quiet [simp]:
  "peer (snd (sys_accept4 K f w)) = peer w" "pending (snd (sys_accept4 K f w)) = pending w"
  "peer (snd (sys_epoll_ctl K ep op f ev w)) = peer w" "pending (snd (sys_epoll_ctl K ep op f ev w)) = pending w"
  using accept_quiet [of f w] epoll_ctl_quiet [of ep op f ev w]
  by (cases "sys_accept4 K f w", cases "sys_epoll_ctl K ep op f ev w", auto)+

lemma peer_read [simp]: "peer (snd (sys_read K f n w)) = peer w"
  using read_peer [of f n w] by (cases "sys_read K f n w") auto

text \<open>Reading until there is nothing left.\<close>

lemma read_loop_drains:
  assumes small: "Suc n < 2 ^ 31"
  shows "\<exists>good s'. read_loop K fd (Suc n) result s = Some (result @ good, s') \<and> pending (kern s) fd = concat good
     \<and> pending (kern s') = (pending (kern s))(fd := []) \<and> peer (kern s') = peer (kern s) \<and> io_frame s s'"
proof (induction "length (pending (kern s) fd)" arbitrary: result s rule: less_induct)
  case less
  let ?c = "got fd (Suc n) (kern s)" and ?d = "got_data fd (Suc n) (kern s)"
  obtain s1 where sys: "syscall_out (sys_read K fd (Suc n)) s = (?c, ?d, s1)"
    and k1: "kern s1 = snd (sys_read K fd (Suc n) (kern s))"
    and e1: "?c = -1 \<Longrightarrow> errno s1 = fst (snd (fst (sys_read K fd (Suc n) (kern s))))" by (simp add: nbuss_simps)
  have fr: "io_frame s s1" using io_frame_syscall_out [of s "sys_read K fd (Suc n)"] sys by simp
  note pend = pending_read [of "kern s" _ fd "Suc n", folded k1]
  show ?case
  proof (cases "pending (kern s) fd = []")
    case True
    with pend [of fd] have nd: "0 \<le> ?c \<Longrightarrow> ?d = []" by (auto split: if_splits)
    then have c: "?c = -1 \<or> ?c = 0" using length_got_data [of fd "Suc n" "kern s"] got_range [of fd "Suc n" "kern s"] by force
    have "?c = -1 \<Longrightarrow> errno s1 = EAGAIN"
      using e1 got_would_block [of fd "Suc n" "kern s"] by simp
    moreover have "pending (kern s1) = pending (kern s)" using pend nd by (auto simp: fun_eq_iff split: if_splits)
    moreover have "(pending (kern s))(fd := []) = pending (kern s)" using True by auto
    ultimately show ?thesis using c sys True fr k1
      by (intro exI [of _ "[]"] exI [of _ s1]) (auto simp: read_loop_small [OF small, of K fd result s])
  next
    case False
    then have c: "0 < ?c" by (simp add: got_available)
    have d: "length ?d = nat ?c" using c length_got_data [of fd "Suc n" "kern s"] by simp
    have p: "pending (kern s) fd = ?d @ pending (kern s1) fd" using c pend [of fd] by simp
    from c d p have "length (pending (kern s1) fd) < length (pending (kern s) fd)" by simp
    from less [OF this, of "result @ [?d]"] obtain good s' where
      ih: "read_loop K fd (Suc n) (result @ [?d]) s1 = Some ((result @ [?d]) @ good, s')"
      "pending (kern s1) fd = concat good" "pending (kern s') = (pending (kern s1))(fd := [])"
      "peer (kern s') = peer (kern s1)" "io_frame s1 s'" by blast
    have "read_loop K fd (Suc n) result s = Some (result @ (?d # good), s')"
      using ih(1) c sys d by (simp add: read_loop_small [OF small, of K fd result s] filled_full)
    moreover have "pending (kern s') = (pending (kern s))(fd := [])" using ih(3) pend by (auto simp: fun_eq_iff)
    ultimately show ?thesis
      using p ih(2,4) k1 io_frame_trans [OF fr ih(5)] by (intro exI [of _ "?d # good"] exI [of _ s']) simp
  qed
qed

end

section \<open>One turn of the listening thread\<close>

text \<open>
  The events that the listening thread can hear of while the connection of the client's end \<open>a\<close> with the server's end
  \<open>b\<close> lives: new connections; any events of other connections, hang-ups and errors included; and activity on \<open>b\<close> other
  than a hang-up or an error. The client's end is not watched by the server.
\<close>

inductive listener_step :: "'w kernel \<Rightarrow> fd \<Rightarrow> fd \<Rightarrow> ('w, 'z) server_scheme \<Rightarrow> ('w, 'z) server_scheme \<Rightarrow> bool" for K a b where
  "ev_fd ev \<noteq> a \<Longrightarrow> ev_fd ev = b \<longrightarrow> job_of (ev_events ev) \<noteq> Some CLOSE_SOCKET \<Longrightarrow>
   handle_event K (my_listener K) ev s = (None, t) \<Longrightarrow> listener_step K a b s t"

text \<open>Among the events, one reports \<open>b\<close> as readable and not writable.\<close>

inductive hears_readable :: "'w kernel \<Rightarrow> fd \<Rightarrow> fd \<Rightarrow> ('w, 'z) server_scheme \<Rightarrow> ('w, 'z) server_scheme \<Rightarrow> bool" for K a b where
  "(listener_step K a b)\<^sup>*\<^sup>* s u \<Longrightarrow> job_of evs = Some AVAILABLE_FOR_READ \<Longrightarrow>
   handle_event K (my_listener K) \<lparr>ev_fd = b, ev_events = evs\<rparr> u = (None, v) \<Longrightarrow>
   (listener_step K a b)\<^sup>*\<^sup>* v t \<Longrightarrow> hears_readable K a b s t"

text \<open>
  The two ends are connected with each other and with nothing else. The message is on its way to the server, or on
  its way back.
\<close>

definition connected :: "('w \<Rightarrow> fd \<Rightarrow> fd option) \<Rightarrow> fd \<Rightarrow> fd \<Rightarrow> 'w \<Rightarrow> bool" where
  "connected peer a b w \<longleftrightarrow> peer w a = Some b \<and> peer w b = Some a
     \<and> (\<forall>g. (peer w g = Some a \<longrightarrow> g = b) \<and> (peer w g = Some b \<longrightarrow> g = a))"

definition transit ::
  "('w \<Rightarrow> fd \<Rightarrow> byte list) \<Rightarrow> ('w \<Rightarrow> fd \<Rightarrow> fd option) \<Rightarrow> fd \<Rightarrow> fd \<Rightarrow> byte list \<Rightarrow> byte list \<Rightarrow> ('w, 'z) server_scheme \<Rightarrow> bool" where
  "transit pending peer a b there back s \<longleftrightarrow> connected peer a b (kern s) \<and> fd_no (listen_sock s) \<noteq> b
     \<and> pending (kern s) b = there \<and> pending (kern s) a = back"

context loopback
begin

definition delivered :: "fd \<Rightarrow> byte list \<Rightarrow> 'w \<Rightarrow> 'w \<Rightarrow> bool" where
  "delivered f d w w' \<longleftrightarrow> peer w' = peer w
     \<and> pending w' = (\<lambda>g. if peer w f = Some g then pending w g @ d else pending w g)"

lemma delivered_Nil: "delivered f [] w w"
  by (auto simp: delivered_def)

lemma delivered_trans: "delivered f d w w' \<Longrightarrow> delivered f d' w' w'' \<Longrightarrow> delivered f (d @ d') w w''"
  by (auto simp: delivered_def fun_eq_iff)

lemma write_whole:
  assumes "sys_write K f d w = ((int (length d), e), w')"
  shows "delivered f d w w'"
  using write_delivers [OF assms] by (auto simp: delivered_def fun_eq_iff)

lemma write_loop_whole:
  assumes "\<And>d w. fst (fst (sys_write K f d w)) = int (length d)"
  shows "delivered f d (kern s) (kern (snd (snd (write_loop K f d k s))))"
proof -
  obtain e w where w: "sys_write K f d (kern s) = ((int (length d), e), w)"
    using assms [of d "kern s"] by (metis prod.collapse)
  with write_whole [OF w] show ?thesis by (simp add: write_loop.simps [of K f d] syscall_def)
qed

lemma IGenericServer_write_whole:
  assumes "\<And>d w. fst (fst (sys_write K f d w)) = int (length d)" and "f \<noteq> -1"
  shows "delivered f d (kern s) (kern (snd (snd (IGenericServer_write K f d s))))"
  using write_loop_whole [OF assms(1), of d "set_IO f s" 0] assms(2)
  by (cases "write_loop K f d 0 (set_IO f s)") (simp add: IGenericServer_write_def)

lemma echo_items_whole:
  assumes "\<And>d w. fst (fst (sys_write K f d w)) = int (length d)" and "f \<noteq> -1"
  shows "delivered f (concat data) (kern s) (kern (echo_items K f data s))"
proof (induction data arbitrary: s)
  case (Cons item data)
  show ?case
    using delivered_trans [OF IGenericServer_write_whole [OF assms] Cons.IH] by simp
qed (simp add: delivered_Nil)

lemma my_listener_read:
  assumes "\<And>d w. fst (fst (sys_write K b d w)) = int (length d)" and "b \<noteq> -1"
    and "job le = AVAILABLE_FOR_READ" and "le_fd le = b" and "my_listener K le s = (r, t)"
    and "peer (kern s) b = Some a" and "a \<noteq> b"
  shows "r = None \<and> peer (kern t) = peer (kern s) \<and> listen_sock t = listen_sock s
    \<and> pending (kern t) = (pending (kern s))(b := [], a := pending (kern s) a @ pending (kern s) b)"
proof -
  from read_loop_drains [of 4095 b "[]" "set_IO b s"] obtain good s1 where
    rd: "IGenericServer_read K b 4096 s = Some (good, s1)" "pending (kern s) b = concat good"
    "pending (kern s1) = (pending (kern s))(b := [])" "peer (kern s1) = peer (kern s)" "io_frame (set_IO b s) s1"
    by (auto simp: IGenericServer_read_def)
  with assms(3-5) have t: "r = None" "t = echo_items K b good s1" by (simp_all add: my_listener_def)
  have "listen_sock t = listen_sock s"
    using io_frame_trans [OF io_frame_set_IO io_frame_trans [OF rd(5) echo_items_frame [of s1 K b good]]] t by (simp add: io_frame_def)
  with t rd echo_items_whole [OF assms(1,2), of good s1] assms(6,7) show ?thesis
    by (auto simp: delivered_def fun_eq_iff)
qed

text \<open>What happens on another connection \<open>f\<close> does not reach the two ends.\<close>

definition elsewhere :: "fd \<Rightarrow> 'w \<Rightarrow> 'w \<Rightarrow> bool" where
  "elsewhere f w w' \<longleftrightarrow> (\<forall>g. peer w' g = peer w g \<or> peer w' g = None)
     \<and> (\<forall>g. g \<noteq> f \<longrightarrow> peer w g \<noteq> Some f \<longrightarrow> peer w' g = peer w g \<and> (peer w f \<noteq> Some g \<longrightarrow> pending w' g = pending w g))"

lemma elsewhere_refl: "elsewhere f w w"
  by (simp add: elsewhere_def)

lemma elsewhere_trans: "elsewhere f w w' \<Longrightarrow> elsewhere f w' w'' \<Longrightarrow> elsewhere f w w''"
  unfolding elsewhere_def by (metis option.distinct(1))

lemma elsewhere_write: "elsewhere f w (snd (sys_write K f d w))"
  using write_delivers [of f d w] by (cases "sys_write K f d w") (auto simp: elsewhere_def)

lemma elsewhere_write_loop: "elsewhere f (kern s) (kern (snd (snd (write_loop K f d k s))))"
proof (induction "length d" arbitrary: d k s rule: less_induct)
  case less
  obtain c e w where w: "sys_write K f d (kern s) = ((c, e), w)" by (metis surj_pair)
  then have one: "elsewhere f (kern s) w" using elsewhere_write [of f "kern s" d] by simp
  show ?case
  proof (cases "0 < c \<and> c < int (length d)")
    case True
    then have "length (drop (nat c) d) < length d" by auto
    from less [OF this, of "s\<lparr>kern := w\<rparr>" "k + nat c"]
    have "elsewhere f w (kern (snd (snd (write_loop K f (drop (nat c) d) (k + nat c) (s\<lparr>kern := w\<rparr>)))))" by simp
    from True w elsewhere_trans [OF one this] show ?thesis by (simp add: write_loop.simps [of K f d] syscall_def)
  next
    case False
    with w one show ?thesis by (auto simp: write_loop.simps [of K f d] syscall_def)
  qed
qed

lemma elsewhere_echo_items: "elsewhere f (kern s) (kern (echo_items K f data s))"
proof (induction data arbitrary: s)
  case (Cons item data)
  have "elsewhere f (kern s) (kern (snd (snd (IGenericServer_write K f item s))))"
    using elsewhere_write_loop [of f "set_IO f s" item 0]
    by (cases "write_loop K f item 0 (set_IO f s)") (simp add: IGenericServer_write_def elsewhere_refl)
  from elsewhere_trans [OF this Cons] show ?case by simp
qed (simp add: elsewhere_refl)

lemma elsewhere_close: "elsewhere f (kern s) (kern (IGenericServer_close K f s))"
proof -
  obtain c e w where w: "sys_close K f (kern s) = ((c, e), w)" by (metis surj_pair)
  with close_cuts [OF w] close_quiet [OF w] show ?thesis
    by (simp add: IGenericServer_close_def syscall_def elsewhere_def)
qed

lemma elsewhere_my_listener:
  assumes "my_listener K le s = (r, t)"
  shows "elsewhere (le_fd le) (kern s) (kern t) \<and> listen_sock t = listen_sock s"
proof (cases "job le")
  case AVAILABLE_FOR_READ
  from read_loop_drains [of 4095 "le_fd le" "[]" "set_IO (le_fd le) s"] obtain good s1 where
    rd: "IGenericServer_read K (le_fd le) 4096 s = Some (good, s1)"
    "pending (kern s1) = (pending (kern s))(le_fd le := [])" "peer (kern s1) = peer (kern s)" "io_frame (set_IO (le_fd le) s) s1"
    by (auto simp: IGenericServer_read_def)
  with AVAILABLE_FOR_READ assms have t: "t = echo_items K (le_fd le) good s1" by (simp add: my_listener_def)
  have "elsewhere (le_fd le) (kern s) (kern s1)" using rd(2,3) by (simp add: elsewhere_def)
  from elsewhere_trans [OF this elsewhere_echo_items] t
    io_frame_trans [OF io_frame_set_IO io_frame_trans [OF rd(4) echo_items_frame [of s1 K "le_fd le" good]]]
  show ?thesis by (simp add: io_frame_def)
next
  case CLOSE_SOCKET
  with assms elsewhere_close [of "le_fd le" s] show ?thesis
    by (auto simp: my_listener_def IGenericServer_close_def syscall_eq)
qed (use assms in \<open>auto simp: my_listener_def elsewhere_refl\<close>)

lemma elsewhere_event:
  assumes "handle_event K (my_listener K) ev s = (r, t)" and "ev_fd ev \<noteq> fd_no (listen_sock s)"
  shows "elsewhere (ev_fd ev) (kern s) (kern t) \<and> listen_sock t = listen_sock s"
proof (cases "smart_closes ev s")
  case True
  let ?s = "s\<lparr>is_socket_IO := (is_socket_IO s)(ev_fd ev \<mapsto> False)\<rparr>"
  from True assms have "my_listener K \<lparr>srv = Is_IGenericServer, le_fd = ev_fd ev, job = SOCKET_IS_CLOSED,
      events = ev_events ev\<rparr> (IGenericServer_close K (ev_fd ev) ?s) = (r, t)"
    by (simp add: handle_event_def socket_event_smart_close)
  with elsewhere_close [of "ev_fd ev" ?s] show ?thesis
    by (auto simp: my_listener_def IGenericServer_close_def syscall_eq)
next
  case False
  with assms show ?thesis
    using elsewhere_my_listener [of "\<lparr>srv = Is_IGenericServer, le_fd = ev_fd ev, job = j, events = ev_events ev\<rparr>" s r t for j]
    by (auto simp: handle_event_def socket_event_job elsewhere_refl split: option.splits)
qed

lemma accept_event_quiet:
  assumes "handle_event K (my_listener K) ev s = (r, t)" and "ev_fd ev = fd_no (listen_sock s)"
  shows "peer (kern t) = peer (kern s) \<and> pending (kern t) = pending (kern s) \<and> listen_sock t = listen_sock s"
  using assms by (auto simp: handle_event_def accept_event_def my_listener_def Let_def syscall_eq unset_IO_def split: if_splits)

text \<open>An event of the server's end itself: reading moves the message to the way back, all else leaves it.\<close>

lemma transit_event:
  assumes "\<And>d w. fst (fst (sys_write K b d w)) = int (length d)" and "b \<noteq> -1" "a \<noteq> b"
    and "transit pending peer a b there back s" and "job_of evs \<noteq> Some CLOSE_SOCKET"
    and "handle_event K (my_listener K) \<lparr>ev_fd = b, ev_events = evs\<rparr> s = (r, t)"
  shows "r = None \<and> (if job_of evs = Some AVAILABLE_FOR_READ then transit pending peer a b [] (back @ there) t else t = s)"
proof -
  have b: "b \<noteq> fd_no (listen_sock s)" "peer (kern s) b = Some a" using assms(4) by (auto simp: transit_def connected_def)
  have "\<not> smart_closes \<lparr>ev_fd = b, ev_events = evs\<rparr> s"
    using assms(5) by (auto simp: smart_closes_def job_of_def split: if_splits)
  with assms(6) b have se: "(case job_of evs of None \<Rightarrow> (None, s)
      | Some j \<Rightarrow> my_listener K \<lparr>srv = Is_IGenericServer, le_fd = b, job = j, events = evs\<rparr> s) = (r, t)"
    by (cases "job_of evs") (simp_all add: handle_event_def socket_event_job)
  show ?thesis
  proof (cases "job_of evs = Some AVAILABLE_FOR_READ")
    case True
    with se have "my_listener K \<lparr>srv = Is_IGenericServer, le_fd = b, job = AVAILABLE_FOR_READ, events = evs\<rparr> s = (r, t)" by simp
    from my_listener_read [OF assms(1,2) _ _ this b(2) assms(3)] have
      l: "r = None" "peer (kern t) = peer (kern s)" "listen_sock t = listen_sock s"
      "pending (kern t) = (pending (kern s))(b := [], a := pending (kern s) a @ pending (kern s) b)" by simp_all
    from l(2) have "connected peer a b (kern t) = connected peer a b (kern s)" by (simp only: connected_def)
    with True l(1,3,4) assms(3,4) show ?thesis by (simp add: transit_def)
  next
    case False
    with se assms(5) show ?thesis by (auto simp: my_listener_def job_of_def split: if_splits)
  qed
qed

lemma transit_step:
  assumes full: "\<And>d w. fst (fst (sys_write K b d w)) = int (length d)" and b: "b \<noteq> -1" "a \<noteq> b"
    and "transit pending peer a b there back s" and "listener_step K a b s t"
  shows "transit pending peer a b there back t \<or> transit pending peer a b [] (back @ there) t"
  using assms(5)
proof cases
  case (1 ev)
  consider (listen) "ev_fd ev = fd_no (listen_sock s)" | (own) "ev_fd ev = b" "ev_fd ev \<noteq> fd_no (listen_sock s)"
    | (other) "ev_fd ev \<noteq> b" "ev_fd ev \<noteq> fd_no (listen_sock s)" by blast
  then show ?thesis
  proof cases
    case listen
    with accept_event_quiet [OF 1(3)] assms(4) show ?thesis by (simp add: transit_def connected_def)
  next
    case own
    then have ev: "ev = \<lparr>ev_fd = b, ev_events = ev_events ev\<rparr>" by simp
    with 1(3) have "handle_event K (my_listener K) \<lparr>ev_fd = b, ev_events = ev_events ev\<rparr> s = (None, t)" by simp
    from transit_event [OF full b assms(4) _ this] 1(2) own(1) assms(4) show ?thesis by (auto split: if_splits)
  next
    case other
    with elsewhere_event [OF 1(3)] 1(1) have e: "elsewhere (ev_fd ev) (kern s) (kern t)" "listen_sock t = listen_sock s"
      by simp_all
    from assms(4) have c: "peer (kern s) a = Some b" "peer (kern s) b = Some a" "peer (kern s) (ev_fd ev) \<noteq> Some a"
      "peer (kern s) (ev_fd ev) \<noteq> Some b"
      using other(1) 1(1) by (auto simp: transit_def connected_def)
    with e(1) other(1) 1(1) have "peer (kern t) a = Some b" "peer (kern t) b = Some a"
      "pending (kern t) a = pending (kern s) a" "pending (kern t) b = pending (kern s) b"
      by (simp_all add: elsewhere_def)
    moreover have "(peer (kern t) g = Some a \<longrightarrow> g = b) \<and> (peer (kern t) g = Some b \<longrightarrow> g = a)" for g
    proof -
      have "peer (kern t) g = peer (kern s) g \<or> peer (kern t) g = None" using e(1) by (simp add: elsewhere_def)
      moreover have "(peer (kern s) g = Some a \<longrightarrow> g = b) \<and> (peer (kern s) g = Some b \<longrightarrow> g = a)"
        using assms(4) by (simp add: transit_def connected_def)
      ultimately show ?thesis by auto
    qed
    ultimately have "connected peer a b (kern t)" unfolding connected_def by blast
    with \<open>pending (kern t) a = _\<close> \<open>pending (kern t) b = _\<close> assms(4) e(2) show ?thesis by (simp add: transit_def)
  qed
qed

lemma transit_steps:
  assumes "\<And>d w. fst (fst (sys_write K b d w)) = int (length d)" and "b \<noteq> -1" "a \<noteq> b"
    and "(listener_step K a b)\<^sup>*\<^sup>* s t" and "transit pending peer a b there back s"
  shows "transit pending peer a b there back t \<or> transit pending peer a b [] (back @ there) t"
  using assms(4,5)
proof (induction rule: rtranclp_induct)
  case (step u v)
  then show ?case using transit_step [OF assms(1-3)] by (metis append_Nil2)
qed simp

lemma transit_heard:
  assumes "\<And>d w. fst (fst (sys_write K b d w)) = int (length d)" and "b \<noteq> -1" "a \<noteq> b"
    and "hears_readable K a b s t" and "transit pending peer a b there back s"
  shows "transit pending peer a b [] (back @ there) t"
  using assms(4)
proof cases
  case (1 u evs v)
  from transit_steps [OF assms(1-3) 1(1) assms(5)] have "transit pending peer a b [] (back @ there) v"
    using transit_event [OF assms(1-3) _ _ 1(3)] 1(2) by fastforce
  from transit_steps [OF assms(1-3) 1(4) this] show ?thesis by simp
qed

end

section \<open>A kernel with connections inside the process\<close>

text \<open>
  \<^verbatim>\<open>connect\<close> reserves the number of the server's end and puts it into the queue of connections to accept, so that
  data can be sent before the connection is accepted.
\<close>

record loop =
  lp_open :: "fd set"
  lp_next :: fd
  lp_inp :: "fd \<Rightarrow> byte list"
  lp_peer :: "fd \<Rightarrow> fd option"
  lp_queue :: "fd list"

definition loop_alloc :: "loop \<Rightarrow> (int \<times> errno) \<times> loop" where
  "loop_alloc w = ((lp_next w, 0), w\<lparr>lp_open := insert (lp_next w) (lp_open w), lp_next := lp_next w + 1\<rparr>)"

definition loop_read :: "fd \<Rightarrow> nat \<Rightarrow> loop \<Rightarrow> (int \<times> errno \<times> byte list) \<times> loop" where
  "loop_read f n w =
     (if lp_inp w f \<noteq> [] then ((int (min n (length (lp_inp w f))), 0, take n (lp_inp w f)),
        w\<lparr>lp_inp := (lp_inp w)(f := drop n (lp_inp w f))\<rparr>)
      else case lp_peer w f of None \<Rightarrow> ((0, 0, []), w) | Some g \<Rightarrow> ((-1, EAGAIN, []), w))"

definition loop_write :: "fd \<Rightarrow> byte list \<Rightarrow> loop \<Rightarrow> (int \<times> errno) \<times> loop" where
  "loop_write f d w = ((int (length d), 0), case lp_peer w f of None \<Rightarrow> w
     | Some g \<Rightarrow> w\<lparr>lp_inp := (lp_inp w)(g := lp_inp w g @ d)\<rparr>)"

definition loop_close :: "fd \<Rightarrow> loop \<Rightarrow> (int \<times> errno) \<times> loop" where
  "loop_close f w = ((if f \<in> lp_open w then 0 else -1, EBADF),
     w\<lparr>lp_open := lp_open w - {f}, lp_peer := (\<lambda>g. if g = f \<or> lp_peer w g = Some f then None else lp_peer w g)\<rparr>)"

definition loop_accept :: "fd \<Rightarrow> loop \<Rightarrow> (int \<times> errno) \<times> loop" where
  "loop_accept f w = (case lp_queue w of [] \<Rightarrow> ((-1, EAGAIN), w)
     | b # q \<Rightarrow> ((b, 0), w\<lparr>lp_queue := q, lp_open := insert b (lp_open w)\<rparr>))"

definition loop_connect :: "fd \<Rightarrow> sockaddr \<Rightarrow> loop \<Rightarrow> (int \<times> errno) \<times> loop" where
  "loop_connect f a w = (let b = lp_next w in ((0, 0), w\<lparr>lp_next := b + 1, lp_queue := lp_queue w @ [b],
     lp_peer := (lp_peer w)(f := Some b, b := Some f)\<rparr>))"

definition loop_kernel :: "loop kernel" where
  "loop_kernel = \<lparr>
     sys_read = loop_read, sys_write = loop_write, sys_close = loop_close,
     sys_pipe = (\<lambda>w. ((0, 0, (lp_next w, lp_next w + 1)),
       w\<lparr>lp_open := insert (lp_next w) (insert (lp_next w + 1) (lp_open w)), lp_next := lp_next w + 2\<rparr>)),
     sys_listen = (\<lambda>f n w. ((0, 0), w)), sys_accept4 = loop_accept, sys_epoll_create1 = loop_alloc,
     sys_epoll_ctl = (\<lambda>ep op f ev w. ((0, 0), w)), sys_getfl = (\<lambda>f w. ((0, 0), w)),
     sys_setfl = (\<lambda>f x w. ((0, 0), w)), sys_setsockopt = (\<lambda>f lv opt v w. ((0, 0), w)),
     sys_getsockopt = (\<lambda>f lv opt w. ((0, 0, 0), w)), sys_socket = (\<lambda>pf nb. loop_alloc),
     sys_bind = (\<lambda>f a w. ((0, 0), w)), sys_connect = loop_connect, sys_unlink = (\<lambda>p w. ((0, 0), w)),
     sys_getaddrinfo = (\<lambda>a p w. ((0, 0, [0]), w)),
     sys_gethostbyname = (\<lambda>h w. (Some [127, 0, 0, 1, 0, 0, 0, 0], w))\<rparr>"

interpretation loop: loopback loop_kernel lp_inp lp_peer
  by unfold_locales
    (auto simp: loop_kernel_def loop_read_def loop_write_def loop_accept_def loop_close_def
      split: if_splits option.splits list.splits)

text \<open>
  A schedule of the listening thread: it sets up, accepts the connection and hears of the data, hears that the
  client hung up, and leaves the loop.
\<close>

definition conn_of :: "('w, 'z) server_scheme \<Rightarrow> fd" where
  "conn_of s = hd (sorted_list_of_set (incoming_conn_fd s))"

definition demo_sched :: "nat \<Rightarrow> loop threaded_server \<Rightarrow> loop threaded_server" where
  "demo_sched i t =
     (if i = 0 then snd (listen_setup loop_kernel t)
      else if i = 1 then
        (let t1 = snd (handle_event loop_kernel (my_listener loop_kernel) \<lparr>ev_fd = fd_no (listen_sock t), ev_events = EPOLLIN\<rparr> t)
         in snd (handle_event loop_kernel (my_listener loop_kernel) \<lparr>ev_fd = conn_of t1, ev_events = EPOLLIN\<rparr> t1))
      else if i = 2 then
        snd (handle_event loop_kernel (my_listener loop_kernel) \<lparr>ev_fd = conn_of t, ev_events = EPOLLIN OR EPOLLRDHUP\<rparr> t)
      else closeSockets loop_kernel t)"

definition loop0 :: "loop os" where
  "loop0 = \<lparr>kern = \<lparr>lp_open = {0, 1, 2}, lp_next = 3, lp_inp = (\<lambda>_. []), lp_peer = (\<lambda>_. None), lp_queue = []\<rparr>, errno = 0\<rparr>"

section \<open>What the client gets\<close>

context loopback
begin

lemma main_write_delivers:
  assumes "\<And>d w. fst (fst (sys_write K a d w)) = int (length d)"
    and "data_socket (ms_client m) = a" and "a \<noteq> -1"
  obtains m2 where "main_write K m = Inr m2" and "data_socket (ms_client m2) = a"
    and "delivered a test_message (kern (ms_server m)) (kern (ms_server m2))"
    and "listen_sock (ms_server m2) = listen_sock (ms_server m)"
proof -
  let ?c = "(ms_client m)\<lparr>kern := kern (ms_server m)\<rparr>"
  obtain e w where w: "sys_write K a test_message (kern (ms_server m)) = ((int (length test_message), e), w)"
    using assms(1) [of test_message "kern (ms_server m)"] by (metis prod.collapse)
  have "snd (snd (BaseClient_write K test_message ?c)) = ?c\<lparr>kern := w\<rparr>"
    using assms(2,3) w by (simp add: BaseClient_write_state client_write_loop.simps [of K a] syscall_def)
  then obtain r' e' where "BaseClient_write_vector (\<lambda>b. [b]) K test_message ?c = (r', e', ?c\<lparr>kern := w\<rparr>)"
    by (cases "BaseClient_write K test_message ?c") (simp add: BaseClient_write_vector_def)
  with that write_whole [OF w] assms(2) show thesis by (simp add: main_write_def client_op_def)
qed

lemma main_read_waits:
  assumes "transit pending peer a b there [] (ms_server m)" and "data_socket (ms_client m) = a"
  shows "main_read K m = Inl Blocked"
proof -
  obtain c e d w' where rd: "sys_read K a 1024 (kern (ms_server m)) = ((c, e, d), w')" by (metis surj_pair)
  with assms(1) read_waits [OF rd] would_block [OF rd] have "would_block K a 1024 (kern (ms_server m))"
    by (auto simp: transit_def connected_def would_block_def)
  with assms(2) show ?thesis by (simp add: main_read_def)
qed

lemma main_read_answer:
  assumes "transit pending peer a b there test_message (ms_server m)" and "data_socket (ms_client m) = a" and "0 \<le> a"
  shows "\<exists>m'. main_read K m = Inr m' \<and> data_socket (ms_client m') = -1"
proof -
  obtain c e d w' where rd: "sys_read K a 1024 (kern (ms_server m)) = ((c, e, d), w')" by (metis surj_pair)
  have len: "length test_message = 12" by (simp add: test_message_def)
  then have "test_message \<noteq> []" by auto
  with len available [OF rd] assms(1) have c: "c = 12" by (auto simp: transit_def)
  with read_data [OF rd] have "length d = 12" by simp
  with rd c assms(2,3) show ?thesis
    by (simp add: main_read_def would_block_def client_op_def BaseClient_read_def syscall_out_def filled_full
        BaseClient_close_def syscall_eq)
qed

end

section \<open>Properties\<close>

text \<open>
  C10. The round trip of the demonstration program. Between the client's write and its read the listening thread may
  handle any events: of new connections, of other connections, their hang-ups and errors included, and of this
  connection except its own hang-up or failure; sockets take the message whole. Then the assertion on the answer
  never fails. When one of the events reports the connection as readable, and not as writable at the same time, the
  client gets the complete answer and closes its socket. Otherwise it can only be that the client waits and the
  message still waits, unread, at the server, whose callback ignores events that are readable and writable.
\<close>

theorem main_echo_roundtrip:
  assumes "loopback K pending peer"
    and "\<And>d w. fst (fst (sys_write K a d w)) = int (length d)" and "\<And>d w. fst (fst (sys_write K b d w)) = int (length d)"
    and "data_socket (ms_client m) = a" and "0 \<le> a" and "b \<noteq> -1" and "a \<noteq> b"
    and "connected peer a b (kern (ms_server m))" and "fd_no (listen_sock (ms_server m)) \<noteq> b"
    and "pending (kern (ms_server m)) a = []" and "pending (kern (ms_server m)) b = []"
    and "\<And>m2. main_write K m = Inr m2 \<Longrightarrow> (listener_step K a b)\<^sup>*\<^sup>* (ms_server m2) (f (ms_server m2))"
  shows "\<exists>m2. main_write K m = Inr m2
    \<and> (main_read K (on_server f m2) = Inl Blocked \<and> pending (kern (f (ms_server m2))) b = test_message
       \<or> (\<exists>m3. main_read K (on_server f m2) = Inr m3 \<and> data_socket (ms_client m3) = -1))
    \<and> (hears_readable K a b (ms_server m2) (f (ms_server m2)) \<longrightarrow>
         (\<exists>m3. main_read K (on_server f m2) = Inr m3 \<and> data_socket (ms_client m3) = -1))"
proof -
  have "a \<noteq> -1" using assms(5) by simp
  from loopback.main_write_delivers [OF assms(1,2,4) this] obtain m2 where m2: "main_write K m = Inr m2"
    "data_socket (ms_client m2) = a" "loopback.delivered pending peer a test_message (kern (ms_server m)) (kern (ms_server m2))"
    "listen_sock (ms_server m2) = listen_sock (ms_server m)" .
  from m2(3) assms(7-11) have tr: "transit pending peer a b test_message [] (ms_server m2)"
    by (auto simp: transit_def connected_def loopback.delivered_def [OF assms(1)] m2(4))
  let ?t = "ms_server (on_server f m2)"
  have t: "?t = f (ms_server m2)" "data_socket (ms_client (on_server f m2)) = a" using m2(2) by (simp_all add: on_server_def)
  note answer = loopback.main_read_answer [OF assms(1) _ t(2) assms(5), where b = b]
  from loopback.transit_steps [OF assms(1,3,6,7) assms(12) [OF m2(1)] tr]
  have "transit pending peer a b test_message [] ?t \<or> transit pending peer a b [] test_message ?t" by (simp add: t(1))
  then have one: "main_read K (on_server f m2) = Inl Blocked \<and> pending (kern (f (ms_server m2))) b = test_message
       \<or> (\<exists>m3. main_read K (on_server f m2) = Inr m3 \<and> data_socket (ms_client m3) = -1)"
    using answer loopback.main_read_waits [OF assms(1) _ t(2)] by (auto simp: transit_def t(1))
  have two: "\<exists>m3. main_read K (on_server f m2) = Inr m3 \<and> data_socket (ms_client m3) = -1"
    if "hears_readable K a b (ms_server m2) (f (ms_server m2))"
    using loopback.transit_heard [OF assms(1,3,6,7) that tr] answer by (simp add: t(1))
  from m2(1) one two show ?thesis by blast
qed

definition paired :: loop where
  "paired = \<lparr>lp_open = {3, 7, 8}, lp_next = 9, lp_inp = (\<lambda>_. []), lp_peer = [7 \<mapsto> 8, 8 \<mapsto> 7], lp_queue = []\<rparr>"

definition demo_connected :: "loop tcp_main" where
  "demo_connected =
     (let t = \<lparr>kern = paired, errno = 0, listen_sock = \<lparr>fd_name = ''listen_sock'', fd_no = 3\<rparr>,
        epollfd = \<lparr>fd_name = ''epollfd'', fd_no = 4\<rparr>, incoming_conn_fd = {8}, stop_server = False,
        is_listening = True, commandPipe = \<lparr>pipe_rd = 5, pipe_wr = 6\<rparr>, backlog = 10, activeConnections = 1,
        socketList = [], is_socket_IO = Map.empty, use_smart_close = True\<rparr>
      in \<lparr>ms_server = ThreadedServer_new t,
          ms_client = (TcpClient_new False \<lparr>kern = paired, errno = 0\<rparr>)\<lparr>data_socket := 7\<rparr>\<rparr>)"

lemma demo_connected_simps [simp]:
  "data_socket (ms_client demo_connected) = 7" "kern (ms_server demo_connected) = paired"
  "fd_no (listen_sock (ms_server demo_connected)) = 3"
  by (simp_all add: demo_connected_def ThreadedServer_new_def server.extend_def Let_def)

text \<open>The listening thread hears that the server's end is readable.\<close>

definition hear :: "loop threaded_server \<Rightarrow> loop threaded_server" where
  "hear t = snd (handle_event loop_kernel (my_listener loop_kernel) \<lparr>ev_fd = 8, ev_events = EPOLLIN\<rparr> t)"

lemma hear_event:
  assumes "fd_no (listen_sock t) \<noteq> 8"
  shows "handle_event loop_kernel (my_listener loop_kernel) \<lparr>ev_fd = 8, ev_events = EPOLLIN\<rparr> t =
    (None, snd (handle_event loop_kernel (my_listener loop_kernel) \<lparr>ev_fd = 8, ev_events = EPOLLIN\<rparr> t))"
proof -
  have "fst (my_listener loop_kernel \<lparr>srv = Is_IGenericServer, le_fd = 8, job = AVAILABLE_FOR_READ, events = EPOLLIN\<rparr> t) = None"
    using loop.read_everything [of 8 t] by (auto simp: my_listener_def)
  with assms show ?thesis by (simp add: handle_event_def socket_event_def epoll_defs prod_eq_iff)
qed

lemma hears:
  assumes "fd_no (listen_sock t) \<noteq> 8"
  shows "hears_readable loop_kernel 7 8 t (snd (handle_event loop_kernel (my_listener loop_kernel) \<lparr>ev_fd = 8, ev_events = EPOLLIN\<rparr> t))"
  by (rule hears_readable.intros [OF rtranclp.rtrancl_refl _ hear_event [OF assms] rtranclp.rtrancl_refl])
    (simp add: job_of_def epoll_defs)

theorem main_echo_roundtrip_witness:
  "\<exists>m2 m3. main_write loop_kernel demo_connected = Inr m2
    \<and> main_read loop_kernel (on_server hear m2) = Inr m3 \<and> data_socket (ms_client m3) = -1"
proof -
  have listen: "fd_no (listen_sock (ms_server m2)) \<noteq> 8" if "main_write loop_kernel demo_connected = Inr m2" for m2
    using that by (auto simp: main_write_def client_op_def Let_def case_prod_beta)
  have step: "(listener_step loop_kernel 7 8)\<^sup>*\<^sup>* (ms_server m2) (hear (ms_server m2))"
    if "main_write loop_kernel demo_connected = Inr m2" for m2
    using r_into_rtranclp [of "listener_step loop_kernel 7 8", of "ms_server m2" "hear (ms_server m2)"] listener_step.intros [OF _ _ hear_event [OF listen [OF that]], of 7 8]
    by (simp add: hear_def job_of_def epoll_defs)
  have full: "fst (fst (sys_write loop_kernel f d w)) = int (length d)" for f d w
    by (simp add: loop_kernel_def loop_write_def)
  have c: "connected lp_peer 7 8 (kern (ms_server demo_connected))" "lp_inp (kern (ms_server demo_connected)) 7 = []"
    "lp_inp (kern (ms_server demo_connected)) 8 = []" "fd_no (listen_sock (ms_server demo_connected)) \<noteq> 8"
    by (simp_all add: connected_def paired_def)
  obtain m2 where m2: "main_write loop_kernel demo_connected = Inr m2"
    "hears_readable loop_kernel 7 8 (ms_server m2) (hear (ms_server m2)) \<longrightarrow>
         (\<exists>m3. main_read loop_kernel (on_server hear m2) = Inr m3 \<and> data_socket (ms_client m3) = -1)"
    using main_echo_roundtrip [OF loop.loopback_axioms full full demo_connected_simps(1) _ _ _ c(1,4,2,3) step]
    by auto
  with hears [OF listen [OF m2(1)]] show ?thesis by (auto simp: hear_def)
qed

end
