(* ===== verification/Main_Run.thy ===== *)
theory Main_Run
  imports Main_Program
begin

text \<open>
  The program \<^verbatim>\<open>main/main.cpp\<close> run from beginning to end, over the kernel with connections inside the process and
  the schedule of \<open>Main_Program\<close>: the state after each statement of an iteration, for any number of
  descriptors in use, and from these the ten iterations.
\<close>

section \<open>States\<close>

definition net :: "fd \<Rightarrow> fd set \<Rightarrow> (fd \<Rightarrow> byte list) \<Rightarrow> (fd \<Rightarrow> fd option) \<Rightarrow> fd list \<Rightarrow> loop" where
  "net n opn ip pr q = \<lparr>lp_open = opn, lp_next = n, lp_inp = ip, lp_peer = pr, lp_queue = q\<rparr>"

text \<open>
  The server of an iteration that starts when \<open>n\<close> is the next descriptor: the pipe is \<open>n\<close> and \<open>n + 1\<close>, the listening
  socket \<open>n + 2\<close>.
\<close>

definition run_server ::
  "fd \<Rightarrow> fd \<Rightarrow> bool \<Rightarrow> bool \<Rightarrow> fd set \<Rightarrow> int \<Rightarrow> (fd \<rightharpoonup> bool) \<Rightarrow> errno \<Rightarrow> loop \<Rightarrow> loop threaded_server" where
  "run_server n ep lis stop cs act marks e w = \<lparr>kern = w, errno = e,
     listen_sock = \<lparr>fd_name = ''listen_sock'', fd_no = n + 2\<rparr>, epollfd = \<lparr>fd_name = ''epollfd'', fd_no = ep\<rparr>,
     incoming_conn_fd = cs, stop_server = stop, is_listening = lis,
     commandPipe = \<lparr>pipe_rd = n, pipe_wr = n + 1\<rparr>, backlog = 10, activeConnections = act, socketList = [],
     is_socket_IO = marks, use_smart_close = True, own_is_listening = False, worker_is_running = False,
     workerThread = True\<rparr>"

definition run_client :: "fd \<Rightarrow> loop \<Rightarrow> loop tcp_client" where
  "run_client a w = \<lparr>kern = w, errno = 0, data_socket = a, nonBlockingSocket = False, tcp_port = 0, hostname = ''0.0.0.0''\<rparr>"

abbreviation run_state :: "loop threaded_server \<Rightarrow> fd \<Rightarrow> loop tcp_main" where
  "run_state t a \<equiv> \<lparr>ms_server = t, ms_client = run_client a (kern t)\<rparr>"

text \<open>Cutting the connection of a descriptor.\<close>

definition cut :: "fd \<Rightarrow> (fd \<Rightarrow> fd option) \<Rightarrow> fd \<Rightarrow> fd option" where
  "cut f pr = (\<lambda>g. if g = f \<or> pr g = Some f then None else pr g)"

lemma loop_close_cut: "loop_close f w = ((if f \<in> lp_open w then 0 else -1, EBADF),
     w\<lparr>lp_open := lp_open w - {f}, lp_peer := cut f (lp_peer w)\<rparr>)"
  by (simp add: loop_close_def cut_def)

lemma loop_calls:
  "sys_read loop_kernel = loop_read" "sys_write loop_kernel = loop_write" "sys_close loop_kernel = loop_close"
  "sys_pipe loop_kernel = (\<lambda>w. ((0, 0, (lp_next w, lp_next w + 1)),
     w\<lparr>lp_open := insert (lp_next w) (insert (lp_next w + 1) (lp_open w)), lp_next := lp_next w + 2\<rparr>))"
  "sys_listen loop_kernel = (\<lambda>f n w. ((0, 0), w))" "sys_accept4 loop_kernel = loop_accept"
  "sys_epoll_create1 loop_kernel = loop_alloc" "sys_epoll_ctl loop_kernel = (\<lambda>ep op f ev w. ((0, 0), w))"
  "sys_socket loop_kernel = (\<lambda>pf nb. loop_alloc)" "sys_bind loop_kernel = (\<lambda>f a w. ((0, 0), w))"
  "sys_connect loop_kernel = loop_connect" "sys_getaddrinfo loop_kernel = (\<lambda>a p w. ((0, 0, [0]), w))"
  "sys_gethostbyname loop_kernel = (\<lambda>h w. (Some [127, 0, 0, 1, 0, 0, 0, 0], w))"
  by (simp_all add: loop_kernel_def)

lemmas loop_eval = loop_calls loop_alloc_def loop_read_def loop_write_def loop_close_cut loop_accept_def
  loop_connect_def syscall_eqs net_def run_server_def run_client_def client_op_def Let_def

lemma TcpServer_setup_first: "TcpServer_setup K address port s =
    (let (fd, s1) = open_listening_socket K address port s; s2 = s1\<lparr>listen_sock := (listen_sock s1)\<lparr>fd_no := fd\<rparr>\<rparr> in
     if fd \<noteq> -1 then (None, s2) else setup_loop K address port (Suc (Suc (Suc (Suc 0)))) s2)"
  by (simp add: TcpServer_setup_def eval_nat_numeral)

lemmas start_eval = main_start_def TcpServer_new_def IGenericServer_new_def UnixPipe_new_def TcpServer_setup_first
  open_listening_socket_def ThreadedServer_start_begin_def ThreadedServer_new_def server.extend_def
  threaded_server.fields_def FileDescriptor_new_def
lemmas connect_eval = main_connect_def ThreadedServer_start_end_def wait_for_server_ready_def TcpClient_connect_def
  TcpClient_new_def BaseClient_new_def client.extend_def client.fields_def tcp_client.fields_def os.extend_def c_str_def
lemmas write_eval = main_write_def BaseClient_write_vector_def BaseClient_write_def client_write_loop.simps
lemmas sched_eval = demo_sched_def listen_setup_def handle_event_def accept_event_def my_listener_def
  IGenericServer_read_def read_loop.simps socket_event_def is_IO_def IGenericServer_write_def write_loop.simps
  conn_of_def epoll_defs errno_defs set_IO_def unset_IO_def filled_def IGenericServer_close_def
lemmas read_eval = main_read_def would_block_def BaseClient_read_def BaseClient_close_def filled_def
lemmas stop_eval = main_stop_def get_active_connections_def ThreadedServer_stop_begin_def terminate_begin_def
  UnixPipe_write_def
lemmas join_eval = main_join_def ThreadedServer_stop_end_def terminate_end_def BaseClient_delete_def BaseClient_close_def
  IGenericServer_delete_def UnixPipe_delete_def FileDescriptor_delete_def FileDescriptor_close_def os.truncate_def
lemmas clean_eval = demo_sched_def closeSockets_defs close_all_def FileDescriptor_close_def

section \<open>One iteration, statement by statement\<close>

lemma run_start:
  "0 \<le> n \<Longrightarrow> main_start loop_kernel \<lparr>kern = net n O1 ip pr [], errno = e\<rparr> =
     Inr (run_server n (-1) False False {} 0 Map.empty e (net (n + 3) (insert (n + 2) (insert n (insert (n + 1) O1))) ip pr []))"
  by (simp add: start_eval loop_eval)

lemma run_sched0:
  "0 \<le> n \<Longrightarrow> demo_sched 0 (run_server n (-1) False False {} 0 Map.empty e (net (n + 3) O1 ip pr [])) =
     run_server n (n + 3) True False {} 0 Map.empty e (net (n + 4) (insert (n + 3) O1) ip pr [])"
  by (simp add: sched_eval loop_eval)

lemma run_connect:
  "0 \<le> n \<Longrightarrow> main_connect loop_kernel True (run_server n (n + 3) True False {} 0 Map.empty e (net (n + 4) O1 ip pr [])) =
     Inr (run_state (run_server n (n + 3) True False {} 0 Map.empty e
       (net (n + 6) (insert (n + 4) O1) ip (pr(n + 4 \<mapsto> n + 5, n + 5 \<mapsto> n + 4)) [n + 5])) (n + 4))"
  by (simp add: connect_eval loop_eval add.commute [of 5 n])

lemma run_write:
  "0 \<le> n \<Longrightarrow> ip (n + 5) = [] \<Longrightarrow> pr (n + 4) = Some (n + 5) \<Longrightarrow>
   main_write loop_kernel (run_state (run_server n ep lis False cs act mk e (net m O1 ip pr q)) (n + 4)) =
     Inr (run_state (run_server n ep lis False cs act mk e (net m O1 (ip(n + 5 := test_message)) pr q)) (n + 4))"
  by (simp add: write_eval test_message_def loop_eval to_int_def)

lemma run_sched1:
  "0 \<le> n \<Longrightarrow> ip (n + 5) = test_message \<Longrightarrow> ip (n + 4) = [] \<Longrightarrow> pr (n + 5) = Some (n + 4) \<Longrightarrow>
   demo_sched (Suc 0) (run_server n ep True False {} 0 Map.empty e (net m O1 ip pr [n + 5])) =
     run_server n ep True False {n + 5} 1 [n + 2 \<mapsto> False, n + 5 \<mapsto> True] EAGAIN
       (net m (insert (n + 5) O1) (ip(n + 5 := [], n + 4 := test_message)) pr [])"
  by (simp add: sched_eval test_message_def loop_eval)

lemma run_read:
  "0 \<le> n \<Longrightarrow> ip (n + 4) = test_message \<Longrightarrow> n + 4 \<in> O1 \<Longrightarrow>
   main_read loop_kernel \<lparr>ms_server = run_server n ep lis False cs act mk e (net m O1 ip pr q), ms_client = run_client (n + 4) w\<rparr> =
     Inr (run_state (run_server n ep lis False cs act mk e (net m (O1 - {n + 4}) (ip(n + 4 := [])) (cut (n + 4) pr) q)) (-1))"
  by (simp add: read_eval test_message_def loop_eval)

lemma run_sched2:
  "0 \<le> n \<Longrightarrow> n + 5 \<in> O1 \<Longrightarrow> demo_sched 2 (run_server n ep True False {n + 5} 1 [n + 2 \<mapsto> False, n + 5 \<mapsto> True] e (net m O1 ip pr q)) =
     run_server n ep True False {} 0 [n + 2 \<mapsto> False, n + 5 \<mapsto> True] e (net m (O1 - {n + 5}) ip (cut (n + 5) pr) q)"
  by (simp add: sched_eval loop_eval)

lemma run_stop:
  "pr (n + 1) = None \<Longrightarrow>
   main_stop loop_kernel \<lparr>ms_server = run_server n ep True False {} 0 mk e (net m O1 ip pr q), ms_client = c\<rparr> =
     Inr (True, \<lparr>ms_server = run_server n ep True True {} 0 mk e (net m O1 ip pr q), ms_client = c\<rparr>)"
  by (simp add: stop_eval loop_eval)

lemma run_join:
  "0 \<le> n \<Longrightarrow> n \<in> O1 \<Longrightarrow> n + 1 \<in> O1 \<Longrightarrow> n + 2 \<in> O1 \<Longrightarrow> n + 3 \<in> O1 \<Longrightarrow>
   main_join loop_kernel (True, \<lparr>ms_server = demo_sched 3 (run_server n (n + 3) True True {} 0 mk e (net m O1 ip pr q)),
     ms_client = run_client (-1) w\<rparr>) =
     Inr \<lparr>kern = net m (O1 - {n + 3} - {n + 2} - {n} - {n + 1}) ip (cut (n + 1) (cut n (cut (n + 2) (cut (n + 3) pr)))) q, errno = e\<rparr>"
  by (simp add: clean_eval join_eval loop_eval)

text \<open>Numbers that no descriptor has had yet.\<close>

definition fresh_from :: "fd \<Rightarrow> loop \<Rightarrow> bool" where
  "fresh_from n w \<longleftrightarrow> 0 \<le> n \<and> (\<forall>k \<ge> n. k \<notin> lp_open w \<and> lp_inp w k = [] \<and> lp_peer w k = None)
     \<and> lp_next w = n \<and> lp_queue w = []"

lemma cut_None: "pr k = None \<Longrightarrow> cut f pr k = None"
  by (simp add: cut_def)

lemma run_iteration:
  assumes "fresh_from n w"
  shows "\<exists>w' e'. main_iteration loop_kernel True demo_sched \<lparr>kern = w, errno = e\<rparr> = Inr \<lparr>kern = w', errno = e'\<rparr>
    \<and> lp_open w' = lp_open w \<and> fresh_from (n + 6) w'"
proof -
  obtain O1 ip pr where w: "w = net n O1 ip pr []" using assms by (cases w) (auto simp: fresh_from_def net_def)
  have f: "0 \<le> n" "\<And>k. n \<le> k \<Longrightarrow> k \<notin> O1" "\<And>k. n \<le> k \<Longrightarrow> ip k = []" "\<And>k. n \<le> k \<Longrightarrow> pr k = None"
    using assms by (auto simp: fresh_from_def w net_def)
  let ?pr = "pr(n + 4 \<mapsto> n + 5, n + 5 \<mapsto> n + 4)"
  let ?O = "insert (n + 4) (insert (n + 3) (insert (n + 2) (insert n (insert (n + 1) O1))))"
  let ?O2 = "insert (n + 5) ?O - {n + 4} - {n + 5}"
  let ?ip = "(ip(n + 5 := test_message))(n + 5 := [], n + 4 := test_message, n + 4 := [])"
  let ?pr2 = "cut (n + 5) (cut (n + 4) ?pr)"
  have it: "main_iteration loop_kernel True demo_sched \<lparr>kern = w, errno = e\<rparr> =
      Inr \<lparr>kern = net (n + 6) (?O2 - {n + 3} - {n + 2} - {n} - {n + 1}) ?ip
        (cut (n + 1) (cut n (cut (n + 2) (cut (n + 3) ?pr2)))) [], errno = EAGAIN\<rparr>"
    unfolding main_iteration_def w
    by (simp add: f run_start run_sched0 run_connect run_write run_sched1 run_read run_sched2 run_stop run_join
        and_then_def on_server_def cut_None)
  have O: "?O2 - {n + 3} - {n + 2} - {n} - {n + 1} = O1" using f(1,2) by auto
  have "fresh_from (n + 6) (net (n + 6) O1 ?ip (cut (n + 1) (cut n (cut (n + 2) (cut (n + 3) ?pr2)))) [])"
    using f by (auto simp: fresh_from_def net_def cut_None)
  with it O w show ?thesis by (simp add: net_def)
qed

lemma run_loop:
  "fresh_from n w \<Longrightarrow> \<exists>w' e'. main_loop loop_kernel True (\<lambda>i. demo_sched) i \<lparr>kern = w, errno = e\<rparr> =
     Inr \<lparr>kern = w', errno = e'\<rparr> \<and> lp_open w' = lp_open w"
proof (induction i arbitrary: n w e)
  case (Suc i)
  from run_iteration [OF Suc.prems, of e] obtain w1 e1 where
    it: "main_iteration loop_kernel True demo_sched \<lparr>kern = w, errno = e\<rparr> = Inr \<lparr>kern = w1, errno = e1\<rparr>"
    "lp_open w1 = lp_open w" "fresh_from (n + 6) w1" by blast
  from Suc.IH [OF it(3), of e1] it(1,2) show ?case by (auto simp: and_then_def)
qed simp

section \<open>Properties\<close>

text \<open>
  The demonstration program runs to its end: under a schedule in which the listening thread accepts the
  connection, hears that it is readable and hears that the client hung up, all ten iterations pass their
  assertion, no thread stays blocked, and at the end exactly those descriptors are open that were open at the
  beginning.
\<close>

lemma main_program_runs:
  "\<exists>s. main loop_kernel True (\<lambda>i. demo_sched) loop0 = Inr s \<and> lp_open (kern s) = lp_open (kern loop0)"
proof -
  have "fresh_from 3 (kern loop0)" by (auto simp: fresh_from_def loop0_def)
  from run_loop [OF this, of 10 0] show ?thesis by (auto simp: main_def loop0_def)
qed

end
