(* ===== verification/Echo_Session.thy ===== *)
theory Echo_Session
  imports Main_Program C_Client
begin

text \<open>
  The C client of \<^verbatim>\<open>unix_socket_client/\<close> talking to the echo server of \<^verbatim>\<open>main/main.cpp\<close>. The system that the client
  runs on is the kernel together with the server: while the client waits in \<^verbatim>\<open>read(2)\<close>, the listening thread of the
  server handles the events of a schedule.
\<close>

section \<open>The system around the client\<close>

definition lift_call :: "('w \<Rightarrow> 'r \<times> 'w) \<Rightarrow> 'w server \<Rightarrow> 'r \<times> 'w server" where
  "lift_call f S = (case f (kern S) of (r, w) \<Rightarrow> (r, S\<lparr>kern := w\<rparr>))"

text \<open>\<open>sched\<close> is what the listening thread does before a \<^verbatim>\<open>read(2)\<close> that has to wait returns.\<close>

definition served_read ::
  "'w kernel \<Rightarrow> ('w server \<Rightarrow> 'w server) \<Rightarrow> fd \<Rightarrow> nat \<Rightarrow> 'w server \<Rightarrow> (int \<times> errno \<times> byte list) \<times> 'w server" where
  "served_read K sched f n S =
     lift_call (sys_read K f n) (if would_block K f n (kern S) then sched S else S)"

definition served :: "'w kernel \<Rightarrow> ('w server \<Rightarrow> 'w server) \<Rightarrow> 'w server kernel" where
  "served K sched = \<lparr>
     sys_read = served_read K sched, sys_write = (\<lambda>f d. lift_call (sys_write K f d)),
     sys_close = (\<lambda>f. lift_call (sys_close K f)), sys_pipe = lift_call (sys_pipe K),
     sys_listen = (\<lambda>f n. lift_call (sys_listen K f n)), sys_accept4 = (\<lambda>f. lift_call (sys_accept4 K f)),
     sys_epoll_create1 = lift_call (sys_epoll_create1 K),
     sys_epoll_ctl = (\<lambda>ep op f ev. lift_call (sys_epoll_ctl K ep op f ev)),
     sys_getfl = (\<lambda>f. lift_call (sys_getfl K f)), sys_setfl = (\<lambda>f x. lift_call (sys_setfl K f x)),
     sys_setsockopt = (\<lambda>f lv opt v. lift_call (sys_setsockopt K f lv opt v)),
     sys_getsockopt = (\<lambda>f lv opt. lift_call (sys_getsockopt K f lv opt)),
     sys_socket = (\<lambda>pf nb. lift_call (sys_socket K pf nb)), sys_bind = (\<lambda>f a. lift_call (sys_bind K f a)),
     sys_connect = (\<lambda>f a. lift_call (sys_connect K f a)), sys_unlink = (\<lambda>p. lift_call (sys_unlink K p)),
     sys_getaddrinfo = (\<lambda>h q. lift_call (sys_getaddrinfo K h q)),
     sys_gethostbyname = (\<lambda>h. lift_call (sys_gethostbyname K h))\<rparr>"

lemma served_calls:
  "sys_read (served K sched) = served_read K sched" "sys_write (served K sched) f d S = lift_call (sys_write K f d) S"
  "sys_close (served K sched) f S = lift_call (sys_close K f) S"
  by (simp_all add: served_def)

section \<open>Lemmas\<close>

text \<open>What the first null-terminated string of a request reads as.\<close>

lemma request_first:
  "request as = hd (as @ [END_bytes]) @ 0 # (if as = [] then [] else request (tl as))"
  by (cases as) (simp_all add: request_def c_string_def)

lemma takeWhile_take: "takeWhile P (take k xs) = take k (takeWhile P xs)"
  by (induction xs arbitrary: k) (auto simp: take_Cons split: nat.split)

lemma takeWhile_first:
  fixes f :: "byte list"
  assumes nz: "0 \<notin> set f"
  shows "takeWhile (\<lambda>b. b \<noteq> 0) (take 11 (take 12 (f @ 0 # r) @ m)) = take 11 f"
proof (cases "length f < 12")
  case True
  then obtain j where "12 - length f = Suc j" by (metis Suc_diff_Suc)
  then have "take 12 (f @ 0 # r) @ m = f @ 0 # (take j r @ m)" using True by simp
  then have "takeWhile (\<lambda>b. b \<noteq> 0) (take 12 (f @ 0 # r) @ m) = takeWhile (\<lambda>b. b \<noteq> 0) f"
    by (simp only: takeWhile_tail)
  also have "takeWhile (\<lambda>b. b \<noteq> 0) f = f" using nz by (auto simp: takeWhile_eq_all_conv)
  finally show ?thesis by (simp only: takeWhile_take)
next
  case False
  have "takeWhile (\<lambda>b. b \<noteq> 0) (take 12 f @ m) = take 12 f @ takeWhile (\<lambda>b. b \<noteq> 0) m"
    using nz by (intro takeWhile_append2) (auto dest: in_set_takeD)
  with False nz show ?thesis by (simp only: takeWhile_take take_append) (auto dest: in_set_takeD)
qed

lemma takeWhile_request:
  assumes "\<And>a. a \<in> set as \<Longrightarrow> 0 \<notin> set a"
  shows "takeWhile (\<lambda>b. b \<noteq> 0) (take 11 (take 12 (request as) @ m)) = take 11 (hd (as @ [END_bytes]))"
proof -
  have "0 \<notin> set (hd (as @ [END_bytes]))" using assms by (cases as) (auto simp: END_bytes_def)
  from takeWhile_first [OF this] show ?thesis by (metis request_first)
qed

context loopback
begin

lemma served_write:
  assumes "\<And>d w. fst (fst (sys_write K a d w)) = int (length d)"
  shows "\<exists>e w. sys_write (served K sched) a d S = ((int (length d), e), S\<lparr>kern := w\<rparr>) \<and> delivered a d (kern S) w"
proof -
  obtain e w where w: "sys_write K a d (kern S) = ((int (length d), e), w)"
    using assms [of d "kern S"] by (metis prod.collapse)
  then have "sys_write (served K sched) a d S = ((int (length d), e), S\<lparr>kern := w\<rparr>)"
    by (simp add: served_calls lift_call_def)
  with write_whole [OF w] show ?thesis by blast
qed

lemma served_args:
  assumes "\<And>x. x \<in> set as \<Longrightarrow> 0 \<notin> set x" and full: "\<And>d w. fst (fst (sys_write K a d w)) = int (length d)"
  shows "\<exists>w. kern (send_args (served K sched) a (map c_string as) s) = (kern s)\<lparr>kern := w\<rparr>
    \<and> delivered a (concat (map c_string as)) (kern (kern s)) w"
  using assms(1)
proof (induction as arbitrary: s)
  case Nil
  show ?case by (rule exI [of _ "kern (kern s)"]) (simp add: delivered_Nil)
next
  case (Cons x as)
  let ?s = "printf_s ''writing param: '' (c_string x) s"
  have ks: "kern ?s = kern s" by (simp add: printf_s_def)
  from served_write [OF full, where d = "c_string x" and S = "kern s"] obtain e w where
    w: "sys_write (served K sched) a (c_string x) (kern s) = ((int (length (c_string x)), e), (kern s)\<lparr>kern := w\<rparr>)"
    "delivered a (c_string x) (kern (kern s)) w" by blast
  let ?s1 = "snd (syscall (sys_write (served K sched) a (c_string x)) ?s)"
  have s1: "fst (syscall (sys_write (served K sched) a (c_string x)) ?s) = int (length (c_string x))"
    "kern ?s1 = (kern s)\<lparr>kern := w\<rparr>"
    by (simp_all add: syscall_fst syscall_kern ks w(1))
  have step: "send_args (served K sched) a (map c_string (x # as)) s = send_args (served K sched) a (map c_string as) ?s1"
    using s1(1) c_string_whole [of x "[]"] Cons.prems by (simp add: case_prod_beta)
  from Cons.IH [of ?s1] Cons.prems obtain w' where
    "kern (send_args (served K sched) a (map c_string as) ?s1) = (kern ?s1)\<lparr>kern := w'\<rparr>"
    "delivered a (concat (map c_string as)) (kern (kern ?s1)) w'" by auto
  with step s1(2) delivered_trans [OF w(2), of "concat (map c_string as)" w'] show ?case
    by (intro exI [of _ w']) simp
qed

lemma served_read_echo:
  assumes "\<And>d w. fst (fst (sys_write K b d w)) = int (length d)" and "b \<noteq> -1" and "a \<noteq> b"
    and "transit pending peer a b msg [] S" and "msg \<noteq> []" and "hears_readable K a b S (sched S)"
  shows "\<exists>e S'. sys_read (served K sched) a (Suc n) S =
    ((int (min (Suc n) (length msg)), e, take (Suc n) msg), S')"
proof -
  obtain c e d w where sys: "sys_read K a (Suc n) (kern S) = ((c, e, d), w)" by (metis surj_pair)
  from assms(4) have "pending (kern S) a = []" "peer (kern S) a = Some b" by (simp_all add: transit_def connected_def)
  with read_waits [OF sys this] would_block [OF sys] sys have wb: "would_block K a (Suc n) (kern S)"
    by (simp add: would_block_def)
  from transit_heard [OF assms(1-3,6,4)] have t: "pending (kern (sched S)) a = msg" by (simp add: transit_def)
  obtain c e d w where rd: "sys_read K a (Suc n) (kern (sched S)) = ((c, e, d), w)" by (metis surj_pair)
  from available [OF rd] t assms(5) have c: "c = int (min (Suc n) (length msg))" by simp
  then have c0: "0 \<le> c" by simp
  have p: "pending (kern (sched S)) a = d @ pending w a" using read_pending [OF rd, of a] c0 by (simp only: if_True simp_thms)
  have m: "msg = d @ pending w a" "length d = nat c" using p t read_data [OF rd c0] by (simp_all only:)
  have "take (nat c) msg = d" by (subst m(1)) (simp add: m(2))
  then have "d = take (Suc n) msg" using c by (simp add: min_def split: if_splits)
  with wb rd c show ?thesis by (simp add: served_calls served_read_def lift_call_def)
qed

end

section \<open>Properties\<close>

text \<open>
  C18. The C client with the echo server. While the client waits for its answer, the listening thread may handle any
  events, the hang-up or failure of this connection excepted; when one of them reports the connection as readable,
  and not as writable at the same time, the session ends well, and the result that the client prints is its own first
  argument, cut to 11 characters, or \<^verbatim>\<open>END\<close> when it has no arguments; provided the connection is idle at the
  beginning, its two ends take every write whole, and the arguments are strings.
\<close>

theorem C_client_echoed:
  assumes "loopback K pending peer"
    and "\<And>d w. fst (fst (sys_write K a d w)) = int (length d)" and "\<And>d w. fst (fst (sys_write K b d w)) = int (length d)"
    and "b \<noteq> -1" and "a \<noteq> b" and "fd_no (listen_sock (kern s)) \<noteq> b"
    and "connected peer a b (kern (kern s))"
    and "pending (kern (kern s)) a = []" and "pending (kern (kern s)) b = []"
    and "\<And>S. fd_no (listen_sock S) \<noteq> b \<Longrightarrow> hears_readable K a b S (sched S)"
    and "\<And>x. x \<in> set as \<Longrightarrow> 0 \<notin> set x" and "length junk = BUFFER_SIZE"
  shows "\<exists>s'. C_client_session (served K sched) a (map c_string (prog # as)) junk s = (EXIT_SUCCESS, s')
    \<and> last (stdout s') = map of_char ''Result = '' @ take 11 (hd (as @ [END_bytes])) @ [10]"
proof -
  have args: "drop 1 (map c_string (prog # as)) = map c_string as" by simp
  let ?s1 = "send_args (served K sched) a (map c_string as) s"
  from loopback.served_args [OF assms(1,11,2)] obtain w1 where w1: "kern ?s1 = (kern s)\<lparr>kern := w1\<rparr>"
    "loopback.delivered pending peer a (concat (map c_string as)) (kern (kern s)) w1" by blast
  from loopback.served_write [OF assms(1,2), where S = "kern ?s1" and d = "c_string END_bytes" and sched = sched]
  obtain e w2 where w2: "sys_write (served K sched) a (c_string END_bytes) (kern ?s1) =
      ((int (length (c_string END_bytes)), e), (kern ?s1)\<lparr>kern := w2\<rparr>)"
    "loopback.delivered pending peer a (c_string END_bytes) (kern (kern ?s1)) w2" by blast
  let ?S = "(kern ?s1)\<lparr>kern := w2\<rparr>"
  have "loopback.delivered pending peer a (request as) (kern (kern s)) w2"
    using loopback.delivered_trans [OF assms(1) w1(2), of "c_string END_bytes" w2] w2(2) w1(1)
    by (simp add: request_def)
  then have S: "transit pending peer a b (request as) [] ?S"
    using assms(5-9) w1(1) by (auto simp: loopback.delivered_def [OF assms(1)] transit_def connected_def)
  then have h: "hears_readable K a b ?S (sched ?S)" by (intro assms(10)) (simp add: transit_def)
  have ne: "request as \<noteq> []" by (simp add: request_def c_string_def)
  have twelve: "BUFFER_SIZE = Suc 11" by (simp add: BUFFER_SIZE_def)
  obtain e3 S' where rd: "sys_read (served K sched) a BUFFER_SIZE ?S =
      ((int (min BUFFER_SIZE (length (request as))), e3, take BUFFER_SIZE (request as)), S')"
    using loopback.served_read_echo [OF assms(1,3-5) S ne, of sched 11] h unfolding twelve by blast
  let ?c = "min BUFFER_SIZE (length (request as))" and ?buf = "c_string END_bytes @ drop 4 junk"
  have "length (take BUFFER_SIZE (request as) @ drop ?c ?buf) = BUFFER_SIZE"
    using assms(12) by (simp add: c_string_def END_bytes_def BUFFER_SIZE_def)
  from c_string_of_buffer [OF this] takeWhile_request [OF assms(11), of as "drop ?c ?buf"]
  have "takeWhile (\<lambda>b. b \<noteq> 0) ((take BUFFER_SIZE (request as) @ drop ?c ?buf)[BUFFER_SIZE - 1 := 0]) =
      take 11 (hd (as @ [END_bytes]))" by (simp add: BUFFER_SIZE_def)
  moreover have "take ?c (take BUFFER_SIZE (request as)) = take BUFFER_SIZE (request as)" by (simp add: min_def)
  ultimately show ?thesis
    using C_client_session_runs [of "served K sched" a "map c_string (prog # as)" s, unfolded args, of _ e3 _ S' junk]
      w2(1) rd by (simp add: c_string_def END_bytes_def)
qed

definition echo_process :: "loop server process" where
  "echo_process = \<lparr>kern = server.truncate (ms_server demo_connected), errno = 0, stdout = []\<rparr>"

definition echo_sched :: "loop server \<Rightarrow> loop server" where
  "echo_sched S = snd (handle_event loop_kernel (my_listener loop_kernel) \<lparr>ev_fd = 8, ev_events = EPOLLIN\<rparr> S)"

theorem C_client_echoed_witness:
  "\<exists>s'. C_client_session (served loop_kernel echo_sched) 7 (map c_string [[99], [104, 105]]) (replicate 12 255) echo_process = (EXIT_SUCCESS, s')
    \<and> last (stdout s') = map of_char ''Result = '' @ [104, 105] @ [10]"
proof -
  have k: "kern (kern echo_process) = paired" "fd_no (listen_sock (kern echo_process)) = 3"
    by (simp_all add: echo_process_def server.truncate_def demo_connected_def ThreadedServer_new_def server.extend_def Let_def)
  have full: "fst (fst (sys_write loop_kernel f d w)) = int (length d)" for f d w
    by (simp add: loop_kernel_def loop_write_def)
  have h: "hears_readable loop_kernel 7 8 S (echo_sched S)" if "fd_no (listen_sock S) \<noteq> 8" for S :: "loop server"
    using hears [OF that] by (simp add: echo_sched_def)
  have c: "connected lp_peer 7 8 (kern (kern echo_process))" by (simp add: k connected_def paired_def)
  have "\<exists>s'. C_client_session (served loop_kernel echo_sched) 7 (map c_string ([99] # [[104, 105]])) (replicate 12 255) echo_process = (EXIT_SUCCESS, s')
    \<and> last (stdout s') = map of_char ''Result = '' @ take 11 (hd ([[104, 105]] @ [END_bytes])) @ [10]"
    by (rule C_client_echoed [OF loop.loopback_axioms full full _ _ _ c _ _ h]) (simp_all add: k paired_def BUFFER_SIZE_def)
  then show ?thesis by simp
qed

end
