(* ===== verification/Edge_Triggered.thy ===== *)
theory Edge_Triggered
  imports Main_Program
begin

text \<open>
  Connections are watched edge-triggered (\<^verbatim>\<open>EPOLLET\<close> in \<^verbatim>\<open>IGenericServer::listen\<close>): the kernel reports a
  connection when data arrives, not for as long as there is data. This theory takes the loop of
  \<^verbatim>\<open>IGenericServer::read\<close> apart into its \<^verbatim>\<open>read(2)\<close> calls, lets data arrive between any two of them, and shows
  that a callback that calls \<^verbatim>\<open>read\<close> on each event leaves no input behind, and that one that calls
  \<^verbatim>\<open>read_one_buffer\<close> can. One thread serves the events, as under a plain \<^verbatim>\<open>IGenericServer\<close> or a \<^verbatim>\<open>ThreadedServer\<close>.
\<close>

section \<open>Definitions\<close>

text \<open>
  One pass of the loop of \<^verbatim>\<open>read\<close> with the buffers read before: \<open>Inl\<close> when the loop is left with the
  buffers to return, \<open>Inr\<close> when it goes on.
\<close>

definition read_turn ::
  "'w kernel \<Rightarrow> fd \<Rightarrow> nat \<Rightarrow> byte list list \<Rightarrow> ('w, 'z) server_scheme
    \<Rightarrow> (byte list list + byte list list) \<times> ('w, 'z) server_scheme" where
  "read_turn K fd n result s =
     (let (c, d, s1) = syscall_out (sys_read K fd (read_size n)) s in
      (if c = -1 \<and> (errno s1 = EAGAIN \<or> errno s1 = EWOULDBLOCK) then Inl result
       else if c = -1 then Inl (result @ [filled n [] n])
       else if c = 0 then Inl result
       else Inr (result @ [filled n d (nat c)]), s1))"

text \<open>What a callback runs for a readable connection: a start, and the passes of a loop.\<close>

record 'w reader =
  rd_start :: "fd \<Rightarrow> 'w server \<Rightarrow> 'w server"
  rd_turn :: "fd \<Rightarrow> byte list list \<Rightarrow> 'w server \<Rightarrow> (byte list list + byte list list) \<times> 'w server"

definition read_reader :: "'w kernel \<Rightarrow> nat \<Rightarrow> 'w reader" where
  "read_reader K n = \<lparr>rd_start = set_IO, rd_turn = (\<lambda>f. read_turn K f n)\<rparr>"

definition one_buffer_reader :: "'w kernel \<Rightarrow> nat \<Rightarrow> 'w reader" where
  "one_buffer_reader K n = \<lparr>rd_start = (\<lambda>f s. s),
     rd_turn = (\<lambda>f result s. let (b, s1) = read_one_buffer K f n s in (Inl (result @ [b]), s1))\<rparr>"

text \<open>
  The server with the connections that \<^verbatim>\<open>epoll_wait\<close> has still to report (\<open>edges\<close>) and the connection being
  read with the buffers so far (\<open>reading\<close>). \<open>arrived\<close> and \<open>handed\<close> record all the input of a connection and
  what the callback has been given of it.
\<close>

record 'w watched =
  et_server :: "'w server"
  edges :: "fd set"
  reading :: "(fd \<times> byte list list) option"
  arrived :: "fd \<Rightarrow> byte list"
  handed :: "fd \<Rightarrow> byte list"

inductive et_serve :: "'w reader \<Rightarrow> 'w watched \<Rightarrow> 'w watched \<Rightarrow> bool" for R where
  take_edge: "reading s = None \<Longrightarrow> f \<in> edges s \<Longrightarrow>
    et_serve R s (s\<lparr>et_server := rd_start R f (et_server s), edges := edges s - {f}, reading := Some (f, [])\<rparr>)"
| turn_on: "reading s = Some (f, r) \<Longrightarrow> rd_turn R f r (et_server s) = (Inr r', v) \<Longrightarrow>
    et_serve R s (s\<lparr>et_server := v, reading := Some (f, r')\<rparr>)"
| turn_end: "reading s = Some (f, r) \<Longrightarrow> rd_turn R f r (et_server s) = (Inl r', v) \<Longrightarrow>
    et_serve R s (s\<lparr>et_server := v, reading := None, handed := (handed s)(f := handed s f @ concat r')\<rparr>)"

text \<open>Data that arrives is queued on the connection, and an event for it.\<close>

inductive et_arrive :: "('w \<Rightarrow> fd \<Rightarrow> byte list) \<Rightarrow> 'w watched \<Rightarrow> 'w watched \<Rightarrow> bool" for pending where
  "pending w' = (pending (kern (et_server s)))(f := pending (kern (et_server s)) f @ d) \<Longrightarrow>
   et_arrive pending s (s\<lparr>et_server := (et_server s)\<lparr>kern := w'\<rparr>, edges := insert f (edges s),
     arrived := (arrived s)(f := arrived s f @ d)\<rparr>)"

definition et_step :: "'w reader \<Rightarrow> ('w \<Rightarrow> fd \<Rightarrow> byte list) \<Rightarrow> 'w watched \<Rightarrow> 'w watched \<Rightarrow> bool" where
  "et_step R pending s t \<longleftrightarrow> et_serve R s t \<or> et_arrive pending s t"

text \<open>At the start, the connections that were registered with input waiting have their event.\<close>

definition et_init :: "('w \<Rightarrow> fd \<Rightarrow> byte list) \<Rightarrow> 'w watched \<Rightarrow> bool" where
  "et_init pending s \<longleftrightarrow> finite (edges s) \<and> reading s = None \<and> handed s = (\<lambda>f. [])
     \<and> arrived s = pending (kern (et_server s)) \<and> (\<forall>f. pending (kern (et_server s)) f \<noteq> [] \<longrightarrow> f \<in> edges s)"

text \<open>The input that the running \<^verbatim>\<open>read\<close> has already taken from the kernel.\<close>

definition in_hand :: "'w watched \<Rightarrow> fd \<Rightarrow> byte list" where
  "in_hand s f = (case reading s of Some (g, r) \<Rightarrow> if g = f then concat r else [] | None \<Rightarrow> [])"

definition et_inv :: "('w \<Rightarrow> fd \<Rightarrow> byte list) \<Rightarrow> 'w watched \<Rightarrow> bool" where
  "et_inv pending s \<longleftrightarrow> finite (edges s)
     \<and> (\<forall>f. handed s f @ in_hand s f @ pending (kern (et_server s)) f = arrived s f)
     \<and> (\<forall>f. pending (kern (et_server s)) f = [] \<or> f \<in> edges s \<or> (\<exists>r. reading s = Some (f, r)))"

inductive_cases et_serveE: "et_serve R s t"
inductive_cases et_arriveE: "et_arrive pending s t"

section \<open>The loop and its passes\<close>

lemma read_loop_turn:
  "read_loop K fd n result s = (case read_turn K fd n result s of
     (Inl r, s1) \<Rightarrow> Some (r, s1) | (Inr r, s1) \<Rightarrow> read_loop K fd n r s1)"
  by (simp add: read_loop.simps [of K fd n result s] read_turn_def split: prod.split)

lemma read_loop_steps:
  assumes "read_loop K f n r (v :: 'w server) = Some (r', v')"
    and "reading s = Some (f, r)" and "et_server s = v"
  shows "(et_serve (read_reader K n))\<^sup>*\<^sup>* s
    (s\<lparr>et_server := v', reading := None, handed := (handed s)(f := handed s f @ concat r')\<rparr>)"
proof -
  have "\<forall>s. reading s = Some (f, r) \<longrightarrow> et_server s = v \<longrightarrow> (et_serve (read_reader K n))\<^sup>*\<^sup>* s
      (s\<lparr>et_server := snd (r', v'), reading := None, handed := (handed s)(f := handed s f @ concat (fst (r', v')))\<rparr>)"
  proof (rule read_loop.raw_induct [where P = "\<lambda>K f n r v q. \<forall>s. reading s = Some (f, r) \<longrightarrow> et_server s = v \<longrightarrow>
      (et_serve (read_reader K n))\<^sup>*\<^sup>* s
      (s\<lparr>et_server := snd q, reading := None, handed := (handed s)(f := handed s f @ concat (fst q))\<rparr>)", OF _ assms(1)],
      intro allI impI)
    fix rec K f n r q and v :: "'w server" and s :: "'w watched"
    assume ih: "\<And>K f n r v q. rec K f n r v = Some q \<Longrightarrow> \<forall>s. reading s = Some (f, r) \<longrightarrow> et_server s = v \<longrightarrow>
        (et_serve (read_reader K n))\<^sup>*\<^sup>* s
        (s\<lparr>et_server := snd q, reading := None, handed := (handed s)(f := handed s f @ concat (fst q))\<rparr>)"
      and body: "(let (c, d, s1) = syscall_out (sys_read K f (read_size n)) v
        in if c = -1 \<and> (errno s1 = EAGAIN \<or> errno s1 = EWOULDBLOCK) then Some (r, s1)
        else if c = -1 then Some (r @ [filled n [] n], s1)
        else if c = 0 then Some (r, s1)
        else rec K f n (r @ [filled n d (nat c)]) s1) = Some q"
      and s: "reading s = Some (f, r)" "et_server s = v"
    from body have "case read_turn K f n r v of (Inl r1, v1) \<Rightarrow> q = (r1, v1) | (Inr r1, v1) \<Rightarrow> rec K f n r1 v1 = Some q"
      by (auto simp: read_turn_def split: prod.splits if_splits)
    then consider (last) r1 v1 where "read_turn K f n r v = (Inl r1, v1)" "q = (r1, v1)"
      | (more) r1 v1 where "read_turn K f n r v = (Inr r1, v1)" "rec K f n r1 v1 = Some q"
      by (cases "read_turn K f n r v"; cases "fst (read_turn K f n r v)") auto
    then show "(et_serve (read_reader K n))\<^sup>*\<^sup>* s
        (s\<lparr>et_server := snd q, reading := None, handed := (handed s)(f := handed s f @ concat (fst q))\<rparr>)"
    proof cases
      case last
      with s turn_end [of s f r "read_reader K n" r1 v1] show ?thesis by (auto simp: read_reader_def)
    next
      case more
      from s more(1) have "et_serve (read_reader K n) s (s\<lparr>et_server := v1, reading := Some (f, r1)\<rparr>)"
        by (intro turn_on) (simp_all add: read_reader_def)
      with ih [OF more(2), rule_format, of "s\<lparr>et_server := v1, reading := Some (f, r1)\<rparr>"] show ?thesis
        by (simp add: converse_rtranclp_into_rtranclp)
    qed
  qed
  with assms(2,3) show ?thesis by simp
qed

lemma read_serves:
  assumes "IGenericServer_read K f n (et_server s) = Some (r, v)" and "reading s = None" and "f \<in> edges s"
  shows "(et_serve (read_reader K n))\<^sup>*\<^sup>* s (s\<lparr>et_server := v, edges := edges s - {f},
    handed := (handed s)(f := handed s f @ concat r)\<rparr>)"
proof -
  let ?t = "s\<lparr>et_server := set_IO f (et_server s), edges := edges s - {f}, reading := Some (f, [])\<rparr>"
  have "et_serve (read_reader K n) s ?t"
    using take_edge [OF assms(2,3), of "read_reader K n"] by (simp add: read_reader_def)
  moreover from assms(1) have "(et_serve (read_reader K n))\<^sup>*\<^sup>* ?t
      (?t\<lparr>et_server := v, reading := None, handed := (handed ?t)(f := handed ?t f @ concat r)\<rparr>)"
    by (intro read_loop_steps [of K f n "[]" "set_IO f (et_server s)" r v]) (simp_all add: IGenericServer_read_def)
  moreover have "s\<lparr>et_server := v, edges := edges s - {f}, handed := (handed s)(f := handed s f @ concat r)\<rparr> =
      ?t\<lparr>et_server := v, reading := None, handed := (handed ?t)(f := handed ?t f @ concat r)\<rparr>"
    using assms(2) by simp
  ultimately show ?thesis by (metis converse_rtranclp_into_rtranclp)
qed

section \<open>Non-blocking sockets with input\<close>

context available_read
begin

lemma read_turn_more:
  assumes "pending (kern v) f \<noteq> []" and "0 < n" "n < 2 ^ 31"
  shows "\<exists>d v'. read_turn K f n r v = (Inr (r @ [d]), v') \<and> d \<noteq> []
    \<and> pending (kern v) = (pending (kern v'))(f := d @ pending (kern v') f)"
proof -
  obtain c e d w where sys: "sys_read K f n (kern v) = ((c, e, d), w)" by (metis surj_pair)
  from available [OF sys assms(1)] assms(1,2) have c: "0 < c" by auto
  with read_data [OF sys] have d: "length d = nat c" "d \<noteq> []" by auto
  from read_pending [OF sys] c have "pending (kern v) = (pending w)(f := d @ pending w f)"
    by (auto simp: fun_eq_iff)
  with sys c d assms(3) show ?thesis
    by (intro exI [of _ d] exI [of _ "snd (snd (syscall_out (sys_read K f n) v))"])
      (simp add: read_turn_def syscall_out_def filled_full)
qed

lemma read_turn_last:
  assumes "pending (kern v) f = []" and "n < 2 ^ 31"
  shows "\<exists>v'. read_turn K f n r v = (Inl r, v') \<and> pending (kern v') = pending (kern v)"
proof -
  obtain c e d w where sys: "sys_read K f n (kern v) = ((c, e, d), w)" by (metis surj_pair)
  from read_pending [OF sys, of f] assms(1) have "0 \<le> c \<Longrightarrow> d = []" by simp
  with read_data [OF sys] read_range [OF sys] have c: "c = -1 \<or> c = 0" and "0 \<le> c \<Longrightarrow> d = []"
    by (cases "0 \<le> c"; force)+
  with read_pending [OF sys] have "pending w = pending (kern v)" by (auto simp: fun_eq_iff)
  with sys c would_block [OF sys] assms(2) show ?thesis
    by (intro exI [of _ "snd (snd (syscall_out (sys_read K f n) v))"]) (auto simp: read_turn_def syscall_out_def)
qed

lemma et_inv_init: "et_init pending s \<Longrightarrow> et_inv pending s"
  by (auto simp: et_init_def et_inv_def in_hand_def)

lemma et_inv_arrive: "et_inv pending s \<Longrightarrow> et_arrive pending s t \<Longrightarrow> et_inv pending t"
  by (erule et_arriveE) (auto simp: et_inv_def in_hand_def split: option.splits)

lemma et_inv_serve:
  assumes "0 < n" "n < 2 ^ 31" and "et_inv pending s" and "et_serve (read_reader K n) s t"
  shows "et_inv pending t"
  using assms(4)
proof (cases rule: et_serve.cases)
  case (take_edge f)
  with assms(3) show ?thesis by (auto simp: et_inv_def in_hand_def read_reader_def)
next
  case (turn_on f r r' v)
  then have turn: "read_turn K f n r (et_server s) = (Inr r', v)" by (simp add: read_reader_def)
  with read_turn_last [OF _ assms(2), of "et_server s" f r] have "pending (kern (et_server s)) f \<noteq> []" by auto
  from read_turn_more [OF this assms(1,2), of r] turn obtain d where d: "r' = r @ [d]"
    "pending (kern (et_server s)) = (pending (kern v))(f := d @ pending (kern v) f)" by auto
  with turn_on assms(3) show ?thesis by (auto simp: et_inv_def in_hand_def split: if_splits)
next
  case (turn_end f r r' v)
  then have turn: "read_turn K f n r (et_server s) = (Inl r', v)" by (simp add: read_reader_def)
  with read_turn_more [OF _ assms(1,2), of "et_server s" f r] have p: "pending (kern (et_server s)) f = []" by auto
  from read_turn_last [OF this assms(2), of r] turn have "r' = r" "pending (kern v) = pending (kern (et_server s))" by auto
  moreover have "arrived s g = handed s g @ in_hand s g @ pending (kern (et_server s)) g" for g
    using assms(3) by (simp add: et_inv_def)
  ultimately show ?thesis using turn_end p assms(3) by (auto simp: et_inv_def in_hand_def)
qed

text \<open>Without new data, taking an event leaves fewer of them and a pass of the loop less input.\<close>

definition et_rank :: "'w watched \<Rightarrow> nat \<times> nat" where
  "et_rank s = (card (edges s),
     case reading s of None \<Rightarrow> 0 | Some (f, r) \<Rightarrow> Suc (length (pending (kern (et_server s)) f)))"

lemma et_serve_rank:
  assumes "0 < n" "n < 2 ^ 31" and "finite (edges s)" and "et_serve (read_reader K n) s t"
  shows "(et_rank t, et_rank s) \<in> less_than <*lex*> less_than"
  using assms(4)
proof (cases rule: et_serve.cases)
  case (take_edge f)
  with card_Diff1_less [OF assms(3)] show ?thesis by (auto simp: et_rank_def)
next
  case (turn_on f r r' v)
  then have turn: "read_turn K f n r (et_server s) = (Inr r', v)" by (simp add: read_reader_def)
  with read_turn_last [OF _ assms(2), of "et_server s" f r] have "pending (kern (et_server s)) f \<noteq> []" by auto
  from read_turn_more [OF this assms(1,2), of r] turn obtain d where d: "d \<noteq> []"
    "pending (kern (et_server s)) = (pending (kern v))(f := d @ pending (kern v) f)" by auto
  with turn_on show ?thesis by (auto simp: et_rank_def)
next
  case (turn_end f r r' v)
  then show ?thesis by (auto simp: et_rank_def)
qed

end

text \<open>A size of the buffers that is not zero and that fits an \<^verbatim>\<open>int\<close>.\<close>

locale edge_reader = available_read +
  fixes n :: nat
  assumes size_pos: "0 < n" and size_int: "n < 2 ^ 31"
begin

abbreviation serve :: "'a watched \<Rightarrow> 'a watched \<Rightarrow> bool" where
  "serve \<equiv> et_serve (read_reader K n)"

lemmas serve_inv = et_inv_serve [OF size_pos size_int]

lemma serve_steps_inv: "serve\<^sup>*\<^sup>* s t \<Longrightarrow> et_inv pending s \<Longrightarrow> et_inv pending t \<and> arrived t = arrived s"
proof (induction rule: rtranclp_induct)
  case (step t u)
  moreover from step.hyps(2) have "arrived u = arrived t" by (auto elim: et_serveE)
  ultimately show ?case by (auto intro: serve_inv)
qed simp

lemma serve_ends:
  assumes "et_inv pending (run 0)" and "\<And>i. serve (run i) (run (Suc i))"
  shows False
proof -
  have "et_inv pending (run i)" for i by (induction i) (auto intro: assms(1) serve_inv [OF _ assms(2)])
  then have "(et_rank (run (Suc i)), et_rank (run i)) \<in> less_than <*lex*> less_than" for i
    using et_serve_rank [OF size_pos size_int _ assms(2)] by (simp add: et_inv_def)
  moreover have "wf (less_than <*lex*> less_than)" by (simp add: wf_lex_prod)
  ultimately show False using wf_no_infinite_down_chainE [of _ "\<lambda>i. et_rank (run i)"] by blast
qed

lemma serve_idle:
  assumes "\<nexists>u. serve s u"
  shows "reading s = None" and "edges s = {}"
proof -
  show *: "reading s = None"
  proof (rule ccontr)
    assume "reading s \<noteq> None"
    then obtain f r where "reading s = Some (f, r)" by auto
    moreover obtain q v where "rd_turn (read_reader K n) f r (et_server s) = (q, v)" by (metis surj_pair)
    ultimately show False using assms turn_on turn_end by (cases q) blast+
  qed
  show "edges s = {}" using assms take_edge [OF *] by auto
qed

lemma serve_rests: "et_inv pending s \<Longrightarrow> \<exists>t. serve\<^sup>*\<^sup>* s t \<and> (\<nexists>u. serve t u)"
proof (induction "et_rank s" arbitrary: s rule: wf_induct_rule [OF wf_lex_prod [OF wf_less_than wf_less_than]])
  case 1
  show ?case
  proof (cases "\<exists>t. serve s t")
    case True
    then obtain t where t: "serve s t" by blast
    with 1(2) et_serve_rank [OF size_pos size_int _ t] have "(et_rank t, et_rank s) \<in> less_than <*lex*> less_than"
      by (simp add: et_inv_def)
    from 1(1) [OF this serve_inv [OF 1(2) t]] t show ?thesis by (meson converse_rtranclp_into_rtranclp)
  qed blast
qed

lemma idle_handed:
  assumes "et_inv pending s" and "\<nexists>u. serve s u"
  shows "handed s = arrived s"
proof
  fix f
  from assms(1) serve_idle [OF assms(2)] have "pending (kern (et_server s)) f = []" by (auto simp: et_inv_def)
  moreover from assms(1) have "handed s f @ in_hand s f @ pending (kern (et_server s)) f = arrived s f"
    by (simp add: et_inv_def)
  ultimately show "handed s f = arrived s f" using serve_idle(1) [OF assms(2)] by (simp add: in_hand_def)
qed

end

sublocale edge_reader \<subseteq> edge: inductive_invariant "et_init pending" "et_step (read_reader K n) pending" "et_inv pending"
  by unfold_locales (auto simp: et_step_def intro: et_inv_init et_inv_arrive serve_inv)

context edge_reader
begin

lemmas reachable_et_inv = edge.reachable_inv

end

text \<open>The connections of the reference kernel are such sockets, here at the buffer size of the callback.\<close>

interpretation loop_edge: edge_reader loop_kernel lp_inp 4096
  by unfold_locales simp_all

text \<open>A server of the reference kernel with one connection, on which data arrives.\<close>

definition loop_server :: "byte list \<Rightarrow> loop server" where
  "loop_server d = \<lparr>kern = (kern loop0)\<lparr>lp_inp := (\<lambda>_. [])(5 := d), lp_peer := [5 \<mapsto> 6, 6 \<mapsto> 5]\<rparr>, errno = 0,
     listen_sock = \<lparr>fd_name = ''listen_sock'', fd_no = 3\<rparr>,
     epollfd = \<lparr>fd_name = ''epollfd'', fd_no = 4\<rparr>, incoming_conn_fd = {5}, stop_server = False,
     is_listening = True, commandPipe = \<lparr>pipe_rd = 1, pipe_wr = 2\<rparr>, backlog = 10,
     activeConnections = 1, socketList = [], is_socket_IO = Map.empty, use_smart_close = True\<rparr>"

definition loop_watch :: "byte list \<Rightarrow> loop watched" where
  "loop_watch d = \<lparr>et_server = loop_server d, edges = {5}, reading = None,
     arrived = (\<lambda>_. [])(5 := d), handed = (\<lambda>_. [])\<rparr>"

lemma loop_watch_reachable: "reachable (et_init lp_inp) (et_step R lp_inp) (loop_watch d)"
proof (rule reach_step)
  show "reachable (et_init lp_inp) (et_step R lp_inp) ((loop_watch [])\<lparr>edges := {}\<rparr>)"
    by (rule reach_init) (auto simp: et_init_def loop_watch_def loop_server_def loop0_def)
  show "et_step R lp_inp ((loop_watch [])\<lparr>edges := {}\<rparr>) (loop_watch d)"
    using et_arrive.intros [of lp_inp "kern (loop_server d)" "(loop_watch [])\<lparr>edges := {}\<rparr>" 5 d]
    by (simp add: et_step_def loop_watch_def loop_server_def)
qed

section \<open>Properties\<close>

text \<open>
  C8. Connections are watched edge-triggered, so that input that is not read is not reported again. A callback
  that calls \<^verbatim>\<open>IGenericServer::read\<close> on each event leaves none behind, whenever data arrives, also between two
  \<^verbatim>\<open>read(2)\<close> calls: from every reachable state, once no more data arrives, the server comes to rest, and when it
  rests the callback has been given all the input of every connection, in order.
\<close>

theorem edge_triggered_input_handed:
  assumes "available_read K pending" and "0 < n" and "n < 2 ^ 31"
    and "reachable (et_init pending) (et_step (read_reader K n) pending) s"
  shows "(\<nexists>run. run 0 = s \<and> (\<forall>i. et_serve (read_reader K n) (run i) (run (Suc i))))
    \<and> (\<forall>t. (et_serve (read_reader K n))\<^sup>*\<^sup>* s t \<and> (\<nexists>u. et_serve (read_reader K n) t u) \<longrightarrow> handed t = arrived s)"
proof -
  have r: "edge_reader K pending n"
    using assms(1-3) by (simp add: edge_reader_def edge_reader_axioms_def)
  have inv: "et_inv pending s"
    by (rule edge_reader.reachable_et_inv [OF r assms(4)])
  show ?thesis
    using edge_reader.serve_ends [OF r] edge_reader.serve_steps_inv [OF r _ inv] edge_reader.idle_handed [OF r] inv by metis
qed

theorem edge_triggered_input_handed_witness:
  "reachable (et_init lp_inp) (et_step (read_reader loop_kernel 4096) lp_inp) (loop_watch [7, 8])
   \<and> (\<exists>t. (et_serve (read_reader loop_kernel 4096))\<^sup>*\<^sup>* (loop_watch [7, 8]) t
     \<and> (\<nexists>u. et_serve (read_reader loop_kernel 4096) t u) \<and> handed t 5 = [7, 8])"
proof -
  note r = loop_watch_reachable [of "read_reader loop_kernel 4096" "[7, 8]"]
  have n: "0 < (4096::nat)" "(4096::nat) < 2 ^ 31" by simp_all
  from loop_edge.serve_rests [OF loop_edge.reachable_et_inv [OF r]] obtain t where
    t: "(et_serve (read_reader loop_kernel 4096))\<^sup>*\<^sup>* (loop_watch [7, 8]) t" "\<nexists>u. et_serve (read_reader loop_kernel 4096) t u"
    by blast
  with edge_triggered_input_handed [OF edge_reader.axioms(1) [OF loop_edge.edge_reader_axioms] n r] have "handed t = arrived (loop_watch [7, 8])" by blast
  with r t show ?thesis by (auto simp: loop_watch_def)
qed

text \<open>
  One \<^verbatim>\<open>read_one_buffer\<close> for each event is not enough on an edge-triggered connection: when there is more input than
  the buffer holds, the callback gets the first part of it, and then the server rests, with the other part in the
  kernel and no event that will report it.
\<close>

lemma read_one_buffer_strands:
  assumes "available_read K pending" and "reading s = None" and "edges s = {f}"
    and "n < length (pending (kern (et_server s)) f)"
  shows "\<exists>t. (et_serve (one_buffer_reader K n))\<^sup>*\<^sup>* s t \<and> (\<nexists>u. et_serve (one_buffer_reader K n) t u)
     \<and> handed t f = handed s f @ take n (pending (kern (et_server s)) f)
     \<and> pending (kern (et_server t)) f = drop n (pending (kern (et_server s)) f)"
proof -
  let ?R = "one_buffer_reader K n" and ?d = "pending (kern (et_server s)) f"
  let ?t = "s\<lparr>edges := {}, reading := Some (f, [])\<rparr>"
  obtain c e d w where sys: "sys_read K f n (kern (et_server s)) = ((c, e, d), w)" by (metis surj_pair)
  from assms(4) have "?d \<noteq> []" by auto
  from available_read.available [OF assms(1) sys this] assms(4) have c: "c = int n" by simp
  have rs: "read_syscall K pending" using assms(1) by (rule available_read.axioms)
  from c read_syscall.read_data [OF rs sys] read_syscall.read_pending [OF rs sys, of f]
  have d: "length d = n" "?d = d @ pending w f" by simp_all
  from d(1) have "take n (d @ pending w f) = d" "drop n (d @ pending w f) = pending w f" by simp_all
  then have dw: "d = take n ?d" "pending w f = drop n ?d" unfolding d(2) [symmetric] by simp_all
  obtain v where v: "read_one_buffer K f n (et_server s) = (d, v)" "kern v = w"
    using sys c d(1) by (simp add: read_one_buffer_def syscall_out_def filled_full)
  let ?u = "?t\<lparr>et_server := v, reading := None, handed := (handed ?t)(f := handed ?t f @ concat ([] @ [d]))\<rparr>"
  have "et_serve ?R s ?t"
    using take_edge [of s f ?R] assms(2,3) by (simp add: one_buffer_reader_def)
  moreover have "et_serve ?R ?t ?u"
    by (rule turn_end [of _ _ "[]"]) (simp_all add: one_buffer_reader_def v)
  ultimately have "(et_serve ?R)\<^sup>*\<^sup>* s ?u" by (meson converse_rtranclp_into_rtranclp r_into_rtranclp)
  moreover have "\<nexists>w. et_serve ?R ?u w" by (auto elim!: et_serveE)
  ultimately show ?thesis using dw v(2) by (intro exI [of _ ?u]) simp
qed

end
