(* ===== verification/Write_Heap.thy ===== *)
theory Write_Heap
  imports ThreadedServer2
begin

text \<open>
  The write queues of \<^verbatim>\<open>ThreadedServer2\<close> with the memory their items point to. A \<^verbatim>\<open>WriteItem\<close> is a pointer into
  a block from \<^verbatim>\<open>malloc\<close> and a size, as in \<^verbatim>\<open>SocketData.h\<close>; the queues of \<open>ThreadedServer2\<close>, whose items are the bytes
  themselves, are the abstraction. The operations on pointers implement those on bytes, and no block is ever
  given back.
\<close>

section \<open>Definitions\<close>

type_synonym addr = nat

record heap =
  h_next :: addr
  h_blocks :: "addr \<rightharpoonup> byte list"

text \<open>A pointer is a block and an offset in it.\<close>

record write_item_c =
  wi_block :: addr
  wi_offset :: nat
  wi_size :: nat

text \<open>The source does not test the result of \<^verbatim>\<open>malloc\<close>; here the allocation succeeds.\<close>

definition malloc :: "nat \<Rightarrow> heap \<Rightarrow> addr \<times> heap" where
  "malloc n h = (h_next h, h\<lparr>h_next := h_next h + 1, h_blocks := (h_blocks h)(h_next h \<mapsto> replicate n 0)\<rparr>)"

definition memcpy :: "addr \<Rightarrow> byte list \<Rightarrow> heap \<Rightarrow> heap" where
  "memcpy p d h = (case h_blocks h p of None \<Rightarrow> h
     | Some b \<Rightarrow> h\<lparr>h_blocks := (h_blocks h)(p \<mapsto> d @ drop (length d) b)\<rparr>)"

text \<open>The bytes an item stands for.\<close>

definition item_bytes :: "heap \<Rightarrow> write_item_c \<Rightarrow> byte list" where
  "item_bytes h i = (case h_blocks h (wi_block i) of None \<Rightarrow> []
     | Some b \<Rightarrow> take (wi_size i) (drop (wi_offset i) b))"

definition add_to_write_queue :: "byte list \<Rightarrow> write_item_c list \<Rightarrow> heap \<Rightarrow> write_item_c list \<times> heap" where
  "add_to_write_queue data q h =
     (let (p, h1) = malloc (length data) h; h2 = memcpy p data h1
      in (push_front \<lparr>wi_block = p, wi_offset = 0, wi_size = length data\<rparr> q, h2))"

definition write_critical_section_c ::
  "(fd \<Rightarrow> byte list \<Rightarrow> 's \<Rightarrow> int \<times> errno \<times> 's) \<Rightarrow> fd \<Rightarrow> byte list \<Rightarrow> write_item_c list \<Rightarrow> heap \<Rightarrow> 's
    \<Rightarrow> int \<times> write_item_c list \<times> heap \<times> 's" where
  "write_critical_section_c server_write fd data q h s =
     (let original_data_size = int (length data);
          queue = (\<lambda>d s. let (q1, h1) = add_to_write_queue d q h in (original_data_size, q1, h1, s)) in
      if q = [] then
        (let (bytesWritten, e, s1) = server_write fd data s in
         if bytesWritten = int (length data) then (bytesWritten, q, h, s1)
         else if bytesWritten = -1 then queue data s1
         else if bytesWritten < int (length data) then queue (drop (nat bytesWritten) data) s1
         else queue data s1)
      else queue data s)"

text \<open>An item that was written in part is put back with its pointer moved.\<close>

definition write_holding_lock_c ::
  "(fd \<Rightarrow> byte list \<Rightarrow> 's \<Rightarrow> int \<times> errno \<times> 's) \<Rightarrow> fd \<Rightarrow> write_item_c \<Rightarrow> write_item_c list \<Rightarrow> heap \<Rightarrow> 's
    \<Rightarrow> int \<times> write_item_c list \<times> 's" where
  "write_holding_lock_c server_write fd item q h s =
     (let (bytesWritten, e, s1) = server_write fd (item_bytes h item) s in
      if bytesWritten = int (wi_size item) then (bytesWritten, q, s1)
      else if bytesWritten = -1 then (-1, push_back item q, s1)
      else if bytesWritten < int (wi_size item)
        then (-1, push_back (item\<lparr>wi_offset := wi_offset item + nat bytesWritten,
                                  wi_size := wi_size item - nat bytesWritten\<rparr>) q, s1)
      else (-1, push_back item q, s1))"

lemma write_holding_lock_c_popped:
  "write_holding_lock_c wr fd item q h s = (res, q', s') \<Longrightarrow> res \<noteq> -1 \<Longrightarrow> q' = q"
  by (auto simp: write_holding_lock_c_def Let_def split: prod.splits if_splits)

function drain_c ::
  "(fd \<Rightarrow> byte list \<Rightarrow> 's \<Rightarrow> int \<times> errno \<times> 's) \<Rightarrow> fd \<Rightarrow> write_item_c list \<Rightarrow> heap \<Rightarrow> 's
    \<Rightarrow> write_item_c list \<times> 's" where
  "drain_c server_write fd q h s =
     (case take_back q of
        None \<Rightarrow> (q, s)
      | Some (item, q1) \<Rightarrow>
          (let (res, q2, s2) = write_holding_lock_c server_write fd item q1 h s in
           if res = -1 then (q2, s2) else drain_c server_write fd q2 h s2))"
  by pat_completeness auto
termination
  by (relation "measure (\<lambda>(wr, fd, q, h, s). length q)")
    (auto dest!: write_holding_lock_c_popped length_take_back sym [of "(_, _, _)" "write_holding_lock_c _ _ _ _ _ _"])

declare drain_c.simps [simp del]

section \<open>Well-formed memory\<close>

definition item_ok :: "heap \<Rightarrow> write_item_c \<Rightarrow> bool" where
  "item_ok h i = (case h_blocks h (wi_block i) of None \<Rightarrow> False
     | Some b \<Rightarrow> wi_offset i + wi_size i \<le> length b)"

definition heap_ok :: "heap \<Rightarrow> bool" where
  "heap_ok h \<longleftrightarrow> (\<forall>p \<ge> h_next h. h_blocks h p = None)"

lemma length_item_bytes: "item_ok h i \<Longrightarrow> length (item_bytes h i) = wi_size i"
  by (auto simp: item_ok_def item_bytes_def split: option.splits)

lemma item_moved:
  assumes "item_ok h i" and "k \<le> wi_size i"
  shows "item_bytes h (i\<lparr>wi_offset := wi_offset i + k, wi_size := wi_size i - k\<rparr>) = drop k (item_bytes h i)"
    and "item_ok h (i\<lparr>wi_offset := wi_offset i + k, wi_size := wi_size i - k\<rparr>)"
  using assms by (auto simp: item_ok_def item_bytes_def drop_take add.commute split: option.splits)

text \<open>A new item, and what it does to the others.\<close>

lemma add_to_write_queue_new:
  assumes "heap_ok h" and "add_to_write_queue d q h = (q', h')"
  shows "\<exists>i. q' = push_front i q \<and> item_bytes h' i = d \<and> item_ok h' i \<and> wi_block i = h_next h"
    and "h_blocks h' = (h_blocks h)(h_next h \<mapsto> d)" and "heap_ok h'" and "h_next h' = h_next h + 1"
  using assms
  by (auto simp: add_to_write_queue_def malloc_def memcpy_def item_bytes_def item_ok_def heap_ok_def)

lemma item_kept:
  assumes "heap_ok h" and "item_ok h i" and "h_blocks h' = (h_blocks h)(h_next h \<mapsto> d)"
  shows "item_bytes h' i = item_bytes h i" and "item_ok h' i"
proof -
  have "wi_block i \<noteq> h_next h" using assms(1,2) by (auto simp: item_ok_def heap_ok_def)
  with assms(2,3) show "item_bytes h' i = item_bytes h i" "item_ok h' i"
    by (simp_all add: item_bytes_def item_ok_def)
qed

section \<open>Refinement\<close>

lemma write_holding_lock_refines:
  assumes "item_ok h item" and "\<forall>i \<in> set q. item_ok h i"
    and "write_holding_lock_c wr fd item q h s = (r, q', s')"
  shows "write_holding_lock wr fd (item_bytes h item) (map (item_bytes h) q) s = (r, map (item_bytes h) q', s')
    \<and> (\<forall>i \<in> set q'. item_ok h i)"
proof -
  obtain b e s1 where w: "wr fd (item_bytes h item) s = (b, e, s1)" by (cases "wr fd (item_bytes h item) s")
  have m: "nat b \<le> wi_size item" if "b < int (wi_size item)" using that by simp
  from assms w show ?thesis
    by (auto simp: write_holding_lock_c_def write_holding_lock_def length_item_bytes push_back_def
        item_moved [OF assms(1) m] split: if_splits)
qed

lemma drain_refines:
  assumes "\<forall>i \<in> set q. item_ok h i" and "drain_c wr fd q h s = (q', s')"
  shows "drain wr fd (map (item_bytes h) q) s = (map (item_bytes h) q', s') \<and> (\<forall>i \<in> set q'. item_ok h i)"
  using assms
proof (induction "length q" arbitrary: q s rule: less_induct)
  case less
  show ?case
  proof (cases "take_back q")
    case None
    with less.prems show ?thesis
      by (auto simp: drain_c.simps [of wr fd q] drain.simps [of wr fd] take_back_def split: if_splits)
  next
    case (Some p)
    obtain item q1 where p: "p = (item, q1)" by (cases p)
    with Some have q: "q = q1 @ [item]" by (simp add: take_back_SomeD)
    obtain r q2 s2 where w: "write_holding_lock_c wr fd item q1 h s = (r, q2, s2)"
      by (cases "write_holding_lock_c wr fd item q1 h s")
    have ok: "item_ok h item" "\<forall>i \<in> set q1. item_ok h i" using less.prems(1) q by auto
    note r = write_holding_lock_refines [OF ok w]
    show ?thesis
    proof (cases "r = -1")
      case True
      with less.prems w r q show ?thesis
        by (simp add: drain_c.simps [of wr fd "q1 @ [item]"] drain.simps [of wr fd "map (item_bytes h) q1 @ _"])
    next
      case False
      with w have "q2 = q1" by (rule write_holding_lock_c_popped)
      with less.prems w False less.hyps [of q1 s2] q r ok show ?thesis
        by (simp add: drain_c.simps [of wr fd "q1 @ [item]"] drain.simps [of wr fd "map (item_bytes h) q1 @ _"])
    qed
  qed
qed

lemma write_critical_section_refines:
  assumes "heap_ok h" and "\<forall>i \<in> set q. item_ok h i"
    and "write_critical_section_c wr fd data q h s = (r, q', h', s')"
  shows "write_critical_section wr fd data (map (item_bytes h) q) s = (r, map (item_bytes h') q', s')
    \<and> (\<forall>i \<in> set q'. item_ok h' i) \<and> heap_ok h'"
proof -
  have add: "map (item_bytes h1) q1 = push_front d (map (item_bytes h) q) \<and> (\<forall>i \<in> set q1. item_ok h1 i) \<and> heap_ok h1"
    if "add_to_write_queue d q h = (q1, h1)" for d q1 h1
    using add_to_write_queue_new [OF assms(1) that] item_kept [OF assms(1)] assms(2)
    by (auto simp: push_front_def)
  obtain b e s1 where w: "wr fd data s = (b, e, s1)" by (cases "wr fd data s")
  show ?thesis
    using assms w add
    by (auto simp: write_critical_section_c_def write_critical_section_def Let_def
        split: if_splits prod.splits)
qed

section \<open>Blocks that nobody frees\<close>

text \<open>
  \<^verbatim>\<open>write\<close> with its copy of the queue: \<^verbatim>\<open>auto writeQueue\<close> makes a local object, to which the item is pushed and which is
  destroyed at the end of the method; the queues \<open>Q\<close> of the sockets are not assigned to.
\<close>

definition ThreadedServer2_write_c ::
  "(fd \<Rightarrow> byte list \<Rightarrow> 's \<Rightarrow> int \<times> errno \<times> 's) \<Rightarrow> fd \<Rightarrow> byte list \<Rightarrow> heap \<Rightarrow> (fd \<Rightarrow> write_item_c list) \<Rightarrow> 's
    \<Rightarrow> int \<times> heap \<times> (fd \<Rightarrow> write_item_c list) \<times> 's" where
  "ThreadedServer2_write_c server_write fd data h Q s =
     (let (r, writeQueue, h1, s1) = write_critical_section_c server_write fd data (Q fd) h s in (r, h1, Q, s1))"

text \<open>
  What a program does to the memory: calls of \<^verbatim>\<open>write\<close>, turns of the worker on a socket, and \<^verbatim>\<open>cleanup\<close> of a
  socket, which empties its queue.
\<close>

datatype mem_op = Op_write fd "byte list" | Op_worker fd | Op_cleanup fd

fun mem_exec :: "(fd \<Rightarrow> byte list \<Rightarrow> 's \<Rightarrow> int \<times> errno \<times> 's) \<Rightarrow> mem_op
    \<Rightarrow> heap \<times> (fd \<Rightarrow> write_item_c list) \<times> 's \<Rightarrow> heap \<times> (fd \<Rightarrow> write_item_c list) \<times> 's" where
  "mem_exec wr (Op_write fd data) (h, Q, s) = snd (ThreadedServer2_write_c wr fd data h Q s)"
| "mem_exec wr (Op_worker fd) (h, Q, s) = (let (q, s1) = drain_c wr fd (Q fd) h s in (h, Q(fd := q), s1))"
| "mem_exec wr (Op_cleanup fd) (h, Q, s) = (h, Q(fd := []), s)"

text \<open>A block is lost when it is allocated and no item of a queue points into it.\<close>

definition lost :: "addr \<Rightarrow> byte list \<Rightarrow> heap \<times> (fd \<Rightarrow> write_item_c list) \<times> 's \<Rightarrow> bool" where
  "lost p b = (\<lambda>(h, Q, s). heap_ok h \<and> h_blocks h p = Some b \<and> (\<forall>fd. p \<notin> wi_block ` set (Q fd)))"

text \<open>The critical section allocates nothing, or one new block that holds what was not sent.\<close>

lemma write_critical_section_c_heap:
  assumes "heap_ok h" and "write_critical_section_c wr fd data q h s = (r, q', h', s')"
    and "wr fd data s = (b, e, s1)"
  shows "if q = [] \<and> b = int (length data) then h' = h \<and> r = b
    else heap_ok h' \<and> r = int (length data)
      \<and> h_blocks h' = (h_blocks h)(h_next h \<mapsto> if q = [] \<and> b < int (length data) \<and> b \<noteq> -1 then drop (nat b) data else data)"
proof -
  have add: "heap_ok h1 \<and> h_blocks h1 = (h_blocks h)(h_next h \<mapsto> d)"
    if "add_to_write_queue d q h = (q1, h1)" for d q1 h1
    using add_to_write_queue_new [OF assms(1) that] by simp
  show ?thesis
    using assms(2,3) add
    by (auto simp: write_critical_section_c_def Let_def split: if_splits prod.splits)
qed

lemma drain_c_blocks:
  assumes "drain_c wr fd q h s = (q', s')"
  shows "wi_block ` set q' \<subseteq> wi_block ` set q"
  using assms
proof (induction "length q" arbitrary: q s rule: less_induct)
  case less
  show ?case
  proof (cases "take_back q")
    case None
    with less.prems show ?thesis by (simp add: drain_c.simps [of wr fd q])
  next
    case (Some x)
    obtain item q1 where x: "x = (item, q1)" by (cases x)
    with Some have q: "q = q1 @ [item]" by (simp add: take_back_SomeD)
    obtain r q2 s2 where w: "write_holding_lock_c wr fd item q1 h s = (r, q2, s2)"
      by (cases "write_holding_lock_c wr fd item q1 h s")
    then have sub: "wi_block ` set q2 \<subseteq> wi_block ` set q"
      using q by (auto simp: write_holding_lock_c_def push_back_def Let_def split: if_splits prod.splits)
    show ?thesis
    proof (cases "r = -1")
      case True
      with less.prems w q sub show ?thesis by (simp add: drain_c.simps [of wr fd "q1 @ [item]"])
    next
      case False
      with w have "q2 = q1" by (rule write_holding_lock_c_popped)
      with less.prems w False less.hyps [of q1 s2] q show ?thesis
        by (auto simp: drain_c.simps [of wr fd "q1 @ [item]"])
    qed
  qed
qed

lemma write_c_lost:
  assumes "lost p b (h, Q, s)"
  shows "lost p b (snd (ThreadedServer2_write_c wr fd data h Q s))"
proof -
  obtain r q' h' s' where w: "write_critical_section_c wr fd data (Q fd) h s = (r, q', h', s')"
    by (metis surj_pair)
  obtain c e s1 where c: "wr fd data s = (c, e, s1)" by (cases "wr fd data s")
  from assms have h: "heap_ok h" "h_blocks h p = Some b" by (simp_all add: lost_def)
  then have "p \<noteq> h_next h" by (auto simp: heap_ok_def)
  with write_critical_section_c_heap [OF h(1) w c] h have "heap_ok h' \<and> h_blocks h' p = Some b"
    by (auto split: if_splits)
  with w assms show ?thesis by (simp add: ThreadedServer2_write_c_def lost_def)
qed

lemma mem_exec_lost: "lost p b m \<Longrightarrow> lost p b (mem_exec wr op m)"
proof (induction wr op m rule: mem_exec.induct)
  case (1 wr fd data h Q s)
  then show ?case by (simp add: write_c_lost)
next
  case (2 wr fd h Q s)
  obtain q s1 where "drain_c wr fd (Q fd) h s = (q, s1)" by (cases "drain_c wr fd (Q fd) h s")
  with 2 drain_c_blocks [OF this] show ?case by (auto simp: lost_def)
qed (auto simp: lost_def)

lemma mem_run_lost: "lost p b m \<Longrightarrow> lost p b (fold (mem_exec wr) ops m)"
  by (induction ops arbitrary: m) (simp_all add: mem_exec_lost)

section \<open>Properties\<close>

text \<open>
  C22. The write queues with pointers implement the queues of bytes: taking an item, writing it, moving its pointer over
  what was written and putting it back, and adding a freshly allocated item, are the operations of the worker and
  of the critical section of \<^verbatim>\<open>write\<close> on the bytes that the items point to, and no item ever points outside its
  block.
\<close>

theorem write_heap_refines:
  assumes "heap_ok h" and "\<forall>i \<in> set q. item_ok h i"
    and "drain_c wr fd q h s = (q1, s1)" and "write_critical_section_c wr fd data q h s = (r, q2, h2, s2)"
  shows "drain wr fd (map (item_bytes h) q) s = (map (item_bytes h) q1, s1)
    \<and> write_critical_section wr fd data (map (item_bytes h) q) s = (r, map (item_bytes h2) q2, s2)
    \<and> (\<forall>i \<in> set q1. item_ok h i) \<and> (\<forall>i \<in> set q2. item_ok h2 i) \<and> heap_ok h2"
  using drain_refines [OF assms(2,3)] write_critical_section_refines [OF assms(1,2,4)] by blast

definition demo_heap :: heap where
  "demo_heap = \<lparr>h_next = 1, h_blocks = [0 \<mapsto> [7, 8, 9]]\<rparr>"

definition demo_queue :: "write_item_c list" where
  "demo_queue = [\<lparr>wi_block = 0, wi_offset = 1, wi_size = 2\<rparr>]"

text \<open>A server that writes one byte of what it gets.\<close>

definition one_byte :: "fd \<Rightarrow> byte list \<Rightarrow> byte list \<Rightarrow> int \<times> errno \<times> byte list" where
  "one_byte fd d s = (1, 0, s @ take 1 d)"

theorem write_heap_refines_witness:
  "drain one_byte 5 [[8, 9]] [] = (map (item_bytes demo_heap) [\<lparr>wi_block = 0, wi_offset = 2, wi_size = 1\<rparr>], [8])"
proof -
  have "heap_ok demo_heap" "\<forall>i \<in> set demo_queue. item_ok demo_heap i"
    by (auto simp: heap_ok_def item_ok_def demo_heap_def demo_queue_def)
  moreover have "drain_c one_byte 5 demo_queue demo_heap [] = ([\<lparr>wi_block = 0, wi_offset = 2, wi_size = 1\<rparr>], [8])"
    by (simp add: drain_c.simps demo_queue_def take_back_def write_holding_lock_c_def one_byte_def item_bytes_def
        demo_heap_def push_back_def)
  moreover obtain r q2 h2 s2 where "write_critical_section_c one_byte 5 [1] demo_queue demo_heap [] = (r, q2, h2, s2)"
    by (metis surj_pair)
  moreover have "map (item_bytes demo_heap) demo_queue = [[8, 9]]"
    by (simp add: item_bytes_def demo_heap_def demo_queue_def)
  ultimately show ?thesis using write_heap_refines [of demo_heap demo_queue one_byte 5 "[]"] by metis
qed

text \<open>
  C23. Every buffer that \<^verbatim>\<open>ThreadedServer2::write\<close> allocates is lost. When the queue of the socket is not empty or the
  kernel does not take all the data, \<^verbatim>\<open>write\<close> allocates a block that was not allocated before and copies into it what was
  not sent; it returns the full size; and from then on, whatever calls of \<^verbatim>\<open>write\<close>, turns of the worker and
  \<^verbatim>\<open>cleanup\<close>s follow, that block stays allocated with those bytes and no item of any queue points into it.
\<close>

theorem write_buffers_leak:
  assumes "heap_ok h" and "\<forall>g. \<forall>i \<in> set (Q g). item_ok h i" and "server_write fd data s = (b, e, s1)"
    and "Q fd \<noteq> [] \<or> b \<noteq> int (length data)"
    and "ThreadedServer2_write_c server_write fd data h Q s = (r, m)"
  shows "\<exists>p. h_blocks h p = None \<and> r = int (length data)
    \<and> (\<forall>ops. lost p (if Q fd = [] \<and> b \<noteq> -1 \<and> b < int (length data) then drop (nat b) data else data)
         (fold (mem_exec server_write) ops m))"
proof -
  obtain q' h' s' where w: "write_critical_section_c server_write fd data (Q fd) h s = (r, q', h', s')" "m = (h', Q, s')"
    using assms(5) by (auto simp: ThreadedServer2_write_c_def Let_def split: prod.splits)
  have new: "h_blocks h (h_next h) = None" using assms(1) by (simp add: heap_ok_def)
  with assms(2) have "\<forall>g. h_next h \<notin> wi_block ` set (Q g)" by (force simp: item_ok_def)
  with write_critical_section_c_heap [OF assms(1) w(1) assms(3)] assms(4)
  have "r = int (length data)" "lost (h_next h)
      (if Q fd = [] \<and> b \<noteq> -1 \<and> b < int (length data) then drop (nat b) data else data) m"
    by (auto simp: w(2) lost_def)
  with new mem_run_lost [OF this(2)] show ?thesis by blast
qed

theorem write_buffers_leak_witness:
  "\<exists>p. lost p [8] (fold (mem_exec one_byte) [Op_worker 5, Op_write 5 [9], Op_cleanup 5]
      (snd (ThreadedServer2_write_c one_byte 5 [7, 8] \<lparr>h_next = 0, h_blocks = Map.empty\<rparr> (\<lambda>fd. []) [])))"
proof -
  let ?h = "\<lparr>h_next = 0, h_blocks = Map.empty\<rparr>"
  have "heap_ok ?h" "\<forall>g. \<forall>i \<in> set ((\<lambda>fd. []) g). item_ok ?h i" by (simp_all add: heap_ok_def)
  moreover have "one_byte 5 [7, 8] [] = (1, 0, [7])" by (simp add: one_byte_def)
  moreover have "(\<lambda>fd. []) 5 \<noteq> ([] :: write_item_c list) \<or> 1 \<noteq> int (length [7, 8 :: byte])" by simp
  moreover obtain r m where m: "ThreadedServer2_write_c one_byte 5 [7, 8] ?h (\<lambda>fd. []) [] = (r, m)" by (metis surj_pair)
  ultimately obtain p where "\<forall>ops. lost p [8] (fold (mem_exec one_byte) ops m)"
    using write_buffers_leak [of ?h "\<lambda>fd. []" one_byte 5 "[7, 8]" "[]" 1 0 "[7]" r m] by auto
  then have "lost p [8] (fold (mem_exec one_byte) [Op_worker 5, Op_write 5 [9], Op_cleanup 5] m)" ..
  with m show ?thesis by (intro exI [of _ p]) (simp only: snd_conv)
qed

end
