(* ===== verification/SocketData_Wait.thy ===== *)
theory SocketData_Wait
  imports SocketData Condition_Variable
begin

text \<open>
  The waiting inside \<^verbatim>\<open>SocketData::lock\<close>: any number of threads that lock, clean up and release one \<^verbatim>\<open>SocketData\<close>, with
  the condition variable \<^verbatim>\<open>usesCv\<close>. No notification is lost, not even when \<^verbatim>\<open>cleanup\<close> resets the counter under the lock.
\<close>

section \<open>Threads\<close>

text \<open>
  \<open>D_out\<close>: outside; \<open>D_lock\<close>: at the beginning of \<^verbatim>\<open>lock\<close>; \<open>D_wait\<close> and \<open>D_woken\<close>: inside and on the way out of
  \<^verbatim>\<open>usesCv.wait\<close>; \<open>D_in\<close>: between \<^verbatim>\<open>lock\<close> and \<^verbatim>\<open>release\<close>; \<open>D_notify\<close>: in \<^verbatim>\<open>release\<close>, before \<^verbatim>\<open>notify_one\<close>. What is done under the
  mutex of the counter is one step.
\<close>

datatype sd_pc = D_out | D_lock | D_wait | D_woken | D_in | D_notify

text \<open>The loop of \<^verbatim>\<open>lock\<close>, from getting the mutex to giving it back.\<close>

definition lock_turn :: "socket_data \<Rightarrow> sd_pc \<times> socket_data" where
  "lock_turn sd = (case SocketData_lock sd of Inl a \<Rightarrow> (D_wait, sd) | Inr sd' \<Rightarrow> (D_in, sd'))"

text \<open>The parameter says whether a wait can also end without a notification.\<close>

inductive sd_wait_step :: "bool \<Rightarrow> socket_data \<times> sd_pc list \<Rightarrow> socket_data \<times> sd_pc list \<Rightarrow> bool" for spurious :: bool where
  d_call: "i < length cs \<Longrightarrow> cs ! i = D_out \<Longrightarrow> sd_wait_step spurious (sd, cs) (sd, cs[i := D_lock])"
| d_lock: "i < length cs \<Longrightarrow> cs ! i \<in> {D_lock, D_woken} \<Longrightarrow> lock_turn sd = (c, sd') \<Longrightarrow>
    sd_wait_step spurious (sd, cs) (sd', cs[i := c])"
| d_spurious: "spurious \<Longrightarrow> i < length cs \<Longrightarrow> cs ! i = D_wait \<Longrightarrow> sd_wait_step spurious (sd, cs) (sd, cs[i := D_woken])"
| d_cleanup: "i < length cs \<Longrightarrow> cs ! i = D_in \<Longrightarrow> sd_wait_step spurious (sd, cs) (SocketData_cleanup useLock sd, cs)"
| d_release: "i < length cs \<Longrightarrow> cs ! i = D_in \<Longrightarrow> sd_wait_step spurious (sd, cs) (SocketData_release sd, cs[i := D_notify])"
| d_notify: "i < length cs \<Longrightarrow> cs ! i = D_notify \<Longrightarrow> notify_one D_wait D_woken (cs[i := D_out]) cs' \<Longrightarrow>
    sd_wait_step spurious (sd, cs) (sd, cs')"

definition sd_wait_init :: "nat \<Rightarrow> socket_data \<times> sd_pc list \<Rightarrow> bool" where
  "sd_wait_init n s \<longleftrightarrow> s = (SocketData_new, replicate n D_out)"

section \<open>Invariant\<close>

text \<open>
  The counter is at most the number of threads inside, and while a thread waits some other thread is inside, is
  about to notify, or has been woken.
\<close>

definition inside :: "sd_pc list \<Rightarrow> int" where
  "inside cs = (\<Sum>c\<leftarrow>cs. of_bool (c = D_in))"

definition sd_wait_inv :: "socket_data \<times> sd_pc list \<Rightarrow> bool" where
  "sd_wait_inv = (\<lambda>(sd, cs). uses sd \<le> inside cs
     \<and> (D_wait \<in> set cs \<longrightarrow> D_in \<in> set cs \<or> D_notify \<in> set cs \<or> D_woken \<in> set cs))"

lemma inside_update: "i < length cs \<Longrightarrow> inside (cs[i := c]) = inside cs - of_bool (cs ! i = D_in) + of_bool (c = D_in)"
  using sum_list_map_update [of i cs "\<lambda>c. of_bool (c = D_in) :: int" c] by (simp add: inside_def)

lemma inside_none: "D_in \<notin> set cs \<Longrightarrow> inside cs = 0"
  by (induction cs) (auto simp: inside_def)

lemma inside_positive: "0 < inside cs \<Longrightarrow> D_in \<in> set cs"
  using inside_none by force

lemma inside_nonneg: "0 \<le> inside cs"
  by (induction cs) (auto simp: inside_def)

lemma inside_member: "D_in \<in> set cs \<Longrightarrow> 1 \<le> inside cs"
proof (induction cs)
  case (Cons c cs)
  with inside_nonneg [of cs] show ?case by (auto simp: inside_def)
qed simp

lemma inside_notify: "notify_one D_wait D_woken cs cs' \<Longrightarrow> inside cs' = inside cs"
  by (induction rule: notify_one.induct) (simp_all add: inside_update)

lemma notify_one_woken: "notify_one D_wait D_woken cs cs' \<Longrightarrow> D_wait \<in> set cs' \<Longrightarrow> D_woken \<in> set cs'"
  by (induction rule: notify_one.induct) (auto simp: set_update_memI)

lemma sd_wait_inv_step:
  assumes "sd_wait_inv s" and "sd_wait_step b s s'"
  shows "sd_wait_inv s'"
  using assms(2)
proof cases
  case (d_call i cs sd)
  with assms(1) show ?thesis by (simp add: sd_wait_inv_def inside_update set_update_other)
next
  case (d_lock i cs sd c sd')
  show ?thesis
  proof (cases "uses sd > 0")
    case True
    with d_lock assms(1) inside_positive [of cs] show ?thesis
      by (auto simp: sd_wait_inv_def lock_turn_def SocketData_lock_def inside_update set_update_other)
  next
    case False
    with d_lock assms(1) show ?thesis
      by (auto simp: sd_wait_inv_def lock_turn_def SocketData_lock_def inside_update set_update_memI)
  qed
next
  case (d_spurious i cs sd)
  with assms(1) show ?thesis by (simp add: sd_wait_inv_def inside_update set_update_memI)
next
  case (d_cleanup i cs sd b')
  with assms(1) inside_member [of cs] nth_mem [of i cs] show ?thesis
    by (auto simp: sd_wait_inv_def SocketData_defs)
next
  case (d_release i cs sd)
  with assms(1) show ?thesis by (simp add: sd_wait_inv_def inside_update set_update_memI SocketData_defs)
next
  case (d_notify i cs cs' sd)
  with assms(1) notify_one_woken [OF d_notify(5)] inside_notify [OF d_notify(5)] show ?thesis
    by (auto simp: sd_wait_inv_def inside_update)
qed

interpretation sd_waiting: inductive_invariant "sd_wait_init n" "sd_wait_step b" sd_wait_inv for n b
proof
  show "sd_wait_inv s" if "sd_wait_init n s" for s
    using that by (auto simp: sd_wait_init_def sd_wait_inv_def SocketData_new_def inside_def sum_list_replicate)
qed (rule sd_wait_inv_step)

lemma notification_wakes:
  assumes "D_notify \<in> set cs" and "D_wait \<in> set cs"
  shows "\<exists>cs'. sd_wait_step b (sd, cs) (sd, cs') \<and> D_woken \<in> set cs'"
proof -
  obtain i where i: "i < length cs" "cs ! i = D_notify" using assms(1) by (auto simp: in_set_conv_nth)
  then have "D_wait \<in> set (cs[i := D_out])" using assms(2) by (simp add: set_update_other)
  then obtain j where j: "j < length cs" "cs[i := D_out] ! j = D_wait" by (auto simp: in_set_conv_nth)
  have "sd_wait_step b (sd, cs) (sd, cs[i := D_out, j := D_woken])"
    using j by (intro d_notify [OF i] wakes) simp_all
  with j show ?thesis by (blast intro: set_update_memI length_list_update [THEN ssubst])
qed

section \<open>Properties\<close>

text \<open>
  C25. No wake-up of \<^verbatim>\<open>SocketData::lock\<close> is lost, with any number of threads and even when \<^verbatim>\<open>cleanup\<close> resets the counter
  under the lock. While a thread waits, another one is inside, is about to notify, or has been woken; when nobody
  is inside, the next thread to try gets in; and from every state in which a thread waits and nobody is inside, some
  thread can get in whatever has happened before.
\<close>

theorem SocketData_no_lost_wake_up:
  assumes "reachable (sd_wait_init n) (sd_wait_step b) (sd, cs)" and "D_wait \<in> set cs"
  shows "(D_in \<in> set cs \<or> D_notify \<in> set cs \<or> D_woken \<in> set cs)
    \<and> (D_in \<notin> set cs \<longrightarrow> fst (lock_turn sd) = D_in
        \<and> (\<exists>sd' cs'. (sd_wait_step b)\<^sup>*\<^sup>* (sd, cs) (sd', cs') \<and> D_in \<in> set cs'))"
proof -
  note inv = sd_waiting.reachable_inv [OF assms(1)]
  then have some: "D_in \<in> set cs \<or> D_notify \<in> set cs \<or> D_woken \<in> set cs"
    using assms(2) by (simp add: sd_wait_inv_def)
  moreover have "fst (lock_turn sd) = D_in \<and> (\<exists>sd' cs'. (sd_wait_step b)\<^sup>*\<^sup>* (sd, cs) (sd', cs') \<and> D_in \<in> set cs')"
    if none: "D_in \<notin> set cs"
  proof -
    have free: "lock_turn sd = (D_in, sd\<lparr>uses := uses sd + 1\<rparr>)"
      using inv inside_none [OF none] by (simp add: sd_wait_inv_def lock_turn_def SocketData_lock_def)
    have "\<exists>cs'. (sd_wait_step b)\<^sup>*\<^sup>* (sd, cs) (sd, cs') \<and> D_woken \<in> set cs'"
      using some none notification_wakes [OF _ assms(2), of b sd] by blast
    then obtain cs' i where steps: "(sd_wait_step b)\<^sup>*\<^sup>* (sd, cs) (sd, cs')" and i: "i < length cs'" "cs' ! i = D_woken"
      by (auto simp: in_set_conv_nth)
    from d_lock [OF i(1) _ free, of b] i(2) have "sd_wait_step b (sd, cs') (sd\<lparr>uses := uses sd + 1\<rparr>, cs'[i := D_in])"
      by simp
    with steps have "(sd_wait_step b)\<^sup>*\<^sup>* (sd, cs) (sd\<lparr>uses := uses sd + 1\<rparr>, cs'[i := D_in])"
      by (rule rtranclp.rtrancl_into_rtrancl)
    with free set_update_memI [OF i(1), of D_in] show ?thesis by auto
  qed
  ultimately show ?thesis by blast
qed

theorem SocketData_no_lost_wake_up_witness:
  "\<exists>sd. reachable (sd_wait_init 2) (sd_wait_step False) (sd, [D_notify, D_wait]) \<and> fst (lock_turn sd) = D_in"
proof -
  let ?R = "\<lambda>u cs. reachable (sd_wait_init 2) (sd_wait_step False) (\<lparr>uses = u, writeQueue = []\<rparr>, cs)"
  have "?R 0 [D_out, D_out]"
    by (rule reach_init) (simp add: sd_wait_init_def SocketData_new_def numeral_2_eq_2)
  from reach_step [OF this d_call [of 0]] have "?R 0 [D_lock, D_out]" by simp
  from reach_step [OF this d_lock [of 0]] have "?R 1 [D_in, D_out]"
    by (simp add: lock_turn_def SocketData_eval)
  from reach_step [OF this d_call [of 1]] have "?R 1 [D_in, D_lock]" by simp
  from reach_step [OF this d_lock [of 1]] have "?R 1 [D_in, D_wait]"
    by (simp add: lock_turn_def SocketData_eval)
  from reach_step [OF this d_release [of 0]] have r: "?R 0 [D_notify, D_wait]" by (simp add: SocketData_eval)
  from SocketData_no_lost_wake_up [OF r] r show ?thesis by auto
qed

end
