(* ===== verification/Ready_Wait.thy ===== *)
theory Ready_Wait
  imports Condition_Variable
begin

text \<open>
  The condition variable of \<^verbatim>\<open>IGenericServer\<close>: \<^verbatim>\<open>wait_for_server_ready\<close> waits until \<^verbatim>\<open>is_listening\<close> is true, \<^verbatim>\<open>terminate\<close> until it
  is false again, and the listening thread changes the flag under the mutex and then notifies one thread. Both
  waits are the same loop, with the value they wait for as a parameter.
\<close>

section \<open>Threads\<close>

text \<open>
  A waiting thread: \<open>V_lock\<close> before it has the mutex, \<open>V_wait\<close> and \<open>V_woken\<close> inside and on the way out of \<^verbatim>\<open>cv.wait\<close>,
  \<open>V_done\<close> after the loop. The listening thread: \<open>R_set\<close> before it changes the flag, \<open>R_notify\<close> before the notification.
  A wait ends by a notification; the standard allows it to end otherwise and does not promise that it does.
\<close>

datatype waiter_pc = V_lock | V_wait | V_woken | V_done
datatype setter_pc = R_set | R_notify | R_done

record ready_state =
  rs_listening :: bool
  rs_setter :: setter_pc
  rs_waiters :: "waiter_pc list"

text \<open>The loop \<^verbatim>\<open>while (is_listening != goal) cv.wait(lk)\<close>, from getting the mutex to giving it back.\<close>

definition wait_turn :: "bool \<Rightarrow> bool \<Rightarrow> waiter_pc" where
  "wait_turn goal flag = (if flag = goal then V_done else V_wait)"

inductive ready_step :: "bool \<Rightarrow> ready_state \<Rightarrow> ready_state \<Rightarrow> bool" for goal :: bool where
  v_turn: "i < length (rs_waiters s) \<Longrightarrow> rs_waiters s ! i \<in> {V_lock, V_woken} \<Longrightarrow>
    ready_step goal s (s\<lparr>rs_waiters := (rs_waiters s)[i := wait_turn goal (rs_listening s)]\<rparr>)"
| r_set: "rs_setter s = R_set \<Longrightarrow> ready_step goal s (s\<lparr>rs_listening := goal, rs_setter := R_notify\<rparr>)"
| r_notify: "rs_setter s = R_notify \<Longrightarrow> notify_one V_wait V_woken (rs_waiters s) cs \<Longrightarrow>
    ready_step goal s (s\<lparr>rs_waiters := cs, rs_setter := R_done\<rparr>)"

definition ready_init :: "bool \<Rightarrow> nat \<Rightarrow> ready_state \<Rightarrow> bool" where
  "ready_init goal n s \<longleftrightarrow> s = \<lparr>rs_listening = (\<not> goal), rs_setter = R_set, rs_waiters = replicate n V_lock\<rparr>"

section \<open>One waiting thread\<close>

definition one_waiter_inv :: "bool \<Rightarrow> ready_state \<Rightarrow> bool" where
  "one_waiter_inv goal s \<longleftrightarrow> (\<exists>v. rs_waiters s = [v] \<and> (v = V_wait \<longrightarrow> rs_setter s \<noteq> R_done) \<and> (v = V_done \<longrightarrow> rs_setter s \<noteq> R_set))
     \<and> (rs_listening s = goal \<longleftrightarrow> rs_setter s \<noteq> R_set)"

fun waiter_left :: "waiter_pc \<Rightarrow> nat" where
  "waiter_left V_lock = 3" | "waiter_left V_wait = 2" | "waiter_left V_woken = 1" | "waiter_left V_done = 0"

fun setter_left :: "setter_pc \<Rightarrow> nat" where
  "setter_left R_set = 2" | "setter_left R_notify = 1" | "setter_left R_done = 0"

definition ready_left :: "ready_state \<Rightarrow> nat" where
  "ready_left s = setter_left (rs_setter s) + (\<Sum>v\<leftarrow>rs_waiters s. waiter_left v)"

inductive_cases notify_singleE: "notify_one V_wait V_woken [v] cs"

lemma notify_single: "notify_one V_wait V_woken [v] cs \<Longrightarrow> cs = [if v = V_wait then V_woken else v]"
  by (elim notify_singleE) auto

lemma one_waiter_step:
  assumes "one_waiter_inv goal s" and "ready_step goal s t"
  shows "one_waiter_inv goal t"
  using assms(2)
proof cases
  case (v_turn i)
  with assms(1) show ?thesis by (auto simp: one_waiter_inv_def wait_turn_def)
next
  case (r_notify cs)
  with assms(1) show ?thesis by (auto simp: one_waiter_inv_def dest!: notify_single)
qed (use assms(1) in \<open>auto simp: one_waiter_inv_def\<close>)

interpretation one_waiter: inductive_invariant "ready_init goal 1" "ready_step goal" "one_waiter_inv goal" for goal
  by unfold_locales (simp add: ready_init_def one_waiter_inv_def, rule one_waiter_step)

section \<open>Properties\<close>

text \<open>
  C12. A thread that waits for the server alone is woken: in every reachable state it is through or some thread can
  make a step, and every step brings it closer to its end, once the flag has changed. It gets through only after
  the flag has the value it waits for.
\<close>

theorem wait_for_server_ready_returns:
  assumes "reachable (ready_init goal 1) (ready_step goal) s"
  shows "(rs_waiters s = [V_done] \<or> (\<exists>t. ready_step goal s t))
    \<and> (rs_setter s \<noteq> R_set \<and> ready_step goal s t \<longrightarrow> ready_left t < ready_left s)
    \<and> (rs_waiters s = [V_done] \<longrightarrow> rs_listening s = goal)"
proof -
  note inv = one_waiter.reachable_inv [OF assms]
  obtain v where v: "rs_waiters s = [v]" using inv by (auto simp: one_waiter_inv_def)
  have "rs_waiters s = [V_done] \<or> (\<exists>t. ready_step goal s t)"
  proof (cases v)
    case V_wait
    with inv v have "rs_setter s \<noteq> R_done" by (simp add: one_waiter_inv_def)
    then show ?thesis using notify_one_total [of V_wait V_woken "rs_waiters s"]
      by (cases "rs_setter s") (auto intro: r_set r_notify)
  qed (use v v_turn [of 0 s goal] in auto)
  moreover have "ready_left t < ready_left s" if "rs_setter s \<noteq> R_set" "ready_step goal s t"
    using that(2)
  proof cases
    case (v_turn i)
    with v inv that(1) show ?thesis by (auto simp: one_waiter_inv_def wait_turn_def ready_left_def)
  next
    case (r_notify cs)
    with v show ?thesis by (auto simp: ready_left_def dest!: notify_single)
  qed (use that(1) in simp)
  moreover have "rs_waiters s = [V_done] \<longrightarrow> rs_listening s = goal"
    using inv by (auto simp: one_waiter_inv_def)
  ultimately show ?thesis by blast
qed

theorem wait_for_server_ready_returns_witness:
  "\<exists>s. reachable (ready_init True 1) (ready_step True) s \<and> rs_waiters s = [V_wait] \<and> (\<exists>t. ready_step True s t)"
proof -
  have "reachable (ready_init True 1) (ready_step True)
      \<lparr>rs_listening = False, rs_setter = R_set, rs_waiters = [V_lock]\<rparr>"
    by (rule reach_init) (simp add: ready_init_def)
  from reach_step [OF this v_turn [of 0]] have r: "reachable (ready_init True 1) (ready_step True)
      \<lparr>rs_listening = False, rs_setter = R_set, rs_waiters = [V_wait]\<rparr>" by (simp add: wait_turn_def)
  from wait_for_server_ready_returns [OF r] r show ?thesis by fastforce
qed

text \<open>
  C13. With two or more threads that wait for the same change of the flag, all but one can wait for ever:
  \<^verbatim>\<open>notify_one\<close> wakes one of them, and nothing wakes the others. There is a reachable state in which the flag has the
  value they wait for, one thread is through, all others wait, and no thread can make a step.
\<close>

theorem wait_for_server_ready_strands:
  "\<exists>s. reachable (ready_init goal (Suc (Suc n))) (ready_step goal) s \<and> rs_listening s = goal
     \<and> rs_waiters s = V_done # replicate (Suc n) V_wait \<and> (\<forall>t. \<not> ready_step goal s t)"
proof -
  let ?N = "Suc (Suc n)" and ?R = "reachable (ready_init goal (Suc (Suc n))) (ready_step goal)"
  let ?s = "\<lambda>f r cs. \<lparr>rs_listening = f, rs_setter = r, rs_waiters = cs\<rparr>"
  have "?R (?s (\<not> goal) R_set (replicate ?N V_lock))" by (rule reach_init) (simp add: ready_init_def)
  then have "?R (?s (\<not> goal) R_set (replicate ?N V_wait))"
  proof (rule all_threads_move [where f = "?s (\<not> goal) R_set", rotated])
    fix cs i assume "length cs = ?N" "i < ?N" "cs ! i = V_lock"
    then show "ready_step goal (?s (\<not> goal) R_set cs) (?s (\<not> goal) R_set (cs[i := V_wait]))"
      using v_turn [of i "?s (\<not> goal) R_set cs" goal] by (simp add: wait_turn_def)
  qed
  from reach_step [OF this r_set] have "?R (?s goal R_notify (replicate ?N V_wait))" by simp
  from reach_step [OF this r_notify [OF _ wakes [of 0]]]
  have "?R (?s goal R_done (V_woken # replicate (Suc n) V_wait))" by simp
  from reach_step [OF this v_turn [of 0]]
  have "?R (?s goal R_done (V_done # replicate (Suc n) V_wait))" by (simp add: wait_turn_def)
  moreover have "\<not> ready_step goal (?s goal R_done (V_done # replicate (Suc n) V_wait)) t" for t
    by (auto elim!: ready_step.cases simp del: replicate_Suc simp: nth_Cons split: nat.splits)
  ultimately show ?thesis by fastforce
qed

end
