(* ===== verification/Spec2Isabelle.thy ===== *)
theory Spec2Isabelle
  imports Crc16 FiniteStateMachine Logger WorkQueue_Shutdown Delivery C_Client Wire Server_Type Main_Run Echo_Session Edge_Triggered Shutdown Write_Heap SocketData_Wait Ready_Wait
begin

text \<open>
  \<^bold>\<open>A verification library for nbuss, the non-blocking socket server library\<close>

  \<^bold>\<open>The program.\<close> \<^verbatim>\<open>libnbuss\<close> is a C++ library for servers and clients over TCP and Unix stream sockets
  on Linux. \<^verbatim>\<open>IGenericServer\<close> owns the listening socket, an epoll instance and the set of accepted
  connections; its \<^verbatim>\<open>listen\<close> loop turns epoll events into calls of a user callback, and its \<^verbatim>\<open>terminate\<close>,
  called from another thread, ends that loop through a flag and a pipe. \<^verbatim>\<open>TcpServer\<close> and
  \<^verbatim>\<open>UnixSocketServer\<close> open the listening socket. \<^verbatim>\<open>ThreadedServer\<close> runs \<^verbatim>\<open>listen\<close> in a thread;
  \<^verbatim>\<open>ThreadedServer2\<close> adds a second thread that writes queued buffers, one \<^verbatim>\<open>SocketData\<close> per socket;
  \<^verbatim>\<open>WorkQueue\<close> puts the events into a deque that consumer threads empty. \<^verbatim>\<open>BaseClient\<close>,
  \<^verbatim>\<open>UnixSocketClient\<close> and \<^verbatim>\<open>TcpClient\<close> are the client side. \<^verbatim>\<open>Crc16\<close> and \<^verbatim>\<open>FiniteStateMachine\<close> are
  utilities. \<^verbatim>\<open>main/main.cpp\<close> is an echo server with a client in the same process,
  \<^verbatim>\<open>unix_socket_client/unixsocketclient.c\<close> a stand-alone client in C.

  \<^bold>\<open>The theories\<close>, bottom up. File names are relative to \<^verbatim>\<open>libnbuss/\<close>.

  \<^item> \<open>Nbuss_Prelude\<close>: machine types, exceptions and abrupt outcomes, \<^verbatim>\<open>std::map::operator[]\<close> and
    \<^verbatim>\<open>std::deque\<close>, the locale \<open>fifo\<close> with its interpretation on the deque, reachability and the locale
    \<open>inductive_invariant\<close>.
  \<^item> \<open>Condition_Variable\<close>: \<^verbatim>\<open>notify_one\<close> for threads in a list.
  \<^item> \<open>Posix_Interface\<close>: the kernel as a record of system calls over an abstract state, a parameter of
    every operation that makes a system call. What is relied on are the locales \<open>write_syscall\<close>,
    \<open>read_syscall\<close>, \<open>close_syscall\<close>, \<open>fd_syscalls\<close> and \<open>posix_kernel\<close>, with the documented behaviour of
    the calls; each is interpreted on a reference kernel with bounded buffers. \<open>posix_streams\<close> adds that
    closing takes nothing back, \<open>available_read\<close> is \<^verbatim>\<open>read(2)\<close> on connections that have not failed.
  \<^item> \<open>Crc16\<close> (\<^verbatim>\<open>Crc16.h\<close>, \<^verbatim>\<open>Crc16.cpp\<close>): the table-driven CRC equals the bit-serial division register,
    is computable in pieces of any size, and detects every burst of up to 16 bits, at any bit position.
  \<^item> \<open>FiniteStateMachine\<close> (\<^verbatim>\<open>FiniteStateMachine.h\<close>): first-match dispatch, and refinement of the automaton
    that the table stands for.
  \<^item> \<open>Descriptors\<close> (\<^verbatim>\<open>FileDescriptor.h\<close>, \<^verbatim>\<open>UnixPipe.h\<close>).
  \<^item> \<open>IGenericServer\<close> (\<^verbatim>\<open>IGenericServer.h\<close>, \<^verbatim>\<open>IGenericServer.cpp\<close> without \<^verbatim>\<open>listen\<close>): the object is the
    record \<open>server\<close>, an extension of the thread's view of the system \<open>os\<close>. What \<^verbatim>\<open>read\<close> returns and
    what \<^verbatim>\<open>write\<close> sends, the connection counter, the status flags.
  \<^item> \<open>Listen\<close> (\<^verbatim>\<open>IGenericServer::listen\<close>): set-up, dispatch of one event, the loops, the clean-up; the
    table from events to jobs, the counter, for callbacks that satisfy \<open>counting_callback\<close>; that no descriptor is left open; and that the loop ends
    normally exactly when it sees the stop flag.
  \<^item> \<open>Server_Type\<close>: the representation invariant of a server, for any sequence of methods, events and actions
    of other threads, from every constructor. The thread of \<^verbatim>\<open>listen\<close> is part of the state, and its clean-up
    \<^verbatim>\<open>closeSockets\<close> takes four steps, between which other threads run.
  \<^item> \<open>IThreadable\<close> (\<^verbatim>\<open>IThreadable.h\<close>): the contract of starting and stopping as the locale \<open>threadable\<close>,
    interpreted on the two threaded servers.
  \<^item> \<open>Lifecycle\<close> (\<^verbatim>\<open>ThreadedServer.cpp\<close>, and \<^verbatim>\<open>listen\<close> against \<^verbatim>\<open>terminate\<close>): a step relation over the program
    counters of the two threads. \<open>Ready_Wait\<close>: the condition variable of the server with any number of waiting threads.
  \<^item> \<open>SocketData\<close> (\<^verbatim>\<open>SocketData.h\<close>, \<^verbatim>\<open>SocketData.cpp\<close>): the lock, its contract as the locale
    \<open>exclusive_lock\<close>, and how \<^verbatim>\<open>cleanup\<close> breaks it. \<open>SocketData_Wait\<close>: the same threads with the condition variable;
    no wake-up is lost.
  \<^item> \<open>ThreadedServer2\<close> (\<^verbatim>\<open>ThreadedServer2.h\<close>, \<^verbatim>\<open>ThreadedServer2.cpp\<close>): the record extends \<open>server\<close>, so the
    methods of the referenced server apply to it. The worker is proved against the contract
    \<open>stream_writer\<close> of the server's \<^verbatim>\<open>write\<close>, which a sublocale derives from \<open>write_syscall\<close>.
  \<^item> \<open>Write_Heap\<close>: the same queues with items that point into allocated blocks, as in the source; they refine
    the queues of bytes, and a block that \<^verbatim>\<open>write\<close> allocates is lost for good. \<^verbatim>\<open>malloc\<close> does not fail there; the source
    does not test its result.
  \<^item> \<open>Shutdown\<close> (\<^verbatim>\<open>ThreadedServer2::stop\<close>): the protocol of \<open>Lifecycle\<close> composed with the writing thread and the
    stopping thread; \<^verbatim>\<open>stop\<close> always ends.
  \<^item> \<open>WorkQueue\<close> (\<^verbatim>\<open>WorkQueue.h\<close>, \<^verbatim>\<open>WorkQueue.cpp\<close>): operations; delivery by any number of consumers as a
    step relation with histories. A consumer reads its item through a reference to an element that it has removed from the
    deque: what it reads is the parameter \<open>slot\<close>, of which nothing is assumed. What is proved of the deque holds for
    every \<open>slot\<close>; that the callback gets the events themselves is stated for the runs in which the reads are
    \<open>intact\<close>, and that it need not is the lemma \<open>WorkQueue_dangling_read\<close>. \<open>WorkQueue_Stop\<close>: the hand-shake of \<^verbatim>\<open>stop\<close> with the consumers and the producer.
    \<open>WorkQueue_Shutdown\<close>: its product with \<open>Shutdown\<close>, for the whole of \<^verbatim>\<open>WorkQueue::stop\<close>.
  \<^item> \<open>Thread_Loops\<close>: threads that run turn after turn until they wait, with the contract \<open>turns\<close>; the loop of the
    write queue worker over all ready sockets. \<open>Delivery\<close>: the loop of a consumer, and the whole way of an event from
    the dispatcher through \<open>ThreadedServer2\<close> and the deque to the user's callback, which satisfies the contract
    \<open>queue_callback\<close>: it may read, write, close and fail. The contract is interpreted on the callback of \<^verbatim>\<open>main.cpp\<close> and
    on the one of \<^verbatim>\<open>test/testlibnbuss/workqueue_test.cpp\<close>.
  \<^item> \<open>ServerSockets\<close> (\<^verbatim>\<open>TcpServer.cpp\<close>, \<^verbatim>\<open>UnixSocketServer.cpp\<close>) and \<open>Clients\<close> (\<^verbatim>\<open>BaseClient\<close>,
    \<^verbatim>\<open>UnixSocketClient\<close>, \<^verbatim>\<open>TcpClient\<close>), over the contracts \<open>socket_syscalls\<close>, \<open>cork_syscalls\<close> and \<open>fcntl_syscalls\<close>.
  \<^item> \<open>Wire\<close>: the typed \<^verbatim>\<open>write<T>\<close> of a client against the typed \<^verbatim>\<open>read_one_buffer_t<T>\<close> of a server, for element
    types that satisfy the contract \<open>fixed_width\<close>.
  \<^item> \<open>C_Client\<close> (\<^verbatim>\<open>unix_socket_client/unixsocketclient.c\<close>): what it sends, how the request is taken apart again,
    what it prints.
  \<^item> \<open>Logger\<close> (\<^verbatim>\<open>Logger.cpp\<close>): the set-up of the logging library, which is a parameter.
  \<^item> \<open>EchoServer\<close> (\<^verbatim>\<open>my_listener\<close> of \<^verbatim>\<open>main/main.cpp\<close>): dispatcher, \<^verbatim>\<open>read\<close> and \<^verbatim>\<open>write\<close> composed.
  \<^item> \<open>Main_Program\<close> and \<open>Main_Run\<close> (\<^verbatim>\<open>main\<close> of \<^verbatim>\<open>main/main.cpp\<close>): server, dispatcher, callback and client over one
    kernel, whose contract is the locale \<open>loopback\<close>. The message comes back whatever events the listening thread handles,
    of this and of other connections, if one of them reports it as readable; the hang-up or failure of the connection
    itself is left out. \<open>Main_Run\<close> is an example: the ten iterations run to their end under one given schedule.
  \<^item> \<open>Edge_Triggered\<close> (\<^verbatim>\<open>read\<close> under the \<^verbatim>\<open>EPOLLET\<close> of \<^verbatim>\<open>listen\<close>): the loop of \<^verbatim>\<open>read\<close> call by call, with data that
    arrives at any time and events that are reported once, over the contracts \<open>available_read\<close> and \<open>edge_reader\<close>. A
    \<^verbatim>\<open>read\<close> on each event leaves no input behind, a \<^verbatim>\<open>read_one_buffer\<close> can. The relation \<open>et_serve\<close> is a model of the
    edge-triggered kernel and not a translation of code; writable events, hang-ups, and more than one thread that
    reads, are not part of it.
  \<^item> \<open>Echo_Session\<close>: the C client against the echo server, with the server as part of the client's system: while the
    client waits the listening thread handles events, by an arbitrary schedule.

  \<^bold>\<open>Correspondence.\<close> A class is a record and a method a function that returns the record updated; a
  class that holds a reference to a server extends the server's record. A critical section is one
  atomic function. Calls end normally or with an \<open>abrupt\<close> value: an exception, undefined behaviour
  where the source has it (a null pointer), the end of the program, or \<open>Blocked\<close> when the
  thread waits. A method that waits in its middle is split there (\<open>start_begin\<close> and \<open>start_end\<close>, for
  example). Callbacks are parameters that get the whole state. \<^verbatim>\<open>epoll_wait\<close> is the parameter \<open>wait\<close>, which
  stands for the call and for what other threads do meanwhile. Bytes are \<open>8 word\<close>, CRC values \<open>16 word\<close>,
  event masks \<open>32 word\<close>; sizes, descriptors and counters are unbounded, where the source has \<^verbatim>\<open>int\<close> and \<^verbatim>\<open>size_t\<close>, except where the source
  narrows a size (\<open>to_int\<close>).

  \<^bold>\<open>Abstractions of the protocols.\<close> In \<open>Lifecycle\<close>, and in \<open>Shutdown\<close> and \<open>WorkQueue_Shutdown\<close> which contain it, the clean-up of
  \<^verbatim>\<open>listen\<close> is one step together with the change of the flag, since \<^verbatim>\<open>terminate\<close> looks at the flag only, and \<^verbatim>\<open>listen\<close> does not
  end by an exception. In \<open>Shutdown\<close> the worker is taken to get the locks of the sockets that it serves; whether it does is
  the matter of \<open>SocketData_Wait\<close>. In \<open>ServerSockets\<close> the family of the addresses that the resolver returned is not
  distinguished.

  \<^bold>\<open>Loops.\<close> \<^verbatim>\<open>write\<close>, the inner loop of the worker, \<^verbatim>\<open>setup\<close> and the loops over lists are total
  functions with a measure. \<^verbatim>\<open>read\<close>, \<^verbatim>\<open>listen\<close> and the loops of the threads may not return and are
  \<open>partial_function (option)\<close>; that \<^verbatim>\<open>read\<close> returns for finite input, \<^verbatim>\<open>listen\<close> after a request to stop, and that a
  thread gets to its next wait is proved. No fuel is used.

  \<^bold>\<open>What the theorems show.\<close> The design is right in these respects: FIFO order of the worker and of the
  deque of the work queue, from which each event is taken once, no descriptor left open by \<^verbatim>\<open>listen\<close>, the counter of connections,
  complete reads also with edge-triggered events, prefix writes, the protocol of \<^verbatim>\<open>terminate\<close> and of \<^verbatim>\<open>stop\<close>, the representation invariant of a
  server, the round trips of messages, vectors, requests and port numbers. Some theorems state where the code does not
  do what it means to: \<^verbatim>\<open>ThreadedServer2::write\<close> drops what the kernel does not take, because it works
  on a copy of the queue, and leaks its buffer; the consumers of a work queue read items that no longer exist; \<^verbatim>\<open>SocketData::cleanup\<close> under the lock lets several threads in;
  \<^verbatim>\<open>WorkQueue::stop\<close> can miss its wake-up; of several threads that wait for a server only one is woken; \<^verbatim>\<open>set_fd_non_blocking\<close> cannot set the flag; the smart close
  resets the mark of the wrong descriptor.

  \<^bold>\<open>Not modelled.\<close> Log and console output (except what the C client prints, which is its result), the
  printing methods of the state machine and its ill-formed \<^verbatim>\<open>call\<close>, and the tests, apart from the callback named above.
  Failure to create a thread is not modelled. The variant of \<^verbatim>\<open>main\<close> that calls the private method \<^verbatim>\<open>setup\<close> of a
  server is left out: it does not compile.
\<close>

end
